theory Spec2Isabelle
  imports Complex_Main "HOL-Library.Word"
begin

unbundle bit_operations_syntax

section \<open>Errors and floating-point comparison\<close>

text \<open>
  The ways an operation of \<^verbatim>\<open>hist_util.h\<close> can fail to return:
  \<^item> \<open>OutOfRange\<close>: \<^verbatim>\<open>std::out_of_range\<close>, thrown by \<^verbatim>\<open>vector::at\<close> and \<^verbatim>\<open>map::at\<close>;
  \<^item> \<open>LengthError\<close>: \<^verbatim>\<open>std::length_error\<close>, thrown by \<^verbatim>\<open>vector::resize\<close>;
  \<^item> \<open>CheckFailed\<close>: a failing \<^verbatim>\<open>CHECK\<close>, \<^verbatim>\<open>CHECK_EQ\<close>, \<^verbatim>\<open>CHECK_LT\<close>, ... (fatal);
  \<^item> \<open>Undefined\<close>: undefined behaviour of C++ (an unchecked read or write out of range,
    a division by zero, an iterator range that is not one).
\<close>

datatype error = OutOfRange | LengthError | CheckFailed | Undefined

text \<open>
  A \<^verbatim>\<open>float\<close> is seen through its comparisons only. \<open>Num\<close> carries the ordered
  values (finite or infinite, hence any linear order), \<open>NaN\<close> compares false with
  everything, as \<^verbatim>\<open>operator<\<close> does.
\<close>

datatype 'a bst_float = NaN | Num 'a

fun float_less :: "'a::linorder bst_float \<Rightarrow> 'a bst_float \<Rightarrow> bool" where
  "float_less (Num a) (Num b) = (a < b)"
| "float_less _ _ = False"

section \<open>Histogram cuts\<close>

text \<open>
  \<^verbatim>\<open>std::upper_bound\<close> and \<^verbatim>\<open>std::lower_bound\<close> are the same halving loop over
  \<^verbatim>\<open>(first, len)\<close>; they differ in the test that sends the search to the right half.
\<close>

function bsearch :: "(nat \<Rightarrow> bool) \<Rightarrow> nat \<Rightarrow> nat \<Rightarrow> nat" where
  "bsearch go_right first len =
     (if len = 0 then first
      else let half = len div 2; middle = first + half in
        if go_right middle then bsearch go_right (middle + 1) (len - half - 1)
        else bsearch go_right first half)"
  by pat_completeness auto
termination
  by (relation "measure (\<lambda>(g, f, l). l)") auto

declare bsearch.simps [simp del]

definition upper_bound ::
  "'a::linorder bst_float list \<Rightarrow> nat \<Rightarrow> nat \<Rightarrow> 'a bst_float \<Rightarrow> nat" where
  "upper_bound xs first lst v = bsearch (\<lambda>m. \<not> float_less v (xs ! m)) first (lst - first)"

definition lower_bound ::
  "'a::linorder bst_float list \<Rightarrow> nat \<Rightarrow> nat \<Rightarrow> 'a bst_float \<Rightarrow> nat" where
  "lower_bound xs first lst v = bsearch (\<lambda>m. float_less (xs ! m) v) first (lst - first)"

record 'a HistogramCuts =
  cut_values :: "'a bst_float list"
  cut_ptrs :: "32 word list"
  min_vals :: "'a bst_float list"

text \<open>
  \<^verbatim>\<open>SearchBin(float value, uint32_t column_id)\<close>. Both pointers are read with
  \<^verbatim>\<open>at\<close>; \<^verbatim>\<open>column_id + 1\<close> is 32-bit arithmetic. The iterator difference is stored
  in a 32-bit \<^verbatim>\<open>BinIdx\<close>, and \<^verbatim>\<open>idx -= 1\<close> wraps.
\<close>

definition SearchBin ::
  "'a::linorder HistogramCuts \<Rightarrow> 'a bst_float \<Rightarrow> 32 word \<Rightarrow> error + 32 word" where
  "SearchBin cuts v column_id =
     (let ptrs = cut_ptrs cuts; vals = cut_values cuts in
      if length ptrs \<le> unat column_id then Inl OutOfRange
      else if length ptrs \<le> unat (column_id + 1) then Inl OutOfRange
      else
        let beg = ptrs ! unat column_id; fin = ptrs ! unat (column_id + 1) in
        if fin < beg \<or> length vals < unat fin then Inl Undefined
        else
          let it = upper_bound vals (unat beg) (unat fin) v;
              idx = (word_of_nat it :: 32 word)
          in Inr (if idx = fin then idx - 1 else idx))"

record 'a Entry =
  index :: "32 word"
  fvalue :: "'a bst_float"

text \<open>
  \<^verbatim>\<open>SearchCatBin(Entry const &e)\<close>. \<^verbatim>\<open>common::AsCat\<close> is declared in
  \<^verbatim>\<open>categorical.h\<close>; the conversion \<^verbatim>\<open>static_cast<float>(common::AsCat(e.fvalue))\<close>
  is the parameter \<open>as_cat\<close>. \<^verbatim>\<open>ptrs[e.index]\<close> is not checked. \<^verbatim>\<open>bin_idx\<close> is a
  signed 64-bit difference, converted to \<^verbatim>\<open>BinIdx\<close> on return.
\<close>

definition SearchCatBin ::
  "('a::linorder bst_float \<Rightarrow> 'a bst_float) \<Rightarrow> 'a HistogramCuts \<Rightarrow> 'a Entry \<Rightarrow> error + 32 word" where
  "SearchCatBin as_cat cuts e =
     (let ptrs = cut_ptrs cuts; vals = cut_values cuts in
      if length ptrs \<le> unat (index e + 1) then Inl OutOfRange
      else if length ptrs \<le> unat (index e) then Inl Undefined
      else
        let fin = ptrs ! unat (index e + 1); beg = ptrs ! unat (index e) in
        if fin < beg \<or> length vals < unat fin then Inl Undefined
        else
          let v = as_cat (fvalue e);
              bin_idx = int (lower_bound vals (unat beg) (unat fin) v)
          in Inr (word_of_int (if bin_idx = uint fin then bin_idx - 1 else bin_idx)))"

text \<open>
  Modelled from the spec: \<^verbatim>\<open>common::AsCat\<close> of \<^verbatim>\<open>categorical.h\<close>, which is not part of
  the sources at hand. The category of a value is the value truncated to an integer
  ("truncates the value in case it's not perfectly rounded").
\<close>

fun AsCat :: "real bst_float \<Rightarrow> real bst_float" where
  "AsCat (Num x) = Num (of_int (if 0 \<le> x then \<lfloor>x\<rfloor> else \<lceil>x\<rceil>))"
| "AsCat NaN = NaN"

text \<open>The cut set of one feature with the boundaries 2, 5, 9, and one with the categories 1, 3, 7.\<close>

definition cuts_2_5_9 :: "real HistogramCuts" where
  "cuts_2_5_9 = \<lparr>cut_values = [Num 2, Num 5, Num 9], cut_ptrs = [0, 3], min_vals = [Num 1]\<rparr>"

definition cuts_1_3_7 :: "real HistogramCuts" where
  "cuts_1_3_7 = \<lparr>cut_values = [Num 1, Num 3, Num 7], cut_ptrs = [0, 3], min_vals = [Num 1]\<rparr>"

text \<open>A cut set whose second feature has no bins.\<close>

definition cuts_empty_slice :: "real HistogramCuts" where
  "cuts_empty_slice = \<lparr>cut_values = [Num 2, Num 5], cut_ptrs = [0, 2, 2], min_vals = [Num 1, Num 0]\<rparr>"

text \<open>
  The slice \<^verbatim>\<open>[first, lst)\<close> of an array, and the two pointers of a feature as
  \<^verbatim>\<open>SearchBin\<close> and \<^verbatim>\<open>SearchCatBin\<close> read them. A feature is valid when both reads are
  in range and the pointers delimit a slice of \<^verbatim>\<open>cut_values_\<close>.
\<close>

definition cut_slice :: "'a list \<Rightarrow> nat \<Rightarrow> nat \<Rightarrow> 'a list" where
  "cut_slice xs first lst = take (lst - first) (drop first xs)"

definition feature_beg :: "'a HistogramCuts \<Rightarrow> 32 word \<Rightarrow> 32 word" where
  "feature_beg cuts f = cut_ptrs cuts ! unat f"

definition feature_fin :: "'a HistogramCuts \<Rightarrow> 32 word \<Rightarrow> 32 word" where
  "feature_fin cuts f = cut_ptrs cuts ! unat (f + 1)"

definition valid_feature :: "'a HistogramCuts \<Rightarrow> 32 word \<Rightarrow> bool" where
  "valid_feature cuts f \<longleftrightarrow>
     unat f < length (cut_ptrs cuts) \<and> unat (f + 1) < length (cut_ptrs cuts) \<and>
     feature_beg cuts f \<le> feature_fin cuts f \<and>
     unat (feature_fin cuts f) \<le> length (cut_values cuts)"

definition ascending_feature :: "'a::linorder HistogramCuts \<Rightarrow> 32 word \<Rightarrow> bool" where
  "ascending_feature cuts f \<longleftrightarrow>
     sorted_wrt float_less
       (cut_slice (cut_values cuts) (unat (feature_beg cuts f)) (unat (feature_fin cuts f)))"

section \<open>Searching a row of the gradient index\<close>

text \<open>
  \<^verbatim>\<open>BinarySearchBin(size_t begin, size_t end, data, fidx_begin, fidx_end)\<close>. The loop
  state is \<^verbatim>\<open>previous_middle\<close>, \<^verbatim>\<open>begin\<close> and \<^verbatim>\<open>end\<close>, all \<^verbatim>\<open>size_t\<close>; the entries
  of the index are \<^verbatim>\<open>uint32_t\<close>, read without a bounds check; the result is the entry
  converted to \<^verbatim>\<open>int32_t\<close>, or -1.
\<close>

function BinarySearchBin_loop ::
  "64 word \<Rightarrow> 64 word \<Rightarrow> 64 word \<Rightarrow> 32 word list \<Rightarrow> 32 word \<Rightarrow> 32 word \<Rightarrow> error + int" where
  "BinarySearchBin_loop previous_middle beg fin data fidx_begin fidx_end =
     (if fin = beg then Inr (- 1)
      else
        let middle = beg + (fin - beg) div 2 in
        if middle = previous_middle then Inr (- 1)
        else if length data \<le> unat middle then Inl Undefined
        else
          let gidx = data ! unat middle in
          if fidx_begin \<le> gidx \<and> gidx < fidx_end then Inr (sint gidx)
          else if gidx < fidx_begin
            then BinarySearchBin_loop middle middle fin data fidx_begin fidx_end
            else BinarySearchBin_loop middle beg middle data fidx_begin fidx_end)"
  by pat_completeness auto
termination
proof (relation "measure (\<lambda>(p, b, e, d, fb, fe).
          2 * unat (e - b) + (if b + (e - b) div 2 = p then 0 else 1))", goal_cases)
  case 1
  show ?case by simp
next
  case (2 p b e d fb fe m g)
  define w where "w = e - b"
  have w0: "unat w \<noteq> 0" using 2(1) by (simp add: w_def unat_eq_0)
  have half: "unat (w div 2) = unat w div 2" by (simp add: unat_div)
  have "w div 2 \<le> w" by (simp add: word_le_nat_alt half)
  then have rest: "unat (w - w div 2) = unat w - unat w div 2"
    by (simp add: unat_sub half)
  have em: "e - m = w - w div 2" by (simp add: 2(2) w_def)
  have mp: "m \<noteq> p" using 2(3) .
  show ?case
  proof (cases "unat w = 1")
    case True
    then have h0: "w div 2 = 0" using half by (simp add: unat_eq_0[symmetric])
    then have mb: "m = b" using 2(2) by (simp add: w_def)
    have "e - m = w" "(e - m) div 2 = 0" using em h0 by simp_all
    then show ?thesis using mp True mb h0 by (simp add: w_def[symmetric])
  next
    case False
    then have "unat (e - m) < unat w" using w0 em rest by simp
    then show ?thesis using mp by (simp add: 2(2)[symmetric] w_def[symmetric])
  qed
next
  case (3 p b e d fb fe m g)
  define w where "w = e - b"
  have w0: "unat w \<noteq> 0" using 3(1) by (simp add: w_def unat_eq_0)
  have half: "unat (w div 2) = unat w div 2" by (simp add: unat_div)
  have "m - b = w div 2" by (simp add: 3(2) w_def)
  then have "unat (m - b) < unat w" using half w0 by simp
  then show ?case using 3(3) by (simp add: 3(2)[symmetric] w_def[symmetric])
qed

declare BinarySearchBin_loop.simps [simp del]

definition BinarySearchBin ::
  "64 word \<Rightarrow> 64 word \<Rightarrow> 32 word list \<Rightarrow> 32 word \<Rightarrow> 32 word \<Rightarrow> error + int" where
  "BinarySearchBin beg fin data fidx_begin fidx_end =
     BinarySearchBin_loop (- 1) beg fin data fidx_begin fidx_end"

text \<open>A sorted row of four entries.\<close>

definition row_1_3_7_9 :: "32 word list" where
  "row_1_3_7_9 = [1, 3, 7, 9]"

section \<open>The compressed bin index\<close>

text \<open>
  \<^verbatim>\<open>struct Index\<close>: the byte buffer \<^verbatim>\<open>data_\<close>, the offsets \<^verbatim>\<open>offset_\<close>, the element width
  \<^verbatim>\<open>binTypeSize_\<close> (which fixes the decoder \<^verbatim>\<open>func_\<close>), the stride \<^verbatim>\<open>p_\<close>, and the two raw
  pointers. \<open>Index_data_ptr\<close> says that \<^verbatim>\<open>data_ptr_\<close> has been assigned (it has no
  initialiser), \<open>Index_offset_ptr\<close> that \<^verbatim>\<open>offset_ptr_\<close> is not null.
\<close>

datatype BinTypeSize = kUint8BinsTypeSize | kUint16BinsTypeSize | kUint32BinsTypeSize

fun type_size :: "BinTypeSize \<Rightarrow> nat" where
  "type_size kUint8BinsTypeSize = 1"
| "type_size kUint16BinsTypeSize = 2"
| "type_size kUint32BinsTypeSize = 4"

record Index =
  Index_data :: "8 word list"
  Index_offset :: "32 word list"
  Index_data_ptr :: bool
  Index_binTypeSize :: BinTypeSize
  Index_p :: nat
  Index_offset_ptr :: bool

text \<open>
  The three decoders read the buffer through a pointer of their own element type. The
  bytes of an element are taken in little-endian order; no read is checked.
\<close>

definition GetValueFromUint8 :: "8 word list \<Rightarrow> nat \<Rightarrow> error + 32 word" where
  "GetValueFromUint8 t i = (if length t < i + 1 then Inl Undefined else Inr (ucast (t ! i)))"

definition GetValueFromUint16 :: "8 word list \<Rightarrow> nat \<Rightarrow> error + 32 word" where
  "GetValueFromUint16 t i =
     (if length t < 2 * i + 2 then Inl Undefined
      else Inr (ucast (t ! (2 * i)) OR push_bit 8 (ucast (t ! (2 * i + 1)))))"

definition GetValueFromUint32 :: "8 word list \<Rightarrow> nat \<Rightarrow> error + 32 word" where
  "GetValueFromUint32 t i =
     (if length t < 4 * i + 4 then Inl Undefined
      else Inr (ucast (t ! (4 * i)) OR push_bit 8 (ucast (t ! (4 * i + 1)))
                OR push_bit 16 (ucast (t ! (4 * i + 2)))
                OR push_bit 24 (ucast (t ! (4 * i + 3)))))"

text \<open>\<^verbatim>\<open>func_(data_ptr_, i)\<close>, with \<^verbatim>\<open>func_\<close> as \<^verbatim>\<open>SetBinTypeSize\<close> chose it.\<close>

definition Index_func :: "Index \<Rightarrow> nat \<Rightarrow> error + 32 word" where
  "Index_func idx i =
     (if \<not> Index_data_ptr idx then Inl Undefined
      else case Index_binTypeSize idx of
        kUint8BinsTypeSize \<Rightarrow> GetValueFromUint8 (Index_data idx) i
      | kUint16BinsTypeSize \<Rightarrow> GetValueFromUint16 (Index_data idx) i
      | kUint32BinsTypeSize \<Rightarrow> GetValueFromUint32 (Index_data idx) i)"

text \<open>\<^verbatim>\<open>Index::operator[]\<close>: the sum is 32-bit; \<^verbatim>\<open>i % p_\<close> with \<^verbatim>\<open>p_ = 0\<close> is undefined.\<close>

definition Index_at :: "Index \<Rightarrow> nat \<Rightarrow> error + 32 word" where
  "Index_at idx i =
     (if Index_offset_ptr idx then
        (case Index_func idx i of
           Inl e \<Rightarrow> Inl e
         | Inr raw \<Rightarrow>
             if Index_p idx = 0 then Inl Undefined
             else if length (Index_offset idx) \<le> i mod Index_p idx then Inl Undefined
             else Inr (raw + Index_offset idx ! (i mod Index_p idx)))
      else Index_func idx i)"

definition SetBinTypeSize :: "BinTypeSize \<Rightarrow> Index \<Rightarrow> Index" where
  "SetBinTypeSize binTypeSize idx = idx\<lparr>Index_binTypeSize := binTypeSize\<rparr>"

text \<open>The default constructor, with the default member initialisers.\<close>

definition Index_new :: Index where
  "Index_new = SetBinTypeSize kUint8BinsTypeSize
     \<lparr>Index_data = [], Index_offset = [], Index_data_ptr = False,
      Index_binTypeSize = kUint8BinsTypeSize, Index_p = 1, Index_offset_ptr = False\<rparr>"

definition Size :: "Index \<Rightarrow> nat" where
  "Size idx = length (Index_data idx) div type_size (Index_binTypeSize idx)"

definition OffsetSize :: "Index \<Rightarrow> nat" where
  "OffsetSize idx = length (Index_offset idx)"

text \<open>
  \<^verbatim>\<open>std::vector::resize(n)\<close> and \<^verbatim>\<open>resize(n, x)\<close>: the first \<open>n\<close> elements are kept, new
  ones are \<open>x\<close>. A size beyond \<^verbatim>\<open>max_size()\<close> throws \<^verbatim>\<open>std::length_error\<close>; for a 64-bit
  target \<^verbatim>\<open>max_size()\<close> is \<^verbatim>\<open>PTRDIFF_MAX / sizeof(T)\<close>.
\<close>

definition vector_resize :: "nat \<Rightarrow> 'a \<Rightarrow> 'a list \<Rightarrow> 'a list" where
  "vector_resize n x xs = take n xs @ replicate (n - length xs) x"

definition max_size :: "nat \<Rightarrow> nat" where
  "max_size elem_bytes = (2 ^ 63 - 1) div elem_bytes"

text \<open>
  \<^verbatim>\<open>Index::Resize\<close> and \<^verbatim>\<open>Index::ResizeOffset\<close>. \<^verbatim>\<open>offset_.data()\<close> is null exactly as long
  as the vector never had an element.
\<close>

definition Resize :: "nat \<Rightarrow> Index \<Rightarrow> error + Index" where
  "Resize nBytesData idx =
     (if max_size 1 < nBytesData then Inl LengthError
      else Inr (idx\<lparr>Index_data := vector_resize nBytesData 0 (Index_data idx),
                    Index_data_ptr := True\<rparr>))"

definition ResizeOffset :: "nat \<Rightarrow> Index \<Rightarrow> error + Index" where
  "ResizeOffset nDisps idx =
     (if max_size 4 < nDisps then Inl LengthError
      else Inr (idx\<lparr>Index_offset := vector_resize nDisps 0 (Index_offset idx),
                    Index_offset_ptr := (Index_offset_ptr idx \<or> 0 < nDisps),
                    Index_p := nDisps\<rparr>))"

text \<open>
  The callers fill the buffer through \<^verbatim>\<open>data<T>()\<close>, with \<^verbatim>\<open>T\<close> the element type of the
  width \<^verbatim>\<open>GetBinTypeSize()\<close>: the assignment \<^verbatim>\<open>index.data<T>()[i] = static_cast<T>(v)\<close>.
\<close>

definition store_bin :: "nat \<Rightarrow> 32 word \<Rightarrow> Index \<Rightarrow> error + Index" where
  "store_bin i v idx =
     (let t = Index_data idx in
      if \<not> Index_data_ptr idx then Inl Undefined
      else case Index_binTypeSize idx of
        kUint8BinsTypeSize \<Rightarrow>
          if length t < i + 1 then Inl Undefined
          else Inr (idx\<lparr>Index_data := t[i := ucast v]\<rparr>)
      | kUint16BinsTypeSize \<Rightarrow>
          if length t < 2 * i + 2 then Inl Undefined
          else Inr (idx\<lparr>Index_data := t[2 * i := ucast v, 2 * i + 1 := ucast (drop_bit 8 v)]\<rparr>)
      | kUint32BinsTypeSize \<Rightarrow>
          if length t < 4 * i + 4 then Inl Undefined
          else Inr (idx\<lparr>Index_data :=
                 t[4 * i := ucast v, 4 * i + 1 := ucast (drop_bit 8 v),
                   4 * i + 2 := ucast (drop_bit 16 v), 4 * i + 3 := ucast (drop_bit 24 v)]\<rparr>))"

text \<open>A 16-bit index of four elements with two offsets.\<close>

definition index_16 :: Index where
  "index_16 = \<lparr>Index_data = [0, 0, 0, 0, 0, 0, 0, 0], Index_offset = [100, 200],
     Index_data_ptr = True, Index_binTypeSize = kUint16BinsTypeSize, Index_p = 2,
     Index_offset_ptr = True\<rparr>"

section \<open>Gradient pairs and their sums\<close>

text \<open>
  Modelled from the spec: \<^verbatim>\<open>GradientPairInternal<T>\<close>, the element of a histogram, which
  \<^verbatim>\<open>hist_util.h\<close> uses and another header defines: a gradient and a hessian of the floating
  type \<^verbatim>\<open>T\<close>, added component by component. The histogram code is generic in \<^verbatim>\<open>T\<close> and
  uses only the addition and the zero of the pairs.
\<close>

datatype 'a GradientPairInternal = GradientPairInternal (GetGrad: 'a) (GetHess: 'a)

instantiation GradientPairInternal :: (plus) plus
begin

definition plus_GradientPairInternal ::
  "'a GradientPairInternal \<Rightarrow> 'a GradientPairInternal \<Rightarrow> 'a GradientPairInternal" where
  "a + b = GradientPairInternal (GetGrad a + GetGrad b) (GetHess a + GetHess b)"

instance ..

end

instantiation GradientPairInternal :: (zero) zero
begin

definition zero_GradientPairInternal :: "'a GradientPairInternal" where
  "0 = GradientPairInternal 0 0"

instance ..

end

instance GradientPairInternal :: (comm_monoid_add) comm_monoid_add
proof
  fix a b c :: "'a GradientPairInternal"
  show "a + b + c = a + (b + c)" by (simp add: plus_GradientPairInternal_def add.assoc)
  show "a + b = b + a" by (simp add: plus_GradientPairInternal_def add.commute)
  show "0 + a = a" by (simp add: plus_GradientPairInternal_def zero_GradientPairInternal_def)
qed

text \<open>
  Modelled from the spec: the floating type of the sums ("gradient and hessian sums
  accumulate in a wider or equal-precision floating type", with rounding that depends on
  the order), taken as \<^verbatim>\<open>double\<close>, IEEE 754 binary64 with round to nearest, ties to even.
  The values are the doubles that are whole numbers, the two infinities (\<open>Infinite True\<close>
  is the negative one) and NaN; the two zeros are one value. \<open>Finite k\<close> is a double when
  \<open>k\<close> has at most 53 significant bits and a magnitude below \<open>2 ^ 1024\<close>, as every whole
  number of magnitude up to \<open>2 ^ 53\<close> has. These values are closed under addition. The sum
  of two whole numbers is their exact sum rounded to 53 significant bits:
  \<open>round_even p m\<close> keeps the \<open>p\<close> leading bits of \<open>m\<close> and rounds on the rest, to the even
  neighbour on a tie; a rounded sum of magnitude \<open>2 ^ 1024\<close> or more is an infinity.
\<close>

datatype double = Finite int | Infinite bool | Nan

fun bit_length :: "nat \<Rightarrow> nat" where
  "bit_length n = (if n = 0 then 0 else Suc (bit_length (n div 2)))"

declare bit_length.simps [simp del]

definition round_even :: "nat \<Rightarrow> nat \<Rightarrow> nat" where
  "round_even p m =
     (let e = bit_length m - p; q = m div 2 ^ e; r = m mod 2 ^ e in
      if 2 * r < 2 ^ e \<or> (2 * r = 2 ^ e \<and> even q) then q * 2 ^ e else (q + 1) * 2 ^ e)"

definition round_double :: "int \<Rightarrow> double" where
  "round_double z =
     (let m = round_even 53 (nat \<bar>z\<bar>) in
      if 2 ^ 1024 \<le> m then Infinite (z < 0)
      else Finite (if z < 0 then - int m else int m))"

fun double_add :: "double \<Rightarrow> double \<Rightarrow> double" where
  "double_add (Finite a) (Finite b) = round_double (a + b)"
| "double_add (Finite a) (Infinite s) = Infinite s"
| "double_add (Infinite s) (Finite b) = Infinite s"
| "double_add (Infinite s) (Infinite t) = (if s = t then Infinite s else Nan)"
| "double_add Nan b = Nan"
| "double_add a Nan = Nan"

instantiation double :: plus
begin

definition plus_double :: "double \<Rightarrow> double \<Rightarrow> double" where
  "a + b = double_add a b"

instance ..

end

instantiation double :: zero
begin

definition zero_double :: double where
  "0 = Finite 0"

instance ..

end

section \<open>Histograms and the histogram collection\<close>

text \<open>
  A histogram is the array behind a \<^verbatim>\<open>GHistRow\<close> span; its elements are of any type \<open>'g\<close>
  with an addition and a zero, as the code is a template over the type of the sums.

  Sequencing of operations that can fail, and a loop whose body can fail.
\<close>

definition ebind :: "error + 'a \<Rightarrow> ('a \<Rightarrow> error + 'b) \<Rightarrow> error + 'b" where
  "ebind m f = (case m of Inl e \<Rightarrow> Inl e | Inr x \<Rightarrow> f x)"

fun fold_err :: "('a \<Rightarrow> 's \<Rightarrow> error + 's) \<Rightarrow> 'a list \<Rightarrow> 's \<Rightarrow> error + 's" where
  "fold_err f [] s = Inr s"
| "fold_err f (x # xs) s = (case f x s of Inl e \<Rightarrow> Inl e | Inr s' \<Rightarrow> fold_err f xs s')"

text \<open>
  Modelled from the spec: \<^verbatim>\<open>InitilizeHistByZeroes\<close> and \<^verbatim>\<open>IncrementHist\<close>, which
  \<^verbatim>\<open>hist_util.h\<close> only declares ("fill a histogram by zeros", "Increment hist as dst += add
  in range [begin, end)"). Neither checks the range against the size of the span. The
  increment adds bin by bin with the addition of the type of the sums.
\<close>

definition InitilizeHistByZeroes ::
  "'g::{plus,zero} list \<Rightarrow> nat \<Rightarrow> nat \<Rightarrow> error + 'g list" where
  "InitilizeHistByZeroes hist beg fin =
     (if fin < beg \<or> length hist < fin then Inl Undefined
      else Inr (map (\<lambda>i. if beg \<le> i \<and> i < fin then 0 else hist ! i) [0..<length hist]))"

definition IncrementHist ::
  "'g::{plus,zero} list \<Rightarrow> 'g list \<Rightarrow> nat \<Rightarrow> nat \<Rightarrow> error + 'g list" where
  "IncrementHist dst add beg fin =
     (if fin < beg \<or> length dst < fin \<or> length add < fin then Inl Undefined
      else Inr (map (\<lambda>i. if beg \<le> i \<and> i < fin then dst ! i + add ! i else dst ! i)
                  [0..<length dst]))"

text \<open>
  \<^verbatim>\<open>class HistCollection\<close>. \<^verbatim>\<open>nbins_\<close> and \<^verbatim>\<open>n_nodes_added_\<close> are \<^verbatim>\<open>uint32_t\<close>; a node id
  is a \<^verbatim>\<open>bst_uint\<close>, a natural number below \<open>2 ^ 32\<close>, and \<^verbatim>\<open>nid + 1\<close> wraps.
\<close>

record 'g HistCollection =
  hc_nbins :: nat
  hc_n_nodes_added :: nat
  hc_contiguous_allocation :: bool
  hc_data :: "'g list list"
  hc_row_ptr :: "nat list"

definition kMax :: nat where
  "kMax = 2 ^ 32 - 1"

definition HistCollection_new :: "'g HistCollection" where
  "HistCollection_new = \<lparr>hc_nbins = 0, hc_n_nodes_added = 0, hc_contiguous_allocation = False,
     hc_data = [], hc_row_ptr = []\<rparr>"

text \<open>
  \<^verbatim>\<open>operator[]\<close>: the span it returns starts at an offset of one of the vectors of
  \<^verbatim>\<open>data_\<close> and has \<^verbatim>\<open>nbins_\<close> elements. The result is the vector and the offset.
\<close>

definition HistCollection_at :: "nat \<Rightarrow> 'g HistCollection \<Rightarrow> error + nat \<times> nat" where
  "HistCollection_at nid hc =
     (if length (hc_row_ptr hc) \<le> nid then Inl OutOfRange
      else
        let id = hc_row_ptr hc ! nid in
        if id = kMax then Inl CheckFailed
        else if hc_contiguous_allocation hc then
          (if hc_data hc = [] then Inl Undefined else Inr (0, hc_nbins hc * id))
        else
          (if length (hc_data hc) \<le> id then Inl Undefined else Inr (id, 0)))"

definition RowExists :: "nat \<Rightarrow> 'g HistCollection \<Rightarrow> bool" where
  "RowExists nid hc \<longleftrightarrow> nid < length (hc_row_ptr hc) \<and> hc_row_ptr hc ! nid \<noteq> kMax"

definition HistCollection_Init :: "nat \<Rightarrow> 'g HistCollection \<Rightarrow> 'g HistCollection" where
  "HistCollection_Init nbins hc =
     (let hc1 = (if hc_nbins hc \<noteq> nbins then hc\<lparr>hc_nbins := nbins, hc_data := []\<rparr> else hc)
      in hc1\<lparr>hc_row_ptr := [], hc_n_nodes_added := 0\<rparr>)"

definition AddHistRow :: "nat \<Rightarrow> 'g HistCollection \<Rightarrow> error + 'g HistCollection" where
  "AddHistRow nid hc =
     (let row_ptr1 = (if length (hc_row_ptr hc) \<le> nid
                      then vector_resize ((nid + 1) mod 2 ^ 32) kMax (hc_row_ptr hc)
                      else hc_row_ptr hc)
      in
      if length row_ptr1 \<le> nid then Inl Undefined
      else if row_ptr1 ! nid \<noteq> kMax then Inl CheckFailed
      else
        let data1 = (if length (hc_data hc) < (nid + 1) mod 2 ^ 32
                     then vector_resize ((nid + 1) mod 2 ^ 32) [] (hc_data hc)
                     else hc_data hc)
        in Inr (hc\<lparr>hc_data := data1,
                     hc_row_ptr := row_ptr1[nid := hc_n_nodes_added hc],
                     hc_n_nodes_added := (hc_n_nodes_added hc + 1) mod 2 ^ 32\<rparr>))"

definition AllocateData ::
  "nat \<Rightarrow> 'g::{plus,zero} HistCollection \<Rightarrow> error + 'g HistCollection" where
  "AllocateData nid hc =
     (if length (hc_row_ptr hc) \<le> nid then Inl Undefined
      else
        let id = hc_row_ptr hc ! nid in
        if length (hc_data hc) \<le> id then Inl Undefined
        else if length (hc_data hc ! id) = 0
          then Inr (hc\<lparr>hc_data := (hc_data hc)[id := vector_resize (hc_nbins hc) 0 (hc_data hc ! id)]\<rparr>)
          else Inr hc)"

definition AllocateAllData ::
  "'g::{plus,zero} HistCollection \<Rightarrow> error + 'g HistCollection" where
  "AllocateAllData hc =
     (let new_size = hc_nbins hc * length (hc_data hc) in
      if hc_data hc = [] then Inl Undefined
      else if length (hc_data hc ! 0) \<noteq> new_size
        then Inr (hc\<lparr>hc_contiguous_allocation := True,
                      hc_data := (hc_data hc)[0 := vector_resize new_size 0 (hc_data hc ! 0)]\<rparr>)
        else Inr (hc\<lparr>hc_contiguous_allocation := True\<rparr>))"

text \<open>The operations on a collection between two calls of \<^verbatim>\<open>Init\<close>.\<close>

datatype hc_op = OpAddHistRow nat | OpAllocateData nat | OpAllocateAllData

fun hc_apply :: "hc_op \<Rightarrow> 'g::{plus,zero} HistCollection \<Rightarrow> error + 'g HistCollection" where
  "hc_apply (OpAddHistRow nid) hc = AddHistRow nid hc"
| "hc_apply (OpAllocateData nid) hc = AllocateData nid hc"
| "hc_apply OpAllocateAllData hc = AllocateAllData hc"

text \<open>A collection of three bins with node 0 added and allocated.\<close>

definition hc_one_row :: "int HistCollection" where
  "hc_one_row = \<lparr>hc_nbins = 3, hc_n_nodes_added = 1, hc_contiguous_allocation = False,
     hc_data = [[0, 0, 0]], hc_row_ptr = [0]\<rparr>"

section \<open>The parallel histogram builder\<close>

text \<open>
  A \<^verbatim>\<open>GHistRowT\<close> held by the builder is a span over the target histogram of a node, which
  the caller owns, or over a vector of \<^verbatim>\<open>hist_buffer_\<close> at an offset. Two spans start at the
  same address exactly when they are the same value of this type.
\<close>

datatype GHistRow = Target nat | Buffer nat nat

text \<open>
  \<^verbatim>\<open>class ParallelGHistBuilder\<close>. \<open>pb_targeted_hists\<close> is the memory behind the spans of
  \<^verbatim>\<open>targeted_hists_\<close>, one array per node. Thread and node counts are \<^verbatim>\<open>size_t\<close>; they are
  natural numbers here, and the conversions to \<^verbatim>\<open>int\<close>, \<^verbatim>\<open>bst_uint\<close> and \<^verbatim>\<open>uint32_t\<close> at the
  calls are written out.
\<close>

record 'g ParallelGHistBuilder =
  pb_nbins :: nat
  pb_nthreads :: nat
  pb_nodes :: nat
  pb_hist_buffer :: "'g HistCollection"
  pb_hist_was_used :: "bool list"
  pb_threads_to_nids_map :: "bool list"
  pb_targeted_hists :: "'g list list"
  pb_tid_nid_to_hist :: "nat \<times> nat \<Rightarrow> int option"

definition size_to_int :: "nat \<Rightarrow> int" where
  "size_to_int k = sint (word_of_nat k :: 32 word)"

definition int_to_bst_uint :: "int \<Rightarrow> nat" where
  "int_to_bst_uint i = nat (i mod 2 ^ 32)"

definition ParallelGHistBuilder_new :: "'g ParallelGHistBuilder" where
  "ParallelGHistBuilder_new = \<lparr>pb_nbins = 0, pb_nthreads = 0, pb_nodes = 0,
     pb_hist_buffer = HistCollection_new, pb_hist_was_used = [], pb_threads_to_nids_map = [],
     pb_targeted_hists = [], pb_tid_nid_to_hist = Map.empty\<rparr>"

definition ParallelGHistBuilder_Init ::
  "nat \<Rightarrow> 'g ParallelGHistBuilder \<Rightarrow> 'g ParallelGHistBuilder" where
  "ParallelGHistBuilder_Init nbins pb =
     (if nbins \<noteq> pb_nbins pb
      then pb\<lparr>pb_hist_buffer := HistCollection_Init (nbins mod 2 ^ 32) (pb_hist_buffer pb),
               pb_nbins := nbins\<rparr>
      else pb)"

text \<open>
  Modelled from the spec: \<^verbatim>\<open>BlockedSpace2d\<close> of \<^verbatim>\<open>threading_utils.h\<close>, the "work-space
  descriptor enumerating, for each unit of parallel work, which node it belongs to". A
  unit of work is its node (the first dimension) and the rows of the node it covers.
\<close>

type_synonym BlockedSpace2d = "(nat \<times> nat list) list"

definition GetFirstDimension :: "BlockedSpace2d \<Rightarrow> nat \<Rightarrow> error + nat" where
  "GetFirstDimension space i =
     (if i < length space then Inr (fst (space ! i)) else Inl CheckFailed)"

definition chunck_size :: "nat \<Rightarrow> nat \<Rightarrow> nat" where
  "chunck_size space_size nthreads =
     space_size div nthreads + (if space_size mod nthreads \<noteq> 0 then 1 else 0)"

text \<open>\<^verbatim>\<open>MatchThreadsToNodes\<close>; \<open>mark_nids\<close> is its inner loop over the nodes of one thread.\<close>

definition mark_nids :: "nat \<Rightarrow> nat \<Rightarrow> nat \<Rightarrow> nat \<Rightarrow> bool list \<Rightarrow> error + bool list" where
  "mark_nids tid nodes nid_begin nid_end m =
     fold_err (\<lambda>nid m. if tid * nodes + nid < length m
                        then Inr (m[tid * nodes + nid := True]) else Inl Undefined)
       [nid_begin..<Suc nid_end] m"

definition MatchThreadsToNodes ::
  "BlockedSpace2d \<Rightarrow> 'g ParallelGHistBuilder \<Rightarrow> error + 'g ParallelGHistBuilder" where
  "MatchThreadsToNodes space pb =
     (if pb_nthreads pb = 0 then Inl Undefined
      else
        let space_size = length space;
            cs = chunck_size space_size (pb_nthreads pb);
            m0 = vector_resize (pb_nthreads pb * pb_nodes pb) False (pb_threads_to_nids_map pb)
        in ebind
          (fold_err
            (\<lambda>tid m.
               let beg = cs * tid; fin = min (beg + cs) space_size in
               if beg < space_size then
                 ebind (GetFirstDimension space beg) (\<lambda>nid_begin.
                 ebind (GetFirstDimension space (fin - 1)) (\<lambda>nid_end.
                   mark_nids tid (pb_nodes pb) nid_begin nid_end m))
               else Inr m)
            [0..<pb_nthreads pb] m0)
          (\<lambda>m. Inr (pb\<lparr>pb_threads_to_nids_map := m\<rparr>)))"

text \<open>\<^verbatim>\<open>AllocateAdditionalHistograms\<close>; the map is read without a bounds check.\<close>

definition nthreads_for_nid :: "bool list \<Rightarrow> nat \<Rightarrow> nat \<Rightarrow> nat \<Rightarrow> int" where
  "nthreads_for_nid m nthreads nodes nid =
     fold (\<lambda>tid c. if m ! (tid * nodes + nid) then c + 1 else c) [0..<nthreads] 0"

definition AllocateAdditionalHistograms ::
  "'g ParallelGHistBuilder \<Rightarrow> error + 'g ParallelGHistBuilder" where
  "AllocateAdditionalHistograms pb =
     (let m = pb_threads_to_nids_map pb in
      if length m < pb_nthreads pb * pb_nodes pb then Inl Undefined
      else
        let hist_allocated_additionally =
              fold (\<lambda>nid k. k + nat (max 0 (nthreads_for_nid m (pb_nthreads pb) (pb_nodes pb) nid - 1)))
                [0..<pb_nodes pb] 0
        in ebind
          (fold_err (\<lambda>i hc. AddHistRow (i mod 2 ^ 32) hc) [0..<hist_allocated_additionally]
             (pb_hist_buffer pb))
          (\<lambda>hc. Inr (pb\<lparr>pb_hist_buffer := hc\<rparr>)))"

text \<open>\<^verbatim>\<open>MatchNodeNidPairToHist\<close>; \<open>match_node\<close> is its inner loop over the threads of one node.\<close>

definition match_node ::
  "bool list \<Rightarrow> nat \<Rightarrow> nat \<Rightarrow> nat \<Rightarrow> (nat \<times> nat \<Rightarrow> int option) \<times> nat \<Rightarrow>
   (nat \<times> nat \<Rightarrow> int option) \<times> nat" where
  "match_node m nthreads nodes nid s =
     (case fold
        (\<lambda>tid (mp, k, first_hist).
           if m ! (tid * nodes + nid) then
             (if first_hist then (mp((tid, nid) \<mapsto> - 1), k, False)
              else (mp((tid, nid) \<mapsto> size_to_int k), k + 1, False))
           else (mp, k, first_hist))
        [0..<nthreads] (fst s, snd s, True)
      of (mp, k, first_hist) \<Rightarrow> (mp, k))"

definition MatchNodeNidPairToHist ::
  "'g ParallelGHistBuilder \<Rightarrow> error + 'g ParallelGHistBuilder" where
  "MatchNodeNidPairToHist pb =
     (let m = pb_threads_to_nids_map pb in
      if length m < pb_nthreads pb * pb_nodes pb then Inl Undefined
      else Inr (pb\<lparr>pb_tid_nid_to_hist :=
             fst (fold (match_node m (pb_nthreads pb) (pb_nodes pb)) [0..<pb_nodes pb]
                    (pb_tid_nid_to_hist pb, 0))\<rparr>))"

text \<open>\<^verbatim>\<open>Reset\<close>. The space is read through \<^verbatim>\<open>Size\<close> and \<^verbatim>\<open>GetFirstDimension\<close> only.\<close>

definition Reset ::
  "nat \<Rightarrow> nat \<Rightarrow> BlockedSpace2d \<Rightarrow> 'g list list \<Rightarrow> 'g ParallelGHistBuilder \<Rightarrow>
   error + 'g ParallelGHistBuilder" where
  "Reset nthreads nodes space targeted_hists pb =
     (let pb1 = pb\<lparr>pb_hist_buffer := HistCollection_Init (pb_nbins pb mod 2 ^ 32) (pb_hist_buffer pb),
                    pb_tid_nid_to_hist := Map.empty,
                    pb_threads_to_nids_map := [],
                    pb_targeted_hists := targeted_hists\<rparr>
      in
      if nodes \<noteq> length targeted_hists then Inl CheckFailed
      else
        ebind (MatchThreadsToNodes space (pb1\<lparr>pb_nodes := nodes, pb_nthreads := nthreads\<rparr>)) (\<lambda>pb2.
        ebind (AllocateAdditionalHistograms pb2) (\<lambda>pb3.
        ebind (MatchNodeNidPairToHist pb3) (\<lambda>pb4.
          Inr (pb4\<lparr>pb_hist_was_used := replicate (nthreads * pb_nodes pb4) False\<rparr>)))))"

text \<open>Reading and writing the array behind a span.\<close>

definition read_hist :: "'g ParallelGHistBuilder \<Rightarrow> GHistRow \<Rightarrow> error + 'g list" where
  "read_hist pb hist =
     (case hist of
        Target nid \<Rightarrow>
          if nid < length (pb_targeted_hists pb) then Inr (pb_targeted_hists pb ! nid)
          else Inl Undefined
      | Buffer v off \<Rightarrow>
          let hc = pb_hist_buffer pb in
          if v < length (hc_data hc) \<and> off + hc_nbins hc \<le> length (hc_data hc ! v)
          then Inr (take (hc_nbins hc) (drop off (hc_data hc ! v)))
          else Inl Undefined)"

definition write_hist ::
  "'g ParallelGHistBuilder \<Rightarrow> GHistRow \<Rightarrow> 'g list \<Rightarrow> 'g ParallelGHistBuilder" where
  "write_hist pb hist h =
     (case hist of
        Target nid \<Rightarrow> pb\<lparr>pb_targeted_hists := (pb_targeted_hists pb)[nid := h]\<rparr>
      | Buffer v off \<Rightarrow>
          let hc = pb_hist_buffer pb; vec = hc_data hc ! v in
          pb\<lparr>pb_hist_buffer :=
               hc\<lparr>hc_data := (hc_data hc)[v := take off vec @ h @ drop (off + hc_nbins hc) vec]\<rparr>\<rparr>)"

text \<open>The span \<^verbatim>\<open>idx == -1 ? targeted_hists_[nid] : hist_buffer_[idx]\<close>.\<close>

definition hist_of_idx ::
  "'g ParallelGHistBuilder \<Rightarrow> 'g HistCollection \<Rightarrow> nat \<Rightarrow> int \<Rightarrow> error + GHistRow" where
  "hist_of_idx pb hc nid idx =
     (if idx = - 1 then
        (if nid < length (pb_targeted_hists pb) then Inr (Target nid) else Inl Undefined)
      else ebind (HistCollection_at (int_to_bst_uint idx) hc) (\<lambda>(v, off). Inr (Buffer v off)))"

definition GetInitializedHist ::
  "nat \<Rightarrow> nat \<Rightarrow> 'g::{plus,zero} ParallelGHistBuilder \<Rightarrow>
   error + 'g ParallelGHistBuilder \<times> GHistRow" where
  "GetInitializedHist tid nid pb =
     (if \<not> nid < pb_nodes pb then Inl CheckFailed
      else if \<not> tid < pb_nthreads pb then Inl CheckFailed
      else case pb_tid_nid_to_hist pb (tid, nid) of
        None \<Rightarrow> Inl OutOfRange
      | Some idx \<Rightarrow>
          ebind (if 0 \<le> idx then AllocateData (int_to_bst_uint idx) (pb_hist_buffer pb)
                 else Inr (pb_hist_buffer pb)) (\<lambda>hc.
          ebind (hist_of_idx pb hc nid idx) (\<lambda>hist.
            let pb1 = pb\<lparr>pb_hist_buffer := hc\<rparr>; u = tid * pb_nodes pb + nid in
            if length (pb_hist_was_used pb1) \<le> u then Inl Undefined
            else if \<not> pb_hist_was_used pb1 ! u then
              ebind (read_hist pb1 hist) (\<lambda>h.
              ebind (InitilizeHistByZeroes h 0 (length h)) (\<lambda>z.
                Inr ((write_hist pb1 hist z)\<lparr>pb_hist_was_used := (pb_hist_was_used pb1)[u := True]\<rparr>,
                     hist)))
            else Inr (pb1, hist))))"

text \<open>\<^verbatim>\<open>ReduceHist\<close>; \<open>reduce_tid\<close> is the body of its loop over the threads.\<close>

definition reduce_tid ::
  "nat \<Rightarrow> nat \<Rightarrow> nat \<Rightarrow> nat \<Rightarrow> 'g::{plus,zero} ParallelGHistBuilder \<times> bool \<Rightarrow>
   error + 'g ParallelGHistBuilder \<times> bool" where
  "reduce_tid nid beg fin tid s =
     (let pb = fst s; u = tid * pb_nodes pb + nid in
      if length (pb_hist_was_used pb) \<le> u then Inl Undefined
      else if pb_hist_was_used pb ! u then
        (case pb_tid_nid_to_hist pb (tid, nid) of
           None \<Rightarrow> Inl OutOfRange
         | Some idx \<Rightarrow>
             ebind (hist_of_idx pb (pb_hist_buffer pb) nid idx) (\<lambda>src.
               if src \<noteq> Target nid then
                 ebind (read_hist pb (Target nid)) (\<lambda>d.
                 ebind (read_hist pb src) (\<lambda>a.
                 ebind (IncrementHist d a beg fin) (\<lambda>d'.
                   Inr (write_hist pb (Target nid) d', True))))
               else Inr (pb, True)))
      else Inr s)"

definition ReduceHist ::
  "nat \<Rightarrow> nat \<Rightarrow> nat \<Rightarrow> 'g::{plus,zero} ParallelGHistBuilder \<Rightarrow>
   error + 'g ParallelGHistBuilder" where
  "ReduceHist nid beg fin pb =
     (if \<not> beg < fin then Inl CheckFailed
      else if \<not> nid < pb_nodes pb then Inl CheckFailed
      else if length (pb_targeted_hists pb) \<le> nid then Inl Undefined
      else
        ebind (fold_err (reduce_tid nid beg fin) [0..<pb_nthreads pb] (pb, False)) (\<lambda>s.
          if \<not> snd s then
            ebind (read_hist (fst s) (Target nid)) (\<lambda>d.
            ebind (InitilizeHistByZeroes d beg fin) (\<lambda>z.
              Inr (write_hist (fst s) (Target nid) z)))
          else Inr (fst s)))"

section \<open>A build pass\<close>

text \<open>
  Modelled from the spec: \<^verbatim>\<open>GHistBuilder::BuildHist\<close>, which \<^verbatim>\<open>hist_util.h\<close> only declares,
  and the \<^verbatim>\<open>GHistIndexMatrix\<close> it reads. The kernel accumulates "each listed row's gradient
  pair into the bin(s) its nonzero entries map to", in the order of the row indices. The
  bin index matrix is, for each row, the list of the global bin ids of its entries.
  Every addition is the addition of the type of the sums, one row after the other, so
  with floating-point sums each of them rounds. The gradient pairs are given in the type
  of the sums; the conversion from the type they are stored in is exact.
  Nothing is checked: a row or a bin out of range is undefined behaviour.
\<close>

definition BuildHist ::
  "'g::{plus,zero} list \<Rightarrow> nat list \<Rightarrow> nat list list \<Rightarrow> 'g list \<Rightarrow> error + 'g list" where
  "BuildHist gpair row_indices gmat hist =
     (if list_all (\<lambda>r. r < length gpair \<and> r < length gmat \<and>
                       list_all (\<lambda>b. b < length hist) (gmat ! r)) row_indices
      then Inr (fold (\<lambda>r h. fold (\<lambda>b h. h[b := h ! b + gpair ! r]) (gmat ! r) h) row_indices hist)
      else Inl Undefined)"

text \<open>
  Modelled from the spec: \<^verbatim>\<open>ParallelFor2d\<close> of \<^verbatim>\<open>threading_utils.h\<close>. The work space is
  divided "into contiguous chunks, one per thread", by the chunk size that
  \<^verbatim>\<open>MatchThreadsToNodes\<close> computes; a thread calls \<^verbatim>\<open>GetInitializedHist\<close> for the node of each
  unit of its chunk, in increasing order, and runs the kernel on the rows of the unit. The
  threads share no histogram, so a run of the parallel loop is the units taken one at a
  time, in an order \<open>order\<close> in which the units of each thread are increasing.
\<close>

definition thread_of_unit :: "nat \<Rightarrow> nat \<Rightarrow> nat \<Rightarrow> nat" where
  "thread_of_unit space_size nthreads i = i div chunck_size space_size nthreads"

definition build_unit ::
  "'g::{plus,zero} list \<Rightarrow> nat list list \<Rightarrow> BlockedSpace2d \<Rightarrow> nat \<Rightarrow> nat \<Rightarrow>
   'g ParallelGHistBuilder \<Rightarrow> error + 'g ParallelGHistBuilder" where
  "build_unit gpair gmat space nthreads i pb =
     (if \<not> i < length space then Inl CheckFailed
      else
        let nid = fst (space ! i); row_indices = snd (space ! i);
            tid = thread_of_unit (length space) nthreads i
        in ebind (GetInitializedHist tid nid pb) (\<lambda>(pb1, hist).
           ebind (read_hist pb1 hist) (\<lambda>h.
           ebind (BuildHist gpair row_indices gmat h) (\<lambda>h'.
             Inr (write_hist pb1 hist h')))))"

text \<open>
  A full pass: \<^verbatim>\<open>Reset\<close>, the parallel loop over the units in the order \<open>order\<close>, and
  \<^verbatim>\<open>ReduceHist(nid, 0, nbins)\<close> for every node.
\<close>

definition build_pass ::
  "nat \<Rightarrow> nat \<Rightarrow> BlockedSpace2d \<Rightarrow> 'g::{plus,zero} list list \<Rightarrow> 'g list \<Rightarrow> nat list list \<Rightarrow>
   nat list \<Rightarrow> 'g ParallelGHistBuilder \<Rightarrow> error + 'g ParallelGHistBuilder" where
  "build_pass nthreads nodes space targeted_hists gpair gmat order pb =
     ebind (Reset nthreads nodes space targeted_hists pb) (\<lambda>pb1.
     ebind (fold_err (build_unit gpair gmat space nthreads) order pb1) (\<lambda>pb2.
       fold_err (\<lambda>nid. ReduceHist nid 0 (pb_nbins pb2)) [0..<nodes] pb2))"

text \<open>
  The serial sum: a histogram of zeros to which the rows of a list are added one after
  the other, in the order of the list, each to the bins of its entries. This is what the
  kernel computes on one thread from a cleared histogram. The rows assigned to a node are
  the rows of its units.
\<close>

definition serial_hist ::
  "'g::{plus,zero} list \<Rightarrow> nat list list \<Rightarrow> nat list \<Rightarrow> nat \<Rightarrow> 'g list" where
  "serial_hist gpair gmat row_indices nbins =
     fold (\<lambda>r h. fold (\<lambda>b h. h[b := h ! b + gpair ! r]) (gmat ! r) h) row_indices
       (replicate nbins 0)"

definition rows_of_node :: "BlockedSpace2d \<Rightarrow> nat \<Rightarrow> nat list" where
  "rows_of_node space nid = concat (map snd (filter (\<lambda>u. fst u = nid) space))"

section \<open>The assignment of histograms to threads\<close>

text \<open>
  The threads that touch a node, in increasing order, as \<^verbatim>\<open>threads_to_nids_map_\<close> records
  them; their number is the count of the node. The scratch rows of the nodes before \<open>n\<close>
  are \<open>base_of\<close> many: \<open>max 0 (count - 1)\<close> for each of them.
\<close>

definition touch :: "bool list \<Rightarrow> nat \<Rightarrow> nat \<Rightarrow> nat \<Rightarrow> nat list" where
  "touch m nthreads nodes nid = filter (\<lambda>tid. m ! (tid * nodes + nid)) [0..<nthreads]"

definition base_of :: "bool list \<Rightarrow> nat \<Rightarrow> nat \<Rightarrow> nat \<Rightarrow> nat" where
  "base_of m nthreads nodes n =
     sum_list (map (\<lambda>nid. length (touch m nthreads nodes nid) - 1) [0..<n])"

definition touching_threads :: "'g ParallelGHistBuilder \<Rightarrow> nat \<Rightarrow> nat list" where
  "touching_threads pb nid =
     touch (pb_threads_to_nids_map pb) (pb_nthreads pb) (pb_nodes pb) nid"

definition scratch_base :: "'g ParallelGHistBuilder \<Rightarrow> nat \<Rightarrow> nat" where
  "scratch_base pb n =
     base_of (pb_threads_to_nids_map pb) (pb_nthreads pb) (pb_nodes pb) n"

section \<open>Small builders\<close>

text \<open>
  A builder of two bins; a work space of two units of node 0; the builder after
  \<^verbatim>\<open>Reset\<close> with two threads on that space, and after \<^verbatim>\<open>Reset\<close> with one thread on the empty
  space.
\<close>

definition builder_2 :: "int ParallelGHistBuilder" where
  "builder_2 = ParallelGHistBuilder_Init 2 ParallelGHistBuilder_new"

definition space_2 :: BlockedSpace2d where
  "space_2 = [(0, [0]), (0, [1])]"

definition builder_2_reset :: "int ParallelGHistBuilder" where
  "builder_2_reset = \<lparr>pb_nbins = 2, pb_nthreads = 2, pb_nodes = 1,
     pb_hist_buffer = \<lparr>hc_nbins = 2, hc_n_nodes_added = 1, hc_contiguous_allocation = False,
         hc_data = [[]], hc_row_ptr = [0]\<rparr>,
     pb_hist_was_used = [False, False], pb_threads_to_nids_map = [True, True],
     pb_targeted_hists = [[7, 7]],
     pb_tid_nid_to_hist = [(0, 0) \<mapsto> - 1, (1, 0) \<mapsto> 0]\<rparr>"

definition builder_2_reset_empty :: "int ParallelGHistBuilder" where
  "builder_2_reset_empty = \<lparr>pb_nbins = 2, pb_nthreads = 1, pb_nodes = 1,
     pb_hist_buffer = \<lparr>hc_nbins = 2, hc_n_nodes_added = 0, hc_contiguous_allocation = False,
         hc_data = [], hc_row_ptr = []\<rparr>,
     pb_hist_was_used = [False], pb_threads_to_nids_map = [False],
     pb_targeted_hists = [[7, 7]], pb_tid_nid_to_hist = Map.empty\<rparr>"

text \<open>
  A builder of one bin for sums in \<^verbatim>\<open>double\<close>, a work space of four units of node 0 with
  one row each, and four gradient pairs whose gradients are \<open>2 ^ 53\<close>, 1, 1 and 1; every row
  has one entry, in bin 0.
\<close>

definition builder_d :: "double GradientPairInternal ParallelGHistBuilder" where
  "builder_d = ParallelGHistBuilder_Init 1 ParallelGHistBuilder_new"

definition space_4 :: BlockedSpace2d where
  "space_4 = [(0, [0]), (0, [1]), (0, [2]), (0, [3])]"

definition gpair_d :: "double GradientPairInternal list" where
  "gpair_d = [GradientPairInternal (Finite 9007199254740992) (Finite 1),
              GradientPairInternal (Finite 1) (Finite 1),
              GradientPairInternal (Finite 1) (Finite 1),
              GradientPairInternal (Finite 1) (Finite 1)]"

definition gmat_4 :: "nat list list" where
  "gmat_4 = [[0], [0], [0], [0]]"

text \<open>Four gradient pairs with the gradients \<open>2 ^ 52\<close>, 1, -2 and 3, and a target that holds 7.\<close>

definition gpair_exact :: "double GradientPairInternal list" where
  "gpair_exact = [GradientPairInternal (Finite 4503599627370496) (Finite 1),
                  GradientPairInternal (Finite 1) (Finite 1),
                  GradientPairInternal (Finite (- 2)) (Finite 1),
                  GradientPairInternal (Finite 3) (Finite 1)]"

definition target_7 :: "double GradientPairInternal list list" where
  "target_7 = [[GradientPairInternal (Finite 7) (Finite 7)]]"

section \<open>Chunks of the work space\<close>

text \<open>
  The chunk of a thread is the units \<open>[cs * tid, min (cs * tid + cs) n)\<close> of a space of \<open>n\<close>
  units, with \<open>cs\<close> the chunk size. \<open>chunk_touch\<close> says that \<^verbatim>\<open>MatchThreadsToNodes\<close> marks the
  node for the thread: the chunk is not empty and the node lies between the nodes of its
  first and last unit.
\<close>

definition chunk_touch :: "BlockedSpace2d \<Rightarrow> nat \<Rightarrow> nat \<Rightarrow> nat \<Rightarrow> bool" where
  "chunk_touch space nthreads tid nid \<longleftrightarrow>
     (let cs = chunck_size (length space) nthreads; beg = cs * tid;
          fin = min (beg + cs) (length space)
      in beg < length space \<and> fst (space ! beg) \<le> nid \<and> nid \<le> fst (space ! (fin - 1)))"

section \<open>The state of a pass\<close>

text \<open>
  What a pass relies on after \<^verbatim>\<open>Reset\<close>, and what no later step of the pass changes: the
  pairs that are mapped are the pairs of a thread and a node it touches; a pair maps to -1
  or to a row of \<^verbatim>\<open>hist_buffer_\<close>; a node has at most one pair that maps to -1, and has one
  when it has a pair at all; no two pairs share a row; the rows of \<^verbatim>\<open>hist_buffer_\<close> are
  registered in order and the collection is not contiguous.
\<close>

definition assigned :: "BlockedSpace2d \<Rightarrow> 'g ParallelGHistBuilder \<Rightarrow> bool" where
  "assigned space pb \<longleftrightarrow>
     0 < pb_nthreads pb \<and>
     (\<forall>tid nid. (pb_tid_nid_to_hist pb (tid, nid) \<noteq> None) =
        (tid < pb_nthreads pb \<and> nid < pb_nodes pb \<and> chunk_touch space (pb_nthreads pb) tid nid)) \<and>
     (\<forall>tid nid v. pb_tid_nid_to_hist pb (tid, nid) = Some v \<longrightarrow>
        v = - 1 \<or> (0 \<le> v \<and> nat v < hc_n_nodes_added (pb_hist_buffer pb))) \<and>
     (\<forall>tid tid' nid. pb_tid_nid_to_hist pb (tid, nid) = Some (- 1) \<and>
        pb_tid_nid_to_hist pb (tid', nid) = Some (- 1) \<longrightarrow> tid' = tid) \<and>
     (\<forall>tid tid' nid nid' v. 0 \<le> v \<and> pb_tid_nid_to_hist pb (tid, nid) = Some v \<and>
        pb_tid_nid_to_hist pb (tid', nid') = Some v \<longrightarrow> tid' = tid \<and> nid' = nid) \<and>
     (\<forall>tid nid. pb_tid_nid_to_hist pb (tid, nid) \<noteq> None \<longrightarrow>
        (\<exists>tid'. pb_tid_nid_to_hist pb (tid', nid) = Some (- 1))) \<and>
     hc_row_ptr (pb_hist_buffer pb) = [0..<hc_n_nodes_added (pb_hist_buffer pb)] \<and>
     hc_n_nodes_added (pb_hist_buffer pb) \<le> length (hc_data (pb_hist_buffer pb)) \<and>
     hc_n_nodes_added (pb_hist_buffer pb) < 2 ^ 31 \<and>
     \<not> hc_contiguous_allocation (pb_hist_buffer pb) \<and>
     hc_nbins (pb_hist_buffer pb) = pb_nbins pb"

text \<open>
  The shape of the arrays: one target of \<^verbatim>\<open>nbins_\<close> bins per node, one flag per pair, and
  every vector of \<^verbatim>\<open>hist_buffer_\<close> empty or of \<^verbatim>\<open>nbins_\<close> bins.
\<close>

definition shaped :: "'g ParallelGHistBuilder \<Rightarrow> bool" where
  "shaped pb \<longleftrightarrow>
     length (pb_targeted_hists pb) = pb_nodes pb \<and>
     (\<forall>h \<in> set (pb_targeted_hists pb). length h = pb_nbins pb) \<and>
     length (pb_hist_was_used pb) = pb_nthreads pb * pb_nodes pb \<and>
     (\<forall>h \<in> set (hc_data (pb_hist_buffer pb)). length h = 0 \<or> length h = pb_nbins pb)"

text \<open>
  A builder between two passes: the bin count of the buffer is the builder's, the buffer
  is not contiguous, and its vectors are empty or of \<^verbatim>\<open>nbins_\<close> bins. This is the state after
  \<^verbatim>\<open>Init\<close> and after any pass.
\<close>

definition builder_ok :: "'g ParallelGHistBuilder \<Rightarrow> bool" where
  "builder_ok pb \<longleftrightarrow>
     pb_nbins pb < 2 ^ 32 \<and>
     hc_nbins (pb_hist_buffer pb) = pb_nbins pb \<and>
     \<not> hc_contiguous_allocation (pb_hist_buffer pb) \<and>
     list_all (\<lambda>h. length h = 0 \<or> length h = pb_nbins pb) (hc_data (pb_hist_buffer pb))"

text \<open>
  A work space for \<open>nodes\<close> nodes: the units come node by node, as \<^verbatim>\<open>BlockedSpace2d\<close> builds
  them, and the rows and their bins exist.
\<close>

definition space_ok ::
  "nat \<Rightarrow> nat \<Rightarrow> 'g list \<Rightarrow> nat list list \<Rightarrow> BlockedSpace2d \<Rightarrow> bool" where
  "space_ok nodes nbins gpair gmat space \<longleftrightarrow>
     sorted (map fst space) \<and>
     list_all (\<lambda>u. fst u < nodes \<and>
        list_all (\<lambda>r. r < length gpair \<and> r < length gmat \<and>
                       list_all (\<lambda>b. b < nbins) (gmat ! r)) (snd u)) space"

text \<open>
  The sum that a unit adds to a bin, the units of a pair of a thread and a node among the
  units \<open>S\<close>, and the partial histogram of the pair.
\<close>

definition unit_sum :: "'g::comm_monoid_add list \<Rightarrow> nat list list \<Rightarrow> BlockedSpace2d \<Rightarrow> nat \<Rightarrow> nat \<Rightarrow> 'g" where
  "unit_sum gpair gmat space i b =
     sum_list (map (\<lambda>r. sum_list (map (\<lambda>j. if j = b then gpair ! r else 0) (gmat ! r)))
                 (snd (space ! i)))"

definition units_of :: "BlockedSpace2d \<Rightarrow> nat \<Rightarrow> nat set \<Rightarrow> nat \<Rightarrow> nat \<Rightarrow> nat set" where
  "units_of space nthreads S tid nid =
     {i \<in> S. thread_of_unit (length space) nthreads i = tid \<and> fst (space ! i) = nid}"

definition partial_hist ::
  "'g::comm_monoid_add list \<Rightarrow> nat list list \<Rightarrow> BlockedSpace2d \<Rightarrow> nat \<Rightarrow> nat \<Rightarrow> nat set \<Rightarrow>
   nat \<Rightarrow> nat \<Rightarrow> 'g list" where
  "partial_hist gpair gmat space nthreads nbins S tid nid =
     map (\<lambda>b. \<Sum>i \<in> units_of space nthreads S tid nid. unit_sum gpair gmat space i b) [0..<nbins]"

text \<open>The array that a pair writes to: the target of the node or a row of the buffer.\<close>

definition storage :: "'g ParallelGHistBuilder \<Rightarrow> nat \<Rightarrow> nat \<Rightarrow> 'g list" where
  "storage pb tid nid =
     (case pb_tid_nid_to_hist pb (tid, nid) of
        None \<Rightarrow> []
      | Some v \<Rightarrow> if v = - 1 then pb_targeted_hists pb ! nid
                  else hc_data (pb_hist_buffer pb) ! nat v)"

definition set_storage ::
  "'g ParallelGHistBuilder \<Rightarrow> int \<Rightarrow> nat \<Rightarrow> 'g list \<Rightarrow> 'g ParallelGHistBuilder" where
  "set_storage pb v nid h =
     (if v = - 1 then pb\<lparr>pb_targeted_hists := (pb_targeted_hists pb)[nid := h]\<rparr>
      else pb\<lparr>pb_hist_buffer :=
             (pb_hist_buffer pb)\<lparr>hc_data := (hc_data (pb_hist_buffer pb))[nat v := h]\<rparr>\<rparr>)"

text \<open>
  The invariant of the parallel loop, after the units \<open>S\<close>: a flag of \<^verbatim>\<open>hist_was_used_\<close> is
  set exactly for the pairs that have a unit in \<open>S\<close>, and the array of such a pair of the
  node holds the partial histogram of the pair.
\<close>

definition flags_ok :: "BlockedSpace2d \<Rightarrow> nat set \<Rightarrow> 'g ParallelGHistBuilder \<Rightarrow> bool" where
  "flags_ok space S pb \<longleftrightarrow>
     (\<forall>tid < pb_nthreads pb. \<forall>nid < pb_nodes pb.
        pb_hist_was_used pb ! (tid * pb_nodes pb + nid) =
          (units_of space (pb_nthreads pb) S tid nid \<noteq> {}))"

definition node_ok ::
  "'g::comm_monoid_add list \<Rightarrow> nat list list \<Rightarrow> BlockedSpace2d \<Rightarrow> nat set \<Rightarrow>
   'g ParallelGHistBuilder \<Rightarrow> nat \<Rightarrow> bool" where
  "node_ok gpair gmat space S pb nid \<longleftrightarrow>
     (\<forall>tid < pb_nthreads pb. units_of space (pb_nthreads pb) S tid nid \<noteq> {} \<longrightarrow>
        storage pb tid nid =
          partial_hist gpair gmat space (pb_nthreads pb) (pb_nbins pb) S tid nid)"

definition loop_inv ::
  "'g::comm_monoid_add list \<Rightarrow> nat list list \<Rightarrow> BlockedSpace2d \<Rightarrow> nat set \<Rightarrow>
   'g ParallelGHistBuilder \<Rightarrow> bool" where
  "loop_inv gpair gmat space S pb \<longleftrightarrow>
     assigned space pb \<and> shaped pb \<and> flags_ok space S pb \<and>
     (\<forall>nid < pb_nodes pb. node_ok gpair gmat space S pb nid)"

section \<open>Exact sums in \<^verbatim>\<open>double\<close>\<close>

text \<open>
  The sums of a pass are exact when, in every bin of every node, the magnitudes of the
  gradients of the rows add up to less than \<open>2 ^ 53\<close>, and so do the magnitudes of the
  hessians. The magnitude of a whole number is its absolute value; an infinity and NaN
  count as \<open>2 ^ 53\<close>, so that a row that holds one is never exact.
\<close>

definition magnitude :: "double \<Rightarrow> nat" where
  "magnitude d = (case d of Finite k \<Rightarrow> nat \<bar>k\<bar> | _ \<Rightarrow> 2 ^ 53)"

definition sums_exact ::
  "double GradientPairInternal list \<Rightarrow> nat list list \<Rightarrow> BlockedSpace2d \<Rightarrow> nat \<Rightarrow> nat \<Rightarrow> bool" where
  "sums_exact gpair gmat space nodes nbins \<longleftrightarrow>
     list_all (\<lambda>nid.
        list_all (\<lambda>s. GetGrad s < 2 ^ 53 \<and> GetHess s < 2 ^ 53)
          (serial_hist (map (map_GradientPairInternal magnitude) gpair) gmat
             (rows_of_node space nid) nbins))
       [0..<nodes]"

text \<open>
  The code uses the sums through their addition and their zero only. A map \<open>h\<close> between
  two types of sums that keeps both can be applied to the gradient pairs and to the
  histograms of a builder before a pass or after it.
\<close>

definition hom :: "('a::{plus,zero} \<Rightarrow> 'b::{plus,zero}) \<Rightarrow> bool" where
  "hom h \<longleftrightarrow> h 0 = 0 \<and> (\<forall>a b. h (a + b) = h a + h b)"

definition map_hc :: "('a \<Rightarrow> 'b) \<Rightarrow> 'a HistCollection \<Rightarrow> 'b HistCollection" where
  "map_hc h hc = \<lparr>hc_nbins = hc_nbins hc, hc_n_nodes_added = hc_n_nodes_added hc,
     hc_contiguous_allocation = hc_contiguous_allocation hc,
     hc_data = map (map h) (hc_data hc), hc_row_ptr = hc_row_ptr hc\<rparr>"

definition map_pb :: "('a \<Rightarrow> 'b) \<Rightarrow> 'a ParallelGHistBuilder \<Rightarrow> 'b ParallelGHistBuilder" where
  "map_pb h pb = \<lparr>pb_nbins = pb_nbins pb, pb_nthreads = pb_nthreads pb, pb_nodes = pb_nodes pb,
     pb_hist_buffer = map_hc h (pb_hist_buffer pb), pb_hist_was_used = pb_hist_was_used pb,
     pb_threads_to_nids_map = pb_threads_to_nids_map pb,
     pb_targeted_hists = map (map h) (pb_targeted_hists pb),
     pb_tid_nid_to_hist = pb_tid_nid_to_hist pb\<rparr>"

text \<open>
  A double together with the whole numbers that were added to reach it, the positive and
  the negative ones apart. While the two parts add up to less than \<open>2 ^ 53\<close> the double is
  their difference. The parts add exactly, as natural numbers, and the double is added as
  the code adds it.
\<close>

datatype tally = Tally (pos_part: nat) (neg_part: nat) (held: double)

definition as_double :: "tally \<Rightarrow> double" where
  "as_double t =
     (if pos_part t + neg_part t < 2 ^ 53 then Finite (int (pos_part t) - int (neg_part t))
      else held t)"

definition total :: "tally \<Rightarrow> nat" where
  "total t = pos_part t + neg_part t"

instantiation tally :: plus
begin

definition plus_tally :: "tally \<Rightarrow> tally \<Rightarrow> tally" where
  "a + b = Tally (pos_part a + pos_part b) (neg_part a + neg_part b) (as_double a + as_double b)"

instance ..

end

instantiation tally :: zero
begin

definition zero_tally :: tally where
  "0 = Tally 0 0 (Finite 0)"

instance ..

end

definition tally_of :: "double \<Rightarrow> tally" where
  "tally_of d = (case d of Finite k \<Rightarrow> Tally (nat k) (nat (- k)) d | _ \<Rightarrow> Tally (2 ^ 53) 0 d)"

section \<open>The halving search\<close>

lemma bsearch_0: "bsearch g first 0 = first"
  by (subst bsearch.simps) simp

lemma bsearch_right:
  "len \<noteq> 0 \<Longrightarrow> g (first + len div 2) \<Longrightarrow>
   bsearch g first len = bsearch g (first + len div 2 + 1) (len - len div 2 - 1)"
  by (subst bsearch.simps) (simp add: Let_def)

lemma bsearch_left:
  "len \<noteq> 0 \<Longrightarrow> \<not> g (first + len div 2) \<Longrightarrow>
   bsearch g first len = bsearch g first (len div 2)"
  by (subst bsearch.simps) (simp add: Let_def)

text \<open>Whatever the test, the search stays inside the range it was given.\<close>

lemma bsearch_range:
  "first \<le> bsearch g first len \<and> bsearch g first len \<le> first + len"
proof (induction g first len rule: bsearch.induct)
  case (1 g first len)
  show ?case
  proof (cases "len = 0")
    case True
    then show ?thesis by (simp add: bsearch_0)
  next
    case False
    show ?thesis
    proof (cases "g (first + len div 2)")
      case True
      from 1(1)[OF False refl refl True] show ?thesis
        unfolding bsearch_right[of len g first, OF False True] using False by linarith
    next
      case False': False
      from 1(2)[OF False refl refl False'] show ?thesis
        unfolding bsearch_left[of len g first, OF False False'] using False by linarith
    qed
  qed
qed

text \<open>
  On a range that the test partitions (true on a prefix, false on the rest) the search
  returns the partition point.
\<close>

lemma bsearch_partition:
  "\<forall>i j. first \<le> i \<and> i \<le> j \<and> j < first + len \<and> g j \<longrightarrow> g i \<Longrightarrow>
   (\<forall>j. first \<le> j \<and> j < bsearch g first len \<longrightarrow> g j) \<and>
   (\<forall>j. bsearch g first len \<le> j \<and> j < first + len \<longrightarrow> \<not> g j)"
proof (induction g first len rule: bsearch.induct)
  case (1 g first len)
  note mono = 1(3)
  show ?case
  proof (cases "len = 0")
    case True
    then show ?thesis by (auto simp: bsearch_0)
  next
    case False
    let ?m = "first + len div 2"
    have mlt: "?m < first + len" using False by simp
    show ?thesis
    proof (cases "g ?m")
      case True
      have fin: "?m + 1 + (len - len div 2 - 1) = first + len" using False by simp
      have mono': "\<forall>i j. ?m + 1 \<le> i \<and> i \<le> j \<and> j < ?m + 1 + (len - len div 2 - 1) \<and> g j \<longrightarrow> g i"
        unfolding fin using mono by simp
      have below: "\<forall>j. first \<le> j \<and> j \<le> ?m \<longrightarrow> g j"
        using mono mlt True by blast
      have ih: "(\<forall>j. ?m + 1 \<le> j \<and> j < bsearch g (?m + 1) (len - len div 2 - 1) \<longrightarrow> g j) \<and>
         (\<forall>j. bsearch g (?m + 1) (len - len div 2 - 1) \<le> j \<and> j < first + len \<longrightarrow> \<not> g j)"
        using 1(1)[OF False refl refl True mono'] unfolding fin .
      show ?thesis
        unfolding bsearch_right[of len g first, OF False True]
        using ih below by (metis Suc_eq_plus1 not_less_eq_eq)
    next
      case False': False
      have mono': "\<forall>i j. first \<le> i \<and> i \<le> j \<and> j < first + len div 2 \<and> g j \<longrightarrow> g i"
        using mono mlt by (meson less_trans nat_add_left_cancel_less)
      have above: "\<forall>j. ?m \<le> j \<and> j < first + len \<longrightarrow> \<not> g j"
        using mono False' le_add1[of first "len div 2"] by blast
      have ih: "(\<forall>j. first \<le> j \<and> j < bsearch g first (len div 2) \<longrightarrow> g j) \<and>
         (\<forall>j. bsearch g first (len div 2) \<le> j \<and> j < first + len div 2 \<longrightarrow> \<not> g j)"
        using 1(2)[OF False refl refl False' mono'] .
      show ?thesis
        unfolding bsearch_left[of len g first, OF False False']
        using ih above by (metis not_le_imp_less)
    qed
  qed
qed

section \<open>Sorted slices\<close>

lemma float_less_trans: "float_less a b \<Longrightarrow> float_less b c \<Longrightarrow> float_less a c"
  by (cases a; cases b; cases c) auto

text \<open>A strictly ascending slice is partitioned by both tests.\<close>

lemma cut_slice_nth: "b \<le> j \<Longrightarrow> j < e \<Longrightarrow> e \<le> length xs \<Longrightarrow> cut_slice xs b e ! (j - b) = xs ! j"
  by (simp add: cut_slice_def)

lemma length_cut_slice: "e \<le> length xs \<Longrightarrow> length (cut_slice xs b e) = e - b"
  by (simp add: cut_slice_def)

lemma sorted_slice_less:
  assumes "sorted_wrt float_less (cut_slice xs b e)" "e \<le> length xs" "b \<le> i" "i < j" "j < e"
  shows "float_less (xs ! i) (xs ! j)"
proof -
  have "float_less (cut_slice xs b e ! (i - b)) (cut_slice xs b e ! (j - b))"
    using sorted_wrt_nth_less[of float_less "cut_slice xs b e" "i - b" "j - b"] assms
    by (simp add: length_cut_slice)
  then show ?thesis using assms by (simp add: cut_slice_nth)
qed

lemma upper_partitioned:
  assumes "sorted_wrt float_less (cut_slice xs b e)" "e \<le> length xs" "b \<le> e"
  shows "\<forall>i j. b \<le> i \<and> i \<le> j \<and> j < b + (e - b) \<and> \<not> float_less v (xs ! j) \<longrightarrow> \<not> float_less v (xs ! i)"
proof (intro allI impI, elim conjE)
  fix i j assume h: "b \<le> i" "i \<le> j" "j < b + (e - b)" "\<not> float_less v (xs ! j)"
  show "\<not> float_less v (xs ! i)"
  proof (cases "i = j")
    case True then show ?thesis using h by simp
  next
    case False
    then have "float_less (xs ! i) (xs ! j)"
      using sorted_slice_less[OF assms(1,2) h(1), of j] h assms(3) by simp
    then show ?thesis using h(4) float_less_trans by blast
  qed
qed

lemma lower_partitioned:
  assumes "sorted_wrt float_less (cut_slice xs b e)" "e \<le> length xs" "b \<le> e"
  shows "\<forall>i j. b \<le> i \<and> i \<le> j \<and> j < b + (e - b) \<and> float_less (xs ! j) v \<longrightarrow> float_less (xs ! i) v"
proof (intro allI impI, elim conjE)
  fix i j assume h: "b \<le> i" "i \<le> j" "j < b + (e - b)" "float_less (xs ! j) v"
  show "float_less (xs ! i) v"
  proof (cases "i = j")
    case True then show ?thesis using h by simp
  next
    case False
    then have "float_less (xs ! i) (xs ! j)"
      using sorted_slice_less[OF assms(1,2) h(1), of j] h assms(3) by simp
    then show ?thesis using h(4) float_less_trans by blast
  qed
qed

lemma upper_bound_range:
  assumes "b \<le> e"
  shows "b \<le> upper_bound xs b e v \<and> upper_bound xs b e v \<le> e"
proof -
  have "b + (e - b) = e" using assms by simp
  with bsearch_range[of b "\<lambda>m. \<not> float_less v (xs ! m)" "e - b"]
  show ?thesis unfolding upper_bound_def by simp
qed

lemma lower_bound_range:
  assumes "b \<le> e"
  shows "b \<le> lower_bound xs b e v \<and> lower_bound xs b e v \<le> e"
proof -
  have "b + (e - b) = e" using assms by simp
  with bsearch_range[of b "\<lambda>m. float_less (xs ! m) v" "e - b"]
  show ?thesis unfolding lower_bound_def by simp
qed

lemma upper_bound_sorted:
  assumes "sorted_wrt float_less (cut_slice xs b e)" "e \<le> length xs" "b \<le> e"
  shows "(\<forall>j. b \<le> j \<and> j < upper_bound xs b e v \<longrightarrow> \<not> float_less v (xs ! j)) \<and>
         (\<forall>j. upper_bound xs b e v \<le> j \<and> j < e \<longrightarrow> float_less v (xs ! j))"
proof -
  have eq: "b + (e - b) = e" using assms by simp
  show ?thesis
    using bsearch_partition[OF upper_partitioned[OF assms, of v]]
    unfolding upper_bound_def eq by blast
qed

lemma lower_bound_sorted:
  assumes "sorted_wrt float_less (cut_slice xs b e)" "e \<le> length xs" "b \<le> e"
  shows "(\<forall>j. b \<le> j \<and> j < lower_bound xs b e v \<longrightarrow> float_less (xs ! j) v) \<and>
         (\<forall>j. lower_bound xs b e v \<le> j \<and> j < e \<longrightarrow> \<not> float_less (xs ! j) v)"
proof -
  have eq: "b + (e - b) = e" using assms by simp
  show ?thesis
    using bsearch_partition[OF lower_partitioned[OF assms, of v]]
    unfolding lower_bound_def eq by blast
qed


lemma of_nat_eq_iff_le:
  fixes w :: "32 word"
  assumes "n \<le> unat w"
  shows "(word_of_nat n = w) = (n = unat w)"
  using le_unat_uoi[OF assms] by auto

lemma SearchBin_value:
  assumes "unat f < length (cut_ptrs cuts)" "unat (f + 1) < length (cut_ptrs cuts)"
    and "beg = cut_ptrs cuts ! unat f" "fin = cut_ptrs cuts ! unat (f + 1)"
    and "beg \<le> fin" "unat fin \<le> length (cut_values cuts)"
    and "it = upper_bound (cut_values cuts) (unat beg) (unat fin) v"
  shows "SearchBin cuts v f = Inr (if it = unat fin then fin - 1 else word_of_nat it)"
proof -
  have le: "unat beg \<le> unat fin" using assms(5) by (simp add: word_le_nat_alt)
  have "it \<le> unat fin"
    using upper_bound_range[OF le, of "cut_values cuts" v] assms(7) by simp
  then have "(word_of_nat it = fin) = (it = unat fin)" by (rule of_nat_eq_iff_le)
  then show ?thesis
    using assms by (simp add: SearchBin_def Let_def not_le not_less)
qed

lemma SearchCatBin_value:
  assumes "unat (index e) < length (cut_ptrs cuts)" "unat (index e + 1) < length (cut_ptrs cuts)"
    and "beg = cut_ptrs cuts ! unat (index e)" "fin = cut_ptrs cuts ! unat (index e + 1)"
    and "beg \<le> fin" "unat fin \<le> length (cut_values cuts)"
    and "it = lower_bound (cut_values cuts) (unat beg) (unat fin) (as_cat (fvalue e))"
  shows "SearchCatBin as_cat cuts e = Inr (if it = unat fin then fin - 1 else word_of_nat it)"
proof -
  have eq: "(int it = uint fin) = (it = unat fin)"
    by (metis int_int_eq uint_nat)
  have "word_of_int (int it - 1) = (word_of_nat it :: 32 word) - 1" by simp
  then have "it = unat fin \<Longrightarrow> word_of_int (int it - 1) = fin - 1" by simp
  then show ?thesis
    using assms eq by (simp add: SearchCatBin_def Let_def not_le not_less)
qed


section \<open>Bin search\<close>

lemma SearchBin_sorted:
  assumes vf: "valid_feature cuts f" and asc: "ascending_feature cuts f"
  shows "\<exists>idx. SearchBin cuts v f = Inr idx \<and>
     (if \<exists>j. unat (feature_beg cuts f) \<le> j \<and> j < unat (feature_fin cuts f) \<and>
             float_less v (cut_values cuts ! j)
      then unat (feature_beg cuts f) \<le> unat idx \<and> unat idx < unat (feature_fin cuts f) \<and>
           float_less v (cut_values cuts ! unat idx) \<and>
           (\<forall>j. unat (feature_beg cuts f) \<le> j \<and> j < unat idx \<longrightarrow>
                \<not> float_less v (cut_values cuts ! j))
      else idx = feature_fin cuts f - 1)"
proof -
  let ?b = "feature_beg cuts f" and ?e = "feature_fin cuts f" and ?xs = "cut_values cuts"
  let ?it = "upper_bound ?xs (unat ?b) (unat ?e) v"
  have le: "unat ?b \<le> unat ?e" using vf by (simp add: valid_feature_def word_le_nat_alt)
  have len: "unat ?e \<le> length ?xs" using vf by (simp add: valid_feature_def)
  have val: "SearchBin cuts v f = Inr (if ?it = unat ?e then ?e - 1 else word_of_nat ?it)"
    using vf by (intro SearchBin_value) (simp_all add: valid_feature_def feature_beg_def feature_fin_def)
  have rng: "unat ?b \<le> ?it \<and> ?it \<le> unat ?e" using upper_bound_range[OF le, of ?xs v] by simp
  have part: "(\<forall>j. unat ?b \<le> j \<and> j < ?it \<longrightarrow> \<not> float_less v (?xs ! j)) \<and>
              (\<forall>j. ?it \<le> j \<and> j < unat ?e \<longrightarrow> float_less v (?xs ! j))"
    using upper_bound_sorted[OF _ len le] asc by (simp add: ascending_feature_def)
  show ?thesis
  proof (cases "?it = unat ?e")
    case True
    then have "\<not> (\<exists>j. unat ?b \<le> j \<and> j < unat ?e \<and> float_less v (?xs ! j))"
      using part by auto
    then show ?thesis using val True by (simp only: if_False if_True) simp
  next
    case False
    then have lt: "?it < unat ?e" using rng by simp
    have un: "unat (word_of_nat ?it :: 32 word) = ?it"
      using rng by (intro le_unat_uoi[of _ ?e]) simp
    have ex: "\<exists>j. unat ?b \<le> j \<and> j < unat ?e \<and> float_less v (?xs ! j)"
      using part lt rng by blast
    show ?thesis
      using val False ex un lt rng part by simp
  qed
qed

lemma SearchCatBin_sorted:
  assumes vf: "valid_feature cuts (index e)" and asc: "ascending_feature cuts (index e)"
    and c: "c = as_cat (fvalue e)"
  shows "\<exists>idx. SearchCatBin as_cat cuts e = Inr idx \<and>
     (if \<exists>j. unat (feature_beg cuts (index e)) \<le> j \<and> j < unat (feature_fin cuts (index e)) \<and>
             \<not> float_less (cut_values cuts ! j) c
      then unat (feature_beg cuts (index e)) \<le> unat idx \<and>
           unat idx < unat (feature_fin cuts (index e)) \<and>
           \<not> float_less (cut_values cuts ! unat idx) c \<and>
           (\<forall>j. unat (feature_beg cuts (index e)) \<le> j \<and> j < unat idx \<longrightarrow>
                float_less (cut_values cuts ! j) c)
      else idx = feature_fin cuts (index e) - 1)"
proof -
  let ?b = "feature_beg cuts (index e)" and ?e = "feature_fin cuts (index e)"
  let ?xs = "cut_values cuts"
  let ?it = "lower_bound ?xs (unat ?b) (unat ?e) c"
  have le: "unat ?b \<le> unat ?e" using vf by (simp add: valid_feature_def word_le_nat_alt)
  have len: "unat ?e \<le> length ?xs" using vf by (simp add: valid_feature_def)
  have val: "SearchCatBin as_cat cuts e = Inr (if ?it = unat ?e then ?e - 1 else word_of_nat ?it)"
    using vf c
    by (intro SearchCatBin_value) (simp_all add: valid_feature_def feature_beg_def feature_fin_def)
  have rng: "unat ?b \<le> ?it \<and> ?it \<le> unat ?e" using lower_bound_range[OF le, of ?xs c] by simp
  have part: "(\<forall>j. unat ?b \<le> j \<and> j < ?it \<longrightarrow> float_less (?xs ! j) c) \<and>
              (\<forall>j. ?it \<le> j \<and> j < unat ?e \<longrightarrow> \<not> float_less (?xs ! j) c)"
    using lower_bound_sorted[OF _ len le] asc by (simp add: ascending_feature_def)
  show ?thesis
  proof (cases "?it = unat ?e")
    case True
    then have "\<not> (\<exists>j. unat ?b \<le> j \<and> j < unat ?e \<and> \<not> float_less (?xs ! j) c)"
      using part by auto
    then show ?thesis using val True by (simp only: if_False if_True) simp
  next
    case False
    then have lt: "?it < unat ?e" using rng by simp
    have un: "unat (word_of_nat ?it :: 32 word) = ?it"
      using rng by (intro le_unat_uoi[of _ ?e]) simp
    have ex: "\<exists>j. unat ?b \<le> j \<and> j < unat ?e \<and> \<not> float_less (?xs ! j) c"
      using part lt rng by blast
    show ?thesis
      using val False ex un lt rng part by simp
  qed
qed

lemma valid_cuts_2_5_9: "valid_feature cuts_2_5_9 0 \<and> ascending_feature cuts_2_5_9 0"
  by (simp add: valid_feature_def ascending_feature_def feature_beg_def feature_fin_def
      cuts_2_5_9_def cut_slice_def)

lemma valid_cuts_1_3_7: "valid_feature cuts_1_3_7 0 \<and> ascending_feature cuts_1_3_7 0"
  by (simp add: valid_feature_def ascending_feature_def feature_beg_def feature_fin_def
      cuts_1_3_7_def cut_slice_def)

lemma bsearch_1: "bsearch g first (Suc 0) = (if g first then Suc first else first)"
  by (subst bsearch.simps) (simp add: Let_def bsearch_0)

lemma bsearch_3:
  "bsearch g 0 3 = (if g 1 then (if g 2 then 3 else 2) else (if g 0 then 1 else 0))"
proof -
  have "bsearch g 0 (Suc (Suc (Suc 0))) =
    (if g (Suc 0) then bsearch g (Suc (Suc 0)) (Suc 0) else bsearch g 0 (Suc 0))"
    by (subst bsearch.simps) (simp add: Let_def)
  then show ?thesis
    by (simp add: bsearch_1 numeral_3_eq_3 numeral_2_eq_2)
qed

lemma SearchBin_2_5_9:
  "SearchBin cuts_2_5_9 v 0 =
     Inr (if float_less v (Num 5) then (if float_less v (Num 2) then 0 else 1)
          else (if float_less v (Num 9) then 2 else 2))"
  by (simp add: SearchBin_def upper_bound_def bsearch_3 cuts_2_5_9_def)

lemma SearchCatBin_1_3_7:
  "SearchCatBin as_cat cuts_1_3_7 \<lparr>index = 0, fvalue = x\<rparr> =
     Inr (if float_less (Num 3) (as_cat x) then (if float_less (Num 7) (as_cat x) then 2 else 2)
          else (if float_less (Num 1) (as_cat x) then 1 else 0))"
  by (simp add: SearchCatBin_def lower_bound_def bsearch_3 cuts_1_3_7_def Let_def)

text \<open>
  C2 (amended). On a valid feature whose boundaries ascend strictly, \<^verbatim>\<open>SearchBin\<close> returns
  the first boundary of the feature that is strictly greater than the value, and the
  feature's last bin when there is none (the value is at or beyond all boundaries). For
  the boundaries 2, 5, 9: \<^verbatim>\<open>SearchBin(1.0) = 0\<close>, \<^verbatim>\<open>SearchBin(2.0) = 1\<close> (the boundary 2.0
  is not strictly greater than 2.0), \<^verbatim>\<open>SearchBin(5.5) = 2\<close> and \<^verbatim>\<open>SearchBin(100.0) = 2\<close>.
\<close>

theorem SearchBin_first_greater:
  "(\<forall>(cuts :: 'a::linorder HistogramCuts) v f.
      valid_feature cuts f \<and> ascending_feature cuts f \<longrightarrow>
      (\<exists>idx. SearchBin cuts v f = Inr idx \<and>
        (if \<exists>j. unat (feature_beg cuts f) \<le> j \<and> j < unat (feature_fin cuts f) \<and>
                float_less v (cut_values cuts ! j)
         then unat (feature_beg cuts f) \<le> unat idx \<and> unat idx < unat (feature_fin cuts f) \<and>
              float_less v (cut_values cuts ! unat idx) \<and>
              (\<forall>j. unat (feature_beg cuts f) \<le> j \<and> j < unat idx \<longrightarrow>
                   \<not> float_less v (cut_values cuts ! j))
         else idx = feature_fin cuts f - 1))) \<and>
   SearchBin cuts_2_5_9 (Num 1) 0 = Inr 0 \<and>
   SearchBin cuts_2_5_9 (Num 2) 0 = Inr 1 \<and>
   SearchBin cuts_2_5_9 (Num (11 / 2)) 0 = Inr 2 \<and>
   SearchBin cuts_2_5_9 (Num 100) 0 = Inr 2"
proof (intro conjI allI impI)
  fix cuts :: "'a HistogramCuts" and v f
  assume "valid_feature cuts f \<and> ascending_feature cuts f"
  then show "\<exists>idx. SearchBin cuts v f = Inr idx \<and>
        (if \<exists>j. unat (feature_beg cuts f) \<le> j \<and> j < unat (feature_fin cuts f) \<and>
                float_less v (cut_values cuts ! j)
         then unat (feature_beg cuts f) \<le> unat idx \<and> unat idx < unat (feature_fin cuts f) \<and>
              float_less v (cut_values cuts ! unat idx) \<and>
              (\<forall>j. unat (feature_beg cuts f) \<le> j \<and> j < unat idx \<longrightarrow>
                   \<not> float_less v (cut_values cuts ! j))
         else idx = feature_fin cuts f - 1)"
    using SearchBin_sorted[of cuts f v] by blast
qed (simp_all add: SearchBin_2_5_9)

theorem SearchBin_first_greater_witness:
  "valid_feature cuts_2_5_9 0 \<and> ascending_feature cuts_2_5_9 0 \<and>
   (\<exists>idx. SearchBin cuts_2_5_9 (Num (11 / 2)) 0 = Inr idx \<and> unat idx = 2 \<and>
      float_less (Num (11 / 2)) (cut_values cuts_2_5_9 ! unat idx) \<and>
      \<not> float_less (Num (11 / 2)) (cut_values cuts_2_5_9 ! 1))"
proof -
  have ex: "\<exists>j. unat (feature_beg cuts_2_5_9 0) \<le> j \<and> j < unat (feature_fin cuts_2_5_9 0) \<and>
      float_less (Num (11 / 2)) (cut_values cuts_2_5_9 ! j)"
    by (intro exI[of _ 2]) (simp add: feature_beg_def feature_fin_def cuts_2_5_9_def)
  have nth: "cut_values cuts_2_5_9 ! 2 = Num 9" "cut_values cuts_2_5_9 ! Suc 0 = Num 5"
    by (simp_all add: cuts_2_5_9_def)
  from SearchBin_first_greater[THEN conjunct1, rule_format, of cuts_2_5_9 0 "Num (11 / 2)"]
    valid_cuts_2_5_9 ex
  show ?thesis
    by (simp add: SearchBin_2_5_9 nth)
qed

theorem SearchBin_at_boundary_counterexample:
  "SearchBin cuts_2_5_9 (Num 2) 0 \<noteq> Inr 0"
  by (simp add: SearchBin_2_5_9)

text \<open>
  C10. On a valid feature with a non-empty slice the result of \<^verbatim>\<open>SearchBin\<close> lies in the
  feature's own bin range, for every value (\<open>NaN\<close> included) and whatever the order of
  the boundaries. On an empty slice the result is \<^verbatim>\<open>cut_ptrs[f + 1] - 1\<close> (32-bit), which
  is outside the range.
\<close>

theorem SearchBin_in_feature_range:
  "valid_feature cuts f \<Longrightarrow>
   (feature_beg cuts f < feature_fin cuts f \<longrightarrow>
      (\<exists>idx. SearchBin cuts v f = Inr idx \<and>
         feature_beg cuts f \<le> idx \<and> idx < feature_fin cuts f)) \<and>
   (feature_beg cuts f = feature_fin cuts f \<longrightarrow>
      (\<exists>idx. SearchBin cuts v f = Inr idx \<and> idx = feature_fin cuts f - 1 \<and>
         \<not> (feature_beg cuts f \<le> idx \<and> idx < feature_fin cuts f)))"
proof -
  assume vf: "valid_feature cuts f"
  let ?b = "feature_beg cuts f" and ?e = "feature_fin cuts f" and ?xs = "cut_values cuts"
  let ?it = "upper_bound ?xs (unat ?b) (unat ?e) v"
  have le: "unat ?b \<le> unat ?e" using vf by (simp add: valid_feature_def word_le_nat_alt)
  have val: "SearchBin cuts v f = Inr (if ?it = unat ?e then ?e - 1 else word_of_nat ?it)"
    using vf by (intro SearchBin_value) (simp_all add: valid_feature_def feature_beg_def feature_fin_def)
  have rng: "unat ?b \<le> ?it \<and> ?it \<le> unat ?e" using upper_bound_range[OF le, of ?xs v] by simp
  have un: "unat (word_of_nat ?it :: 32 word) = ?it"
    using rng by (intro le_unat_uoi[of _ ?e]) simp
  show ?thesis
  proof (intro conjI impI)
    assume lt: "?b < ?e"
    then have ne: "?e \<noteq> 0" by auto
    have ltn: "unat ?b < unat ?e" using lt by (simp add: word_less_nat_alt)
    show "\<exists>idx. SearchBin cuts v f = Inr idx \<and> ?b \<le> idx \<and> idx < ?e"
    proof (cases "?it = unat ?e")
      case True
      have "unat (?e - 1) = unat ?e - 1" using ne by (rule unat_minus_one)
      then have "unat ?b \<le> unat (?e - 1) \<and> unat (?e - 1) < unat ?e" using ltn by simp
      then show ?thesis using val True by (simp add: word_le_nat_alt word_less_nat_alt)
    next
      case False
      then show ?thesis using val rng un by (simp add: word_le_nat_alt word_less_nat_alt)
    qed
  next
    assume eq: "?b = ?e"
    then have "?it = unat ?e" using rng by simp
    then show "\<exists>idx. SearchBin cuts v f = Inr idx \<and> idx = ?e - 1 \<and> \<not> (?b \<le> idx \<and> idx < ?e)"
      using val eq by auto
  qed
qed

theorem SearchBin_in_feature_range_witness:
  "valid_feature cuts_2_5_9 0 \<and> feature_beg cuts_2_5_9 0 < feature_fin cuts_2_5_9 0 \<and>
   (\<exists>idx. SearchBin cuts_2_5_9 NaN 0 = Inr idx \<and> 0 \<le> idx \<and> idx < 3) \<and>
   valid_feature cuts_empty_slice 1 \<and> feature_beg cuts_empty_slice 1 = feature_fin cuts_empty_slice 1 \<and>
   (\<exists>idx. SearchBin cuts_empty_slice (Num 3) 1 = Inr idx \<and> idx = 1 \<and> \<not> (2 \<le> idx \<and> idx < 2))"
proof -
  have v1: "valid_feature cuts_2_5_9 0" using valid_cuts_2_5_9 by simp
  have v2: "valid_feature cuts_empty_slice 1"
    by (simp add: valid_feature_def feature_beg_def feature_fin_def cuts_empty_slice_def)
  have b1: "feature_beg cuts_2_5_9 0 = 0" "feature_fin cuts_2_5_9 0 = 3"
    by (simp_all add: feature_beg_def feature_fin_def cuts_2_5_9_def)
  have b2: "feature_beg cuts_empty_slice 1 = 2" "feature_fin cuts_empty_slice 1 = 2"
    by (simp_all add: feature_beg_def feature_fin_def cuts_empty_slice_def)
  from SearchBin_in_feature_range[OF v1, of NaN] SearchBin_in_feature_range[OF v2, of "Num 3"]
  show ?thesis using v1 v2 by (simp add: b1 b2)
qed

text \<open>
  C7. On a valid feature whose boundaries ascend strictly, \<^verbatim>\<open>SearchCatBin\<close> returns the
  first (hence smallest) boundary of the feature that is not less than the category of
  the entry, and the feature's last bin when there is none. For the categories 1, 3, 7:
  \<^verbatim>\<open>SearchCatBin(3)\<close> is the bin whose boundary is 3, \<^verbatim>\<open>SearchCatBin(8)\<close> is the last bin.
\<close>

theorem SearchCatBin_first_not_less:
  "(\<forall>(cuts :: 'a::linorder HistogramCuts) as_cat e.
      valid_feature cuts (index e) \<and> ascending_feature cuts (index e) \<longrightarrow>
      (\<exists>idx. SearchCatBin as_cat cuts e = Inr idx \<and>
        (if \<exists>j. unat (feature_beg cuts (index e)) \<le> j \<and> j < unat (feature_fin cuts (index e)) \<and>
                \<not> float_less (cut_values cuts ! j) (as_cat (fvalue e))
         then unat (feature_beg cuts (index e)) \<le> unat idx \<and>
              unat idx < unat (feature_fin cuts (index e)) \<and>
              \<not> float_less (cut_values cuts ! unat idx) (as_cat (fvalue e)) \<and>
              (\<forall>j. unat (feature_beg cuts (index e)) \<le> j \<and> j < unat idx \<longrightarrow>
                   float_less (cut_values cuts ! j) (as_cat (fvalue e)))
         else idx = feature_fin cuts (index e) - 1))) \<and>
   SearchCatBin AsCat cuts_1_3_7 \<lparr>index = 0, fvalue = Num 3\<rparr> = Inr 1 \<and>
   cut_values cuts_1_3_7 ! 1 = Num 3 \<and>
   SearchCatBin AsCat cuts_1_3_7 \<lparr>index = 0, fvalue = Num 8\<rparr> = Inr 2 \<and>
   feature_fin cuts_1_3_7 0 - 1 = 2"
proof (intro conjI allI impI)
  fix cuts :: "'a HistogramCuts" and as_cat and e :: "'a Entry"
  assume "valid_feature cuts (index e) \<and> ascending_feature cuts (index e)"
  then show "\<exists>idx. SearchCatBin as_cat cuts e = Inr idx \<and>
        (if \<exists>j. unat (feature_beg cuts (index e)) \<le> j \<and> j < unat (feature_fin cuts (index e)) \<and>
                \<not> float_less (cut_values cuts ! j) (as_cat (fvalue e))
         then unat (feature_beg cuts (index e)) \<le> unat idx \<and>
              unat idx < unat (feature_fin cuts (index e)) \<and>
              \<not> float_less (cut_values cuts ! unat idx) (as_cat (fvalue e)) \<and>
              (\<forall>j. unat (feature_beg cuts (index e)) \<le> j \<and> j < unat idx \<longrightarrow>
                   float_less (cut_values cuts ! j) (as_cat (fvalue e)))
         else idx = feature_fin cuts (index e) - 1)"
    using SearchCatBin_sorted[of cuts e "as_cat (fvalue e)" as_cat] by blast
next
  show "SearchCatBin AsCat cuts_1_3_7 \<lparr>index = 0, fvalue = Num 3\<rparr> = Inr 1"
    by (simp add: SearchCatBin_1_3_7)
  show "SearchCatBin AsCat cuts_1_3_7 \<lparr>index = 0, fvalue = Num 8\<rparr> = Inr 2"
    by (simp add: SearchCatBin_1_3_7)
  show "cut_values cuts_1_3_7 ! 1 = Num 3" by (simp add: cuts_1_3_7_def)
  show "feature_fin cuts_1_3_7 0 - 1 = 2" by (simp add: cuts_1_3_7_def feature_fin_def)
qed

theorem SearchCatBin_first_not_less_witness:
  "valid_feature cuts_1_3_7 0 \<and> ascending_feature cuts_1_3_7 0 \<and>
   (\<exists>idx. SearchCatBin AsCat cuts_1_3_7 \<lparr>index = 0, fvalue = Num (7 / 2)\<rparr> = Inr idx \<and>
      unat idx = 1 \<and> \<not> float_less (cut_values cuts_1_3_7 ! unat idx) (Num 3) \<and>
      float_less (cut_values cuts_1_3_7 ! 0) (Num 3))"
proof -
  have nth: "cut_values cuts_1_3_7 ! Suc 0 = Num 3" "cut_values cuts_1_3_7 ! 0 = Num 1"
    by (simp_all add: cuts_1_3_7_def)
  from SearchCatBin_first_not_less[THEN conjunct1, rule_format,
      of cuts_1_3_7 "\<lparr>index = 0, fvalue = Num (7 / 2)\<rparr>" AsCat]
    valid_cuts_1_3_7
  show ?thesis
    by (simp add: SearchCatBin_1_3_7 nth)
qed

section \<open>Searching a row of the gradient index: results\<close>

lemma middle_between:
  fixes b e :: "64 word"
  assumes "b \<le> e" "e \<noteq> b"
  shows "b \<le> b + (e - b) div 2 \<and> b + (e - b) div 2 < e"
proof -
  have le: "unat b \<le> unat e" using assms(1) by (simp add: word_le_nat_alt)
  have ne: "unat b \<noteq> unat e" using assms(2) by (auto simp: word_unat_eq_iff)
  have d: "unat (e - b) = unat e - unat b" using assms(1) by (rule unat_sub)
  have h: "unat ((e - b) div 2) = (unat e - unat b) div 2" by (simp add: unat_div d)
  have "unat e < 2 ^ LENGTH(64)" by (rule unsigned_less)
  then have "unat b + unat ((e - b) div 2) < 2 ^ LENGTH(64)" using le h by simp
  then have "unat (b + (e - b) div 2) = unat b + (unat e - unat b) div 2"
    using h by (simp add: unat_add_lem[THEN iffD1])
  then show ?thesis using le ne by (simp add: word_le_nat_alt word_less_nat_alt)
qed

lemma BinarySearchBin_loop_step:
  assumes "e \<noteq> b" "m = b + (e - b) div 2" "m \<noteq> p" "unat m < length data" "g = data ! unat m"
  shows "BinarySearchBin_loop p b e data fb fe =
     (if fb \<le> g \<and> g < fe then Inr (sint g)
      else if g < fb then BinarySearchBin_loop m m e data fb fe
      else BinarySearchBin_loop m b m data fb fe)"
  using assms by (subst BinarySearchBin_loop.simps) (simp add: Let_def)

lemma BinarySearchBin_loop_result:
  "b \<le> e \<Longrightarrow> unat e \<le> length data \<Longrightarrow>
   \<exists>r. BinarySearchBin_loop p b e data fb fe = Inr r \<and>
     (r = - 1 \<or> (\<exists>i. b \<le> i \<and> i < e \<and> fb \<le> data ! unat i \<and> data ! unat i < fe \<and>
                     r = sint (data ! unat i)))"
proof (induction p b e data fb fe rule: BinarySearchBin_loop.induct)
  case (1 p b e data fb fe)
  show ?case
  proof (cases "e = b")
    case True
    then show ?thesis by (subst BinarySearchBin_loop.simps) simp
  next
    case ne: False
    define m where "m = b + (e - b) div 2"
    have mb: "b \<le> m" "m < e" using middle_between[OF 1(3) ne] by (simp_all add: m_def)
    have inb: "unat m < length data"
      using mb(2) 1(4) by (simp add: word_less_nat_alt)
    show ?thesis
    proof (cases "m = p")
      case True
      then show ?thesis using ne by (subst BinarySearchBin_loop.simps) (simp add: m_def Let_def)
    next
      case mp: False
      define g where "g = data ! unat m"
      show ?thesis
      proof (cases "fb \<le> g \<and> g < fe")
        case True
        have "BinarySearchBin_loop p b e data fb fe = Inr (sint g)"
          unfolding BinarySearchBin_loop_step[OF ne m_def mp inb g_def] using True by simp
        then show ?thesis using True mb g_def by blast
      next
        case nr: False
        show ?thesis
        proof (cases "g < fb")
          case True
          have eq: "BinarySearchBin_loop p b e data fb fe = BinarySearchBin_loop m m e data fb fe"
            unfolding BinarySearchBin_loop_step[OF ne m_def mp inb g_def] using nr True
            by (simp only: if_False if_True)
          have "m \<le> e" using mb(2) by simp
          have nin: "\<not> length data \<le> unat m" using inb by simp
          from 1(1)[OF ne m_def mp nin g_def nr True \<open>m \<le> e\<close> 1(4)]
          obtain r where r: "BinarySearchBin_loop m m e data fb fe = Inr r"
            "r = - 1 \<or> (\<exists>i. m \<le> i \<and> i < e \<and> fb \<le> data ! unat i \<and> data ! unat i < fe \<and>
                     r = sint (data ! unat i))"
            by blast
          have "r = - 1 \<or> (\<exists>i. b \<le> i \<and> i < e \<and> fb \<le> data ! unat i \<and> data ! unat i < fe \<and>
                     r = sint (data ! unat i))"
            using r(2) order_trans[OF mb(1)] by blast
          then show ?thesis unfolding eq using r(1) by blast
        next
          case False
          have eq: "BinarySearchBin_loop p b e data fb fe = BinarySearchBin_loop m b m data fb fe"
            unfolding BinarySearchBin_loop_step[OF ne m_def mp inb g_def] using nr False
            by (simp only: if_False if_True)
          have le: "unat m \<le> length data" using inb by simp
          have nin: "\<not> length data \<le> unat m" using inb by simp
          from 1(2)[OF ne m_def mp nin g_def nr False mb(1) le]
          obtain r where r: "BinarySearchBin_loop m b m data fb fe = Inr r"
            "r = - 1 \<or> (\<exists>i. b \<le> i \<and> i < m \<and> fb \<le> data ! unat i \<and> data ! unat i < fe \<and>
                     r = sint (data ! unat i))"
            by blast
          have "r = - 1 \<or> (\<exists>i. b \<le> i \<and> i < e \<and> fb \<le> data ! unat i \<and> data ! unat i < fe \<and>
                     r = sint (data ! unat i))"
            using r(2) order_less_trans[OF _ mb(2)] by blast
          then show ?thesis unfolding eq using r(1) by blast
        qed
      qed
    qed
  qed
qed


lemma sint_small:
  fixes g :: "32 word"
  assumes "uint g < 2 ^ 31"
  shows "sint g = uint g"
proof -
  have "- (2 ^ 31) \<le> uint g" by (rule order_trans[of _ 0]) simp_all
  then have "signed_take_bit 31 (uint g) = uint g"
    using assms by (intro signed_take_bit_int_eq_self) simp_all
  then show ?thesis by (simp add: sint_uint)
qed

text \<open>
  C9 (amended). For \<^verbatim>\<open>begin \<le> end\<close> and an index array that has the positions
  \<^verbatim>\<open>[begin, end)\<close>, \<^verbatim>\<open>BinarySearchBin\<close> returns, and its result is -1 or the \<^verbatim>\<open>int32_t\<close>
  conversion of an entry \<^verbatim>\<open>gidx\<close> at some position of \<^verbatim>\<open>[begin, end)\<close> with
  \<^verbatim>\<open>fidx_begin \<le> gidx < fidx_end\<close>. When \<^verbatim>\<open>fidx_end\<close> is at most \<open>2 ^ 31\<close> the conversion
  changes nothing: the result is -1 or lies in \<^verbatim>\<open>[fidx_begin, fidx_end)\<close>.
\<close>

theorem BinarySearchBin_result:
  "beg \<le> fin \<Longrightarrow> unat fin \<le> length data \<Longrightarrow>
   \<exists>r. BinarySearchBin beg fin data fidx_begin fidx_end = Inr r \<and>
     (r = - 1 \<or>
      (\<exists>i. beg \<le> i \<and> i < fin \<and> fidx_begin \<le> data ! unat i \<and> data ! unat i < fidx_end \<and>
           r = sint (data ! unat i))) \<and>
     (uint fidx_end \<le> 2 ^ 31 \<longrightarrow>
      r = - 1 \<or>
      (\<exists>i. beg \<le> i \<and> i < fin \<and> r = uint (data ! unat i) \<and>
           uint fidx_begin \<le> r \<and> r < uint fidx_end))"
proof -
  assume h: "beg \<le> fin" "unat fin \<le> length data"
  from BinarySearchBin_loop_result[OF h, of "- 1" fidx_begin fidx_end]
  obtain r where r: "BinarySearchBin beg fin data fidx_begin fidx_end = Inr r"
    "r = - 1 \<or>
      (\<exists>i. beg \<le> i \<and> i < fin \<and> fidx_begin \<le> data ! unat i \<and> data ! unat i < fidx_end \<and>
           r = sint (data ! unat i))"
    unfolding BinarySearchBin_def by blast
  have "r = - 1 \<or>
      (\<exists>i. beg \<le> i \<and> i < fin \<and> r = uint (data ! unat i) \<and>
           uint fidx_begin \<le> r \<and> r < uint fidx_end)" if small: "uint fidx_end \<le> 2 ^ 31"
  proof (cases "r = - 1")
    case True
    then show ?thesis by simp
  next
    case False
    then obtain i where i: "beg \<le> i" "i < fin" "fidx_begin \<le> data ! unat i"
      "data ! unat i < fidx_end" "r = sint (data ! unat i)"
      using r(2) by blast
    have lt: "uint (data ! unat i) < uint fidx_end" using i(4) by (simp add: word_less_def)
    then have "sint (data ! unat i) = uint (data ! unat i)" using small by (intro sint_small) simp
    moreover have "uint fidx_begin \<le> uint (data ! unat i)" using i(3) by (simp add: word_le_def)
    ultimately show ?thesis using i lt by auto
  qed
  then show ?thesis using r by blast
qed

lemma BinarySearchBin_1_3_7_9: "BinarySearchBin 0 4 row_1_3_7_9 5 8 = Inr 7"
  unfolding BinarySearchBin_def row_1_3_7_9_def
  by (subst BinarySearchBin_loop.simps) (simp add: Let_def)

theorem BinarySearchBin_result_witness:
  "(0 :: 64 word) \<le> 4 \<and> unat (4 :: 64 word) \<le> length row_1_3_7_9 \<and>
   uint (8 :: 32 word) \<le> 2 ^ 31 \<and>
   BinarySearchBin 0 4 row_1_3_7_9 5 8 = Inr 7 \<and>
   (\<exists>i :: 64 word. 0 \<le> i \<and> i < 4 \<and> 7 = uint (row_1_3_7_9 ! unat i) \<and>
        uint (5 :: 32 word) \<le> 7 \<and> 7 < uint (8 :: 32 word))"
proof -
  have a: "(0 :: 64 word) \<le> 4" by simp
  have b: "unat (4 :: 64 word) \<le> length row_1_3_7_9" by (simp add: row_1_3_7_9_def)
  have c: "uint (8 :: 32 word) \<le> 2 ^ 31" by simp
  from BinarySearchBin_result[OF a b, of 5 8] c
  show ?thesis using a b by (simp add: BinarySearchBin_1_3_7_9)
qed

theorem BinarySearchBin_cast_counterexample:
  "BinarySearchBin 0 1 [2147483648] 0 4294967295 = Inr (- 2147483648) \<and>
   (- 2147483648 :: int) \<noteq> - 1 \<and>
   \<not> (uint (0 :: 32 word) \<le> (- 2147483648 :: int))"
  unfolding BinarySearchBin_def
  by (subst BinarySearchBin_loop.simps) (simp add: Let_def)

section \<open>The compressed bin index: results\<close>

lemma take_bit_small:
  fixes v :: "32 word" assumes "unat v < 2 ^ n"
  shows "take_bit n v = v"
proof -
  have "unat (take_bit n v) = take_bit n (unat v)" by (rule unsigned_take_bit_eq)
  also have "\<dots> = unat v" using assms by (simp add: take_bit_nat_eq_self_iff)
  finally show ?thesis by (simp add: word_unat_eq_iff)
qed

lemma bytes_8: fixes v :: "32 word" assumes "unat v < 2 ^ 8"
  shows "ucast (ucast v :: 8 word) = v"
proof -
  have "(ucast (ucast v :: 8 word) :: 32 word) = take_bit 8 v"
    by (rule bit_word_eqI) (auto simp: bit_simps)
  then show ?thesis using take_bit_small[OF assms] by simp
qed

lemma bytes_16: fixes v :: "32 word" assumes "unat v < 2 ^ 16"
  shows "ucast (ucast v :: 8 word) OR push_bit 8 (ucast (ucast (drop_bit 8 v) :: 8 word)) = v"
proof -
  have "(ucast (ucast v :: 8 word) OR push_bit 8 (ucast (ucast (drop_bit 8 v) :: 8 word)) :: 32 word) = take_bit 16 v"
    by (rule bit_word_eqI) (auto simp: bit_simps)
  then show ?thesis using take_bit_small[OF assms] by simp
qed

lemma bytes_32: fixes v :: "32 word"
  shows "ucast (ucast v :: 8 word) OR push_bit 8 (ucast (ucast (drop_bit 8 v) :: 8 word))
     OR push_bit 16 (ucast (ucast (drop_bit 16 v) :: 8 word))
     OR push_bit 24 (ucast (ucast (drop_bit 24 v) :: 8 word)) = v"
proof (rule bit_word_eqI)
  fix n assume "n < LENGTH(32)"
  then consider "n < 8" | "8 \<le> n \<and> n < 16" | "16 \<le> n \<and> n < 24" | "24 \<le> n \<and> n < 32"
    by fastforce
  then show "bit (ucast (ucast v :: 8 word) OR push_bit 8 (ucast (ucast (drop_bit 8 v) :: 8 word))
     OR push_bit 16 (ucast (ucast (drop_bit 16 v) :: 8 word))
     OR push_bit 24 (ucast (ucast (drop_bit 24 v) :: 8 word)) :: 32 word) n = bit v n"
    by cases (auto simp: bit_simps)
qed

text \<open>Storing an element and decoding it again.\<close>

lemma store_bin_func:
  assumes ptr: "Index_data_ptr idx" and i: "i < Size idx"
    and v: "unat v < 2 ^ (8 * type_size (Index_binTypeSize idx))"
  shows "\<exists>idx'. store_bin i v idx = Inr idx' \<and> Index_func idx' i = Inr v \<and>
     Index_offset idx' = Index_offset idx \<and> Index_p idx' = Index_p idx \<and>
     Index_offset_ptr idx' = Index_offset_ptr idx"
proof (cases "Index_binTypeSize idx")
  case kUint8BinsTypeSize
  then have len: "i < length (Index_data idx)" using i by (simp add: Size_def)
  have "unat v < 2 ^ 8" using v kUint8BinsTypeSize by simp
  then show ?thesis using ptr len kUint8BinsTypeSize
    by (simp add: store_bin_def Index_func_def GetValueFromUint8_def bytes_8 not_less)
next
  case kUint16BinsTypeSize
  then have len: "2 * i + 2 \<le> length (Index_data idx)" using i by (simp add: Size_def)
  have "unat v < 2 ^ 16" using v kUint16BinsTypeSize by simp
  then show ?thesis using ptr len kUint16BinsTypeSize
    by (simp add: store_bin_def Index_func_def GetValueFromUint16_def bytes_16 not_less)
next
  case kUint32BinsTypeSize
  then have len: "4 * i + 4 \<le> length (Index_data idx)" using i by (simp add: Size_def)
  show ?thesis using ptr len kUint32BinsTypeSize
    by (simp add: store_bin_def Index_func_def GetValueFromUint32_def bytes_32 not_less)
qed


text \<open>
  C3. In every width, storing a value that the width can represent at a position of the
  buffer and reading the position back through \<^verbatim>\<open>operator[]\<close> returns the value when no
  offset table is present, and the value plus \<^verbatim>\<open>offset[i mod p]\<close> (a 32-bit sum) when
  an offset table of size \<open>p\<close> is present.
\<close>

theorem Index_round_trip:
  "Index_data_ptr idx \<Longrightarrow> i < Size idx \<Longrightarrow>
   unat v < 2 ^ (8 * type_size (Index_binTypeSize idx)) \<Longrightarrow>
   \<exists>idx'. store_bin i v idx = Inr idx' \<and>
     (\<not> Index_offset_ptr idx \<longrightarrow> Index_at idx' i = Inr v) \<and>
     (Index_offset_ptr idx \<and> 0 < Index_p idx \<and> Index_p idx = OffsetSize idx \<longrightarrow>
        Index_at idx' i = Inr (v + Index_offset idx ! (i mod Index_p idx)))"
proof -
  assume h: "Index_data_ptr idx" "i < Size idx"
    "unat v < 2 ^ (8 * type_size (Index_binTypeSize idx))"
  from store_bin_func[OF h] obtain idx' where s: "store_bin i v idx = Inr idx'"
    "Index_func idx' i = Inr v" "Index_offset idx' = Index_offset idx"
    "Index_p idx' = Index_p idx" "Index_offset_ptr idx' = Index_offset_ptr idx"
    by blast
  have "\<not> Index_offset_ptr idx \<longrightarrow> Index_at idx' i = Inr v"
    using s by (simp add: Index_at_def)
  moreover have "Index_offset_ptr idx \<and> 0 < Index_p idx \<and> Index_p idx = OffsetSize idx \<longrightarrow>
        Index_at idx' i = Inr (v + Index_offset idx ! (i mod Index_p idx))"
  proof
    assume o: "Index_offset_ptr idx \<and> 0 < Index_p idx \<and> Index_p idx = OffsetSize idx"
    then have "i mod Index_p idx < Index_p idx" by (intro mod_less_divisor) simp
    then have "i mod Index_p idx < length (Index_offset idx)" using o by (simp add: OffsetSize_def)
    then show "Index_at idx' i = Inr (v + Index_offset idx ! (i mod Index_p idx))"
      using s o by (simp add: Index_at_def)
  qed
  ultimately show ?thesis using s(1) by blast
qed

theorem Index_round_trip_witness:
  "Index_data_ptr index_16 \<and> 3 < Size index_16 \<and>
   unat (513 :: 32 word) < 2 ^ (8 * type_size (Index_binTypeSize index_16)) \<and>
   Index_offset_ptr index_16 \<and> 0 < Index_p index_16 \<and> Index_p index_16 = OffsetSize index_16 \<and>
   (\<exists>idx'. store_bin 3 513 index_16 = Inr idx' \<and> Index_data idx' = [0, 0, 0, 0, 0, 0, 1, 2] \<and>
      Index_at idx' 3 = Inr 713)"
proof -
  have a: "Index_data_ptr index_16" by (simp add: index_16_def)
  have b: "3 < Size index_16" by (simp add: index_16_def Size_def)
  have c: "unat (513 :: 32 word) < 2 ^ (8 * type_size (Index_binTypeSize index_16))"
    by (simp add: index_16_def)
  have d: "Index_offset_ptr index_16 \<and> 0 < Index_p index_16 \<and> Index_p index_16 = OffsetSize index_16"
    by (simp add: index_16_def OffsetSize_def)
  have e: "Index_offset index_16 ! (3 mod Index_p index_16) = 200"
    by (simp add: index_16_def)
  have f: "store_bin 3 513 index_16 =
      Inr (index_16\<lparr>Index_data := [0, 0, 0, 0, 0, 0, 1, 2]\<rparr>)"
    by (simp add: store_bin_def index_16_def)
  from Index_round_trip[OF a b c] d e f
  show ?thesis using a b c by auto
qed

lemma length_vector_resize: "length (vector_resize n x xs) = n"
  by (simp add: vector_resize_def)

lemma vector_resize_Nil_5: "vector_resize 5 x [] = [x, x, x, x, x]"
  by (simp add: vector_resize_def numeral_eq_Suc)

lemma vector_resize_Nil_3: "vector_resize 3 x [] = [x, x, x]"
  by (simp add: vector_resize_def numeral_eq_Suc)

lemma max_size_small: "(5 :: nat) \<le> max_size 1" "(3 :: nat) \<le> max_size 4"
  by (simp_all add: max_size_def)

text \<open>
  C8 (amended). \<^verbatim>\<open>Index::Resize\<close> and \<^verbatim>\<open>Index::ResizeOffset\<close> are independent and compare
  nothing: up to the vector's \<^verbatim>\<open>max_size()\<close>, \<^verbatim>\<open>Resize(n)\<close> succeeds, gives the buffer
  \<open>n\<close> bytes and leaves the offset table and \<^verbatim>\<open>p_\<close> as they are, and \<^verbatim>\<open>ResizeOffset(n)\<close>
  succeeds, gives the offset table \<open>n\<close> entries, sets \<^verbatim>\<open>p_\<close> to \<open>n\<close> and leaves the buffer
  as it is.
\<close>

theorem Resize_independent:
  "(nBytesData \<le> max_size 1 \<longrightarrow>
      (\<exists>idx'. Resize nBytesData idx = Inr idx' \<and>
         length (Index_data idx') = nBytesData \<and>
         Size idx' = nBytesData div type_size (Index_binTypeSize idx) \<and>
         Index_offset idx' = Index_offset idx \<and> OffsetSize idx' = OffsetSize idx \<and>
         Index_p idx' = Index_p idx \<and> Index_offset_ptr idx' = Index_offset_ptr idx)) \<and>
   (nDisps \<le> max_size 4 \<longrightarrow>
      (\<exists>idx'. ResizeOffset nDisps idx = Inr idx' \<and>
         OffsetSize idx' = nDisps \<and> Index_p idx' = nDisps \<and>
         Index_data idx' = Index_data idx \<and> Size idx' = Size idx))"
  by (simp add: Resize_def ResizeOffset_def Size_def OffsetSize_def length_vector_resize not_less)

theorem Resize_independent_witness:
  "(5 :: nat) \<le> max_size 1 \<and> (3 :: nat) \<le> max_size 4 \<and>
   (\<exists>idx'. Resize 5 index_16 = Inr idx' \<and> Size idx' = 2 \<and> OffsetSize idx' = 2) \<and>
   (\<exists>idx'. ResizeOffset 3 index_16 = Inr idx' \<and> Size idx' = 4 \<and> OffsetSize idx' = 3)"
proof -
  note a = max_size_small
  have b: "type_size (Index_binTypeSize index_16) = 2" "OffsetSize index_16 = 2" "Size index_16 = 4"
    by (simp_all add: index_16_def OffsetSize_def Size_def)
  have c: "(5 :: nat) div 2 = 2" by simp
  from Resize_independent[of 5 index_16 3, unfolded b c] a
  obtain i1 i2 where "Resize 5 index_16 = Inr i1" "Size i1 = 2" "OffsetSize i1 = 2"
    "ResizeOffset 3 index_16 = Inr i2" "Size i2 = 4" "OffsetSize i2 = 3"
    by blast
  then show ?thesis using a by simp
qed

theorem Resize_unchecked_counterexample:
  "ResizeOffset 3 Index_new =
     Inr \<lparr>Index_data = [], Index_offset = [0, 0, 0], Index_data_ptr = False,
          Index_binTypeSize = kUint8BinsTypeSize, Index_p = 3, Index_offset_ptr = True\<rparr> \<and>
   Resize 5 \<lparr>Index_data = [], Index_offset = [0, 0, 0], Index_data_ptr = False,
          Index_binTypeSize = kUint8BinsTypeSize, Index_p = 3, Index_offset_ptr = True\<rparr> =
     Inr \<lparr>Index_data = [0, 0, 0, 0, 0], Index_offset = [0, 0, 0], Index_data_ptr = True,
          Index_binTypeSize = kUint8BinsTypeSize, Index_p = 3, Index_offset_ptr = True\<rparr> \<and>
   Size \<lparr>Index_data = [0, 0, 0, 0, 0], Index_offset = [0, 0, 0], Index_data_ptr = True,
          Index_binTypeSize = kUint8BinsTypeSize, Index_p = 3, Index_offset_ptr = True\<rparr> = 5 \<and>
   OffsetSize \<lparr>Index_data = [0, 0, 0, 0, 0], Index_offset = [0, 0, 0], Index_data_ptr = True,
          Index_binTypeSize = kUint8BinsTypeSize, Index_p = 3, Index_offset_ptr = True\<rparr> = 3"
  using max_size_small
  by (simp add: ResizeOffset_def Resize_def Index_new_def SetBinTypeSize_def vector_resize_Nil_5
      vector_resize_Nil_3 Size_def OffsetSize_def not_less)

section \<open>The histogram collection: results\<close>

lemma hc_apply_keeps:
  assumes "hc_apply op hc = Inr hc'" "length (hc_row_ptr hc) < 2 ^ 32"
  shows "length (hc_row_ptr hc') < 2 ^ 32 \<and> hc_nbins hc' = hc_nbins hc"
proof (cases op)
  case (OpAddHistRow nid)
  have "((nid + 1) mod 2 ^ 32 :: nat) < 2 ^ 32" by simp
  then show ?thesis using assms OpAddHistRow
    by (auto simp: AddHistRow_def Let_def length_vector_resize split: if_splits)
next
  case (OpAllocateData nid)
  then show ?thesis using assms
    by (auto simp: AllocateData_def Let_def split: if_splits)
next
  case OpAllocateAllData
  then show ?thesis using assms
    by (auto simp: AllocateAllData_def Let_def split: if_splits)
qed

lemma AddHistRow_bound:
  assumes "AddHistRow nid hc = Inr hc'" "length (hc_row_ptr hc) < 2 ^ 32"
  shows "nid + 1 < 2 ^ 32"
proof (rule ccontr)
  assume "\<not> nid + 1 < 2 ^ 32"
  then have big: "(2 :: nat) ^ 32 \<le> nid + 1" by simp
  then have "length (hc_row_ptr hc) \<le> nid" using assms(2) by simp
  moreover have "(nid + 1) mod 2 ^ 32 \<le> nid"
  proof -
    have "(nid + 1) mod 2 ^ 32 \<le> nid + 1 - 2 ^ 32"
      using big by (metis le_mod_geq mod_less_eq_dividend)
    then show ?thesis by simp
  qed
  ultimately show False using assms(1)
    by (simp add: AddHistRow_def Let_def length_vector_resize split: if_splits)
qed

lemma hc_run_keeps:
  "fold_err hc_apply ops hc = Inr hc' \<Longrightarrow> length (hc_row_ptr hc) < 2 ^ 32 \<Longrightarrow>
   hc_nbins hc' = hc_nbins hc \<and> (\<forall>nid. OpAddHistRow nid \<in> set ops \<longrightarrow> nid + 1 < 2 ^ 32)"
proof (induction ops arbitrary: hc)
  case Nil
  then show ?case by simp
next
  case (Cons op ops)
  from Cons.prems(1) obtain hc1 where s: "hc_apply op hc = Inr hc1" "fold_err hc_apply ops hc1 = Inr hc'"
    by (auto split: sum.splits)
  note k = hc_apply_keeps[OF s(1) Cons.prems(2)]
  have ih: "hc_nbins hc' = hc_nbins hc1 \<and> (\<forall>nid. OpAddHistRow nid \<in> set ops \<longrightarrow> nid + 1 < 2 ^ 32)"
    using Cons.IH[OF s(2)] k by simp
  have "\<And>nid. op = OpAddHistRow nid \<Longrightarrow> nid + 1 < 2 ^ 32"
    using s(1) AddHistRow_bound[OF _ Cons.prems(2)] by simp
  then show ?case using ih k by auto
qed

lemma AddHistRow_after_Init:
  assumes "nid + 1 < 2 ^ 32"
  shows "\<exists>hc'. AddHistRow nid (HistCollection_Init nbins hc) = Inr hc'"
proof -
  have m: "(nid + 1) mod 2 ^ 32 = nid + 1" using assms by simp
  have "replicate (Suc nid) kMax ! nid = kMax" by (rule nth_replicate) simp
  then have "vector_resize (nid + 1) kMax [] ! nid = kMax"
    by (simp add: vector_resize_def del: replicate_Suc)
  then show ?thesis
    using m by (simp add: AddHistRow_def HistCollection_Init_def Let_def length_vector_resize)
qed

text \<open>
  C6. After \<^verbatim>\<open>Init(nbins)\<close> and any operations on the collection that succeeded, among
  them \<^verbatim>\<open>AddHistRow(nid)\<close>, a second \<^verbatim>\<open>Init\<close> with the same bin count leaves \<^verbatim>\<open>data_\<close> as it
  is and resets the registration: \<^verbatim>\<open>RowExists(nid)\<close> is false and \<^verbatim>\<open>AddHistRow(nid)\<close> succeeds
  again.
\<close>

theorem Init_twice:
  "hc1 = HistCollection_Init nbins hc0 \<Longrightarrow> fold_err hc_apply ops hc1 = Inr hc2 \<Longrightarrow>
   OpAddHistRow nid \<in> set ops \<Longrightarrow>
   hc_data (HistCollection_Init nbins hc2) = hc_data hc2 \<and>
   \<not> RowExists nid (HistCollection_Init nbins hc2) \<and>
   (\<exists>hc3. AddHistRow nid (HistCollection_Init nbins hc2) = Inr hc3)"
proof -
  assume h: "hc1 = HistCollection_Init nbins hc0" "fold_err hc_apply ops hc1 = Inr hc2"
    "OpAddHistRow nid \<in> set ops"
  have l: "length (hc_row_ptr hc1) < 2 ^ 32" "hc_nbins hc1 = nbins"
    using h(1) by (simp_all add: HistCollection_Init_def Let_def)
  from hc_run_keeps[OF h(2) l(1)] h(3) l(2)
  have n: "hc_nbins hc2 = nbins" and b: "nid + 1 < 2 ^ 32" by auto
  have "hc_data (HistCollection_Init nbins hc2) = hc_data hc2"
    using n by (simp add: HistCollection_Init_def Let_def)
  moreover have "\<not> RowExists nid (HistCollection_Init nbins hc2)"
    by (simp add: RowExists_def HistCollection_Init_def Let_def)
  ultimately show ?thesis using AddHistRow_after_Init[OF b] by blast
qed


lemma hc_one_row_run:
  "fold_err hc_apply [OpAddHistRow 0, OpAllocateData 0]
     (HistCollection_Init 3 HistCollection_new) = Inr hc_one_row"
  by (simp add: HistCollection_Init_def HistCollection_new_def AddHistRow_def AllocateData_def
      vector_resize_def hc_one_row_def kMax_def numeral_3_eq_3)

theorem Init_twice_witness:
  "fold_err hc_apply [OpAddHistRow 0, OpAllocateData 0]
     (HistCollection_Init 3 HistCollection_new) = Inr hc_one_row \<and>
   OpAddHistRow 0 \<in> set [OpAddHistRow 0, OpAllocateData 0] \<and>
   RowExists 0 hc_one_row \<and>
   hc_data (HistCollection_Init 3 hc_one_row) = [[0, 0, 0]] \<and>
   \<not> RowExists 0 (HistCollection_Init 3 hc_one_row) \<and>
   (\<exists>hc3. AddHistRow 0 (HistCollection_Init 3 hc_one_row) = Inr hc3)"
proof -
  have a: "OpAddHistRow 0 \<in> set [OpAddHistRow 0, OpAllocateData 0]" by simp
  have b: "RowExists 0 hc_one_row" by (simp add: RowExists_def hc_one_row_def kMax_def)
  have c: "hc_data hc_one_row = [[0, 0, 0]]" by (simp add: hc_one_row_def)
  from Init_twice[OF refl hc_one_row_run a]
  show ?thesis using hc_one_row_run a b c by simp
qed

section \<open>The assignment of histograms to threads: results\<close>

lemma ebind_Inr [simp]: "ebind (Inr x) f = f x"
  by (simp add: ebind_def)

lemma ebind_Inl [simp]: "ebind (Inl e) f = Inl e"
  by (simp add: ebind_def)

lemma ebind_eq_Inr: "(ebind m f = Inr y) = (\<exists>x. m = Inr x \<and> f x = Inr y)"
  by (cases m) simp_all

lemma fold_err_append:
  "fold_err f (xs @ ys) s = ebind (fold_err f xs s) (fold_err f ys)"
  by (induction xs arbitrary: s) (auto split: sum.splits)

lemma fold_err_single: "fold_err f [x] = f x"
proof
  fix s show "fold_err f [x] s = f x s" by (cases "f x s") simp_all
qed

lemma fold_err_snoc:
  "fold_err f (xs @ [x]) s = ebind (fold_err f xs s) (f x)"
  by (simp add: fold_err_append fold_err_single)

text \<open>Counting the threads of a node.\<close>

lemma touch_Suc:
  "touch m (Suc t) nodes nid =
     (if m ! (t * nodes + nid) then touch m t nodes nid @ [t] else touch m t nodes nid)"
  by (simp add: touch_def)

lemma touch_0 [simp]: "touch m 0 nodes nid = []"
  by (simp add: touch_def)

lemma set_touch: "set (touch m t nodes nid) = {tid. tid < t \<and> m ! (tid * nodes + nid)}"
  by (auto simp: touch_def)

lemma length_touch_le: "length (touch m t nodes nid) \<le> t"
  using length_filter_le[of _ "[0..<t]"] by (simp add: touch_def)

lemma nthreads_for_nid_eq:
  "nthreads_for_nid m nthreads nodes nid = int (length (touch m nthreads nodes nid))"
proof -
  have "fold (\<lambda>tid c. if m ! (tid * nodes + nid) then c + 1 else c) [0..<t] c
        = c + int (length (touch m t nodes nid))" for t and c :: int
    by (induction t arbitrary: c) (simp_all add: touch_Suc)
  then show ?thesis by (simp add: nthreads_for_nid_def)
qed

lemma additional_count:
  "fold (\<lambda>nid k. k + nat (max 0 (nthreads_for_nid m nthreads nodes nid - 1))) [0..<n] 0
   = sum_list (map (\<lambda>nid. length (touch m nthreads nodes nid) - 1) [0..<n])"
proof (induction n)
  case 0
  then show ?case by simp
next
  case (Suc n)
  have "nat (max 0 (nthreads_for_nid m nthreads nodes n - 1)) = length (touch m nthreads nodes n) - 1"
    by (simp add: nthreads_for_nid_eq)
  then show ?case using Suc by simp
qed

text \<open>The rows that \<^verbatim>\<open>AllocateAdditionalHistograms\<close> adds to a collection just initialised.\<close>

lemma vector_resize_grow:
  "length xs \<le> n \<Longrightarrow> vector_resize n x xs = xs @ replicate (n - length xs) x"
  by (simp add: vector_resize_def)

lemma add_rows:
  assumes "hc_row_ptr hc = []" "hc_n_nodes_added hc = 0" "k < 2 ^ 32"
  shows "fold_err (\<lambda>i. AddHistRow (i mod 2 ^ 32)) [0..<k] hc =
     Inr (hc\<lparr>hc_data := hc_data hc @ replicate (k - length (hc_data hc)) [],
             hc_row_ptr := [0..<k], hc_n_nodes_added := k\<rparr>)"
  using assms(3)
proof (induction k)
  case 0
  then show ?case using assms(1,2) by simp
next
  case (Suc k)
  let ?d = "hc_data hc @ replicate (k - length (hc_data hc)) []"
  let ?s = "hc\<lparr>hc_data := ?d, hc_row_ptr := [0..<k], hc_n_nodes_added := k\<rparr>"
  have ih: "fold_err (\<lambda>i. AddHistRow (i mod 2 ^ 32)) [0..<k] hc = Inr ?s"
    using Suc by simp
  have km: "k mod 4294967296 = k" "Suc k mod 4294967296 = Suc k" using Suc.prems by simp_all
  have rp: "vector_resize (Suc k) kMax [0..<k] = [0..<k] @ [kMax]"
    by (simp add: vector_resize_grow)
  have nk: "([0..<k] @ [kMax]) ! k = kMax" "([0..<k] @ [kMax])[k := k] = [0..<k] @ [k]"
    by (simp_all add: nth_append list_update_append)
  have step: "AddHistRow k ?s =
     Inr (hc\<lparr>hc_data := hc_data hc @ replicate (Suc k - length (hc_data hc)) [],
             hc_row_ptr := [0..<Suc k], hc_n_nodes_added := Suc k\<rparr>)"
  proof (cases "length (hc_data hc) \<le> k")
    case True
    then have "vector_resize (Suc k) [] ?d = ?d @ [[]]"
      by (simp add: vector_resize_grow)
    also have "\<dots> = hc_data hc @ replicate (Suc k - length (hc_data hc)) []"
      using True by (simp add: Suc_diff_le replicate_append_same)
    finally have "vector_resize (Suc k) [] ?d = hc_data hc @ replicate (Suc k - length (hc_data hc)) []" .
    then show ?thesis using True by (simp add: AddHistRow_def Let_def km rp nk)
  next
    case False
    then have "Suc k - length (hc_data hc) = 0" "k - length (hc_data hc) = 0" by simp_all
    then show ?thesis using False by (simp add: AddHistRow_def Let_def km rp nk)
  qed
  show ?case
    using ih step km by (simp add: fold_err_snoc)
qed


text \<open>The inner loop of \<^verbatim>\<open>MatchNodeNidPairToHist\<close>, thread by thread.\<close>

lemma touch_less: "tid \<in> set (touch m t nodes nid) \<Longrightarrow> tid < t"
  by (simp add: set_touch)

lemma match_inner:
  fixes m :: "bool list" and nodes nid k :: nat and mp :: "nat \<times> nat \<Rightarrow> int option"
  defines "step \<equiv> (\<lambda>tid (mp, k, first_hist).
           if m ! (tid * nodes + nid) then
             (if first_hist then (mp((tid, nid) \<mapsto> - 1), k, False)
              else (mp((tid, nid) \<mapsto> size_to_int k), k + 1, False))
           else (mp, k, first_hist))"
  shows "\<exists>mp'. fold step [0..<t] (mp, k, True) =
            (mp', k + (length (touch m t nodes nid) - 1), touch m t nodes nid = []) \<and>
          (\<forall>j < length (touch m t nodes nid).
             mp' (touch m t nodes nid ! j, nid) =
               Some (if j = 0 then - 1 else size_to_int (k + j - 1))) \<and>
          (\<forall>tid n. n \<noteq> nid \<or> tid \<notin> set (touch m t nodes nid) \<longrightarrow> mp' (tid, n) = mp (tid, n))"
proof (induction t)
  case 0
  show ?case by simp
next
  case (Suc t)
  let ?ts = "touch m t nodes nid"
  from Suc obtain mp1 where
    f: "fold step [0..<t] (mp, k, True) = (mp1, k + (length ?ts - 1), ?ts = [])"
    and pos: "\<forall>j < length ?ts. mp1 (?ts ! j, nid) = Some (if j = 0 then - 1 else size_to_int (k + j - 1))"
    and oth: "\<forall>tid n. n \<noteq> nid \<or> tid \<notin> set ?ts \<longrightarrow> mp1 (tid, n) = mp (tid, n)"
    by blast
  have fs: "fold step [0..<Suc t] (mp, k, True) = step t (mp1, k + (length ?ts - 1), ?ts = [])"
    using f by simp
  have tn: "t \<notin> set ?ts" using touch_less by blast
  show ?case
  proof (cases "m ! (t * nodes + nid)")
    case False
    then have "touch m (Suc t) nodes nid = ?ts" by (simp add: touch_Suc)
    moreover have "step t (mp1, k + (length ?ts - 1), ?ts = []) = (mp1, k + (length ?ts - 1), ?ts = [])"
      using False by (simp add: step_def)
    ultimately show ?thesis using fs pos oth by auto
  next
    case True
    then have ts': "touch m (Suc t) nodes nid = ?ts @ [t]" by (simp add: touch_Suc)
    show ?thesis
    proof (cases "?ts = []")
      case e: True
      have "step t (mp1, k + (length ?ts - 1), ?ts = []) = (mp1((t, nid) \<mapsto> - 1), k, False)"
        using True e by (simp add: step_def)
      then show ?thesis using fs ts' e oth by auto
    next
      case ne: False
      then have l: "0 < length ?ts" by simp
      have st: "step t (mp1, k + (length ?ts - 1), ?ts = []) =
          (mp1((t, nid) \<mapsto> size_to_int (k + (length ?ts - 1))), k + length ?ts, False)"
        using True ne l by (simp add: step_def)
      let ?mp' = "mp1((t, nid) \<mapsto> size_to_int (k + (length ?ts - 1)))"
      have p': "\<forall>j < length (?ts @ [t]). ?mp' ((?ts @ [t]) ! j, nid) =
            Some (if j = 0 then - 1 else size_to_int (k + j - 1))"
      proof (intro allI impI)
        fix j assume j: "j < length (?ts @ [t])"
        show "?mp' ((?ts @ [t]) ! j, nid) = Some (if j = 0 then - 1 else size_to_int (k + j - 1))"
        proof (cases "j < length ?ts")
          case True
          then have "?ts ! j \<noteq> t" using tn nth_mem by metis
          then show ?thesis using True pos by (simp add: nth_append)
        next
          case False
          then have "j = length ?ts" using j by simp
          moreover have "k + (length ?ts - 1) = k + length ?ts - 1" using l by linarith
          ultimately show ?thesis using ne by (simp add: nth_append)
        qed
      qed
      have o': "\<forall>tid n. n \<noteq> nid \<or> tid \<notin> set (?ts @ [t]) \<longrightarrow> ?mp' (tid, n) = mp (tid, n)"
        using oth by auto
      have "fold step [0..<Suc t] (mp, k, True) =
          (?mp', k + (length (?ts @ [t]) - 1), ?ts @ [t] = [])"
        unfolding fs st by simp
      then show ?thesis unfolding ts' using p' o' by blast
    qed
  qed
qed

lemma match_node_result:
  "\<exists>mp'. match_node m nthreads nodes nid (mp, k) =
            (mp', k + (length (touch m nthreads nodes nid) - 1)) \<and>
          (\<forall>j < length (touch m nthreads nodes nid).
             mp' (touch m nthreads nodes nid ! j, nid) =
               Some (if j = 0 then - 1 else size_to_int (k + j - 1))) \<and>
          (\<forall>tid n. n \<noteq> nid \<or> tid \<notin> set (touch m nthreads nodes nid) \<longrightarrow>
             mp' (tid, n) = mp (tid, n))"
proof -
  from match_inner[of m nodes nid nthreads mp k] obtain mp' where
    f: "fold (\<lambda>tid (mp, k, first_hist).
           if m ! (tid * nodes + nid) then
             (if first_hist then (mp((tid, nid) \<mapsto> - 1), k, False)
              else (mp((tid, nid) \<mapsto> size_to_int k), k + 1, False))
           else (mp, k, first_hist)) [0..<nthreads] (mp, k, True) =
            (mp', k + (length (touch m nthreads nodes nid) - 1), touch m nthreads nodes nid = [])"
    and r: "\<forall>j < length (touch m nthreads nodes nid).
             mp' (touch m nthreads nodes nid ! j, nid) =
               Some (if j = 0 then - 1 else size_to_int (k + j - 1))"
      "\<forall>tid n. n \<noteq> nid \<or> tid \<notin> set (touch m nthreads nodes nid) \<longrightarrow> mp' (tid, n) = mp (tid, n)"
    by blast
  have "match_node m nthreads nodes nid (mp, k) =
      (mp', k + (length (touch m nthreads nodes nid) - 1))"
    unfolding match_node_def using f by simp
  then show ?thesis using r by blast
qed


text \<open>The outer loop of \<^verbatim>\<open>MatchNodeNidPairToHist\<close>, node by node.\<close>

lemma base_of_Suc:
  "base_of m nthreads nodes (Suc n) =
     base_of m nthreads nodes n + (length (touch m nthreads nodes n) - 1)"
  by (simp add: base_of_def)

lemma match_outer:
  "\<exists>mp'. fold (match_node m nthreads nodes) [0..<n] (mp, 0) = (mp', base_of m nthreads nodes n) \<and>
     (\<forall>nid < n. \<forall>j < length (touch m nthreads nodes nid).
        mp' (touch m nthreads nodes nid ! j, nid) =
          Some (if j = 0 then - 1 else size_to_int (base_of m nthreads nodes nid + j - 1))) \<and>
     (\<forall>tid nid. n \<le> nid \<or> tid \<notin> set (touch m nthreads nodes nid) \<longrightarrow>
        mp' (tid, nid) = mp (tid, nid))"
proof (induction n)
  case 0
  show ?case by (simp add: base_of_def)
next
  case (Suc n)
  let ?b = "base_of m nthreads nodes"
  let ?ts = "touch m nthreads nodes"
  from Suc obtain mp1 where
    f: "fold (match_node m nthreads nodes) [0..<n] (mp, 0) = (mp1, ?b n)"
    and pos: "\<forall>nid < n. \<forall>j < length (?ts nid).
        mp1 (?ts nid ! j, nid) = Some (if j = 0 then - 1 else size_to_int (?b nid + j - 1))"
    and oth: "\<forall>tid nid. n \<le> nid \<or> tid \<notin> set (?ts nid) \<longrightarrow> mp1 (tid, nid) = mp (tid, nid)"
    by blast
  from match_node_result[of m nthreads nodes n mp1 "?b n"] obtain mp' where
    g: "match_node m nthreads nodes n (mp1, ?b n) = (mp', ?b n + (length (?ts n) - 1))"
    and pos': "\<forall>j < length (?ts n). mp' (?ts n ! j, n) =
        Some (if j = 0 then - 1 else size_to_int (?b n + j - 1))"
    and oth': "\<forall>tid nid. nid \<noteq> n \<or> tid \<notin> set (?ts n) \<longrightarrow> mp' (tid, nid) = mp1 (tid, nid)"
    by blast
  have 1: "fold (match_node m nthreads nodes) [0..<Suc n] (mp, 0) = (mp', ?b (Suc n))"
    using f g by (simp add: base_of_Suc)
  have 2: "\<forall>nid < Suc n. \<forall>j < length (?ts nid).
        mp' (?ts nid ! j, nid) = Some (if j = 0 then - 1 else size_to_int (?b nid + j - 1))"
  proof (intro allI impI)
    fix nid j assume h: "nid < Suc n" "j < length (?ts nid)"
    show "mp' (?ts nid ! j, nid) = Some (if j = 0 then - 1 else size_to_int (?b nid + j - 1))"
    proof (cases "nid = n")
      case True
      then show ?thesis using pos' h by simp
    next
      case False
      then have "nid < n" using h by simp
      then show ?thesis using pos oth' False h by simp
    qed
  qed
  have 3: "\<forall>tid nid. Suc n \<le> nid \<or> tid \<notin> set (?ts nid) \<longrightarrow> mp' (tid, nid) = mp (tid, nid)"
  proof (intro allI impI)
    fix tid nid assume h: "Suc n \<le> nid \<or> tid \<notin> set (?ts nid)"
    show "mp' (tid, nid) = mp (tid, nid)"
    proof (cases "nid = n")
      case True
      then have "tid \<notin> set (?ts n)" using h by auto
      then have "mp' (tid, nid) = mp1 (tid, nid)" using oth' by simp
      then show ?thesis using oth True by simp
    next
      case False
      then have "mp' (tid, nid) = mp1 (tid, nid)" using oth' by simp
      moreover have "n \<le> nid \<or> tid \<notin> set (?ts nid)" using h by auto
      ultimately show ?thesis using oth by simp
    qed
  qed
  show ?case using 1 2 3 by blast
qed

lemma base_of_le: "base_of m nthreads nodes n \<le> n * nthreads"
proof (induction n)
  case 0
  show ?case by (simp add: base_of_def)
next
  case (Suc n)
  have "length (touch m nthreads nodes n) - 1 \<le> nthreads"
    using length_touch_le[of m nthreads nodes n] by simp
  then show ?case using Suc by (simp add: base_of_Suc)
qed

lemma base_of_mono: "a \<le> b \<Longrightarrow> base_of m nthreads nodes a \<le> base_of m nthreads nodes b"
  by (induction b) (auto simp: base_of_Suc le_Suc_eq)

text \<open>Loops that can fail preserve what each step preserves.\<close>

lemma fold_err_inv:
  assumes "fold_err f xs s = Inr s'" "P s"
    and "\<And>x a b. x \<in> set xs \<Longrightarrow> P a \<Longrightarrow> f x a = Inr b \<Longrightarrow> P b"
  shows "P s'"
  using assms
proof (induction xs arbitrary: s)
  case Nil
  then show ?case by simp
next
  case (Cons x xs)
  from Cons.prems(1) obtain s1 where s1: "f x s = Inr s1" "fold_err f xs s1 = Inr s'"
    by (auto split: sum.splits)
  have "P s1" using Cons.prems(3)[of x s s1] Cons.prems(2) s1(1) by simp
  moreover have "\<And>y a b. y \<in> set xs \<Longrightarrow> P a \<Longrightarrow> f y a = Inr b \<Longrightarrow> P b"
    using Cons.prems(3) by (meson list.set_intros(2))
  ultimately show ?case using Cons.IH[OF s1(2)] by blast
qed

lemma mark_nids_length:
  "mark_nids tid nodes nid_begin nid_end m = Inr m' \<Longrightarrow> length m' = length m"
  unfolding mark_nids_def
  by (erule fold_err_inv[where P = "\<lambda>a. length a = length m"]) (auto split: if_splits)

lemma MatchThreadsToNodes_shape:
  assumes "MatchThreadsToNodes space pb = Inr pb'"
  shows "\<exists>m. pb' = pb\<lparr>pb_threads_to_nids_map := m\<rparr> \<and>
           length m = pb_nthreads pb * pb_nodes pb \<and> 0 < pb_nthreads pb"
proof -
  let ?cs = "chunck_size (length space) (pb_nthreads pb)"
  let ?m0 = "vector_resize (pb_nthreads pb * pb_nodes pb) False (pb_threads_to_nids_map pb)"
  let ?body = "\<lambda>tid m.
               let beg = ?cs * tid; fin = min (beg + ?cs) (length space) in
               if beg < length space then
                 ebind (GetFirstDimension space beg) (\<lambda>nid_begin.
                 ebind (GetFirstDimension space (fin - 1)) (\<lambda>nid_end.
                   mark_nids tid (pb_nodes pb) nid_begin nid_end m))
               else Inr m"
  have pos: "0 < pb_nthreads pb" using assms by (auto simp: MatchThreadsToNodes_def split: if_splits)
  from assms pos obtain m where m: "fold_err ?body [0..<pb_nthreads pb] ?m0 = Inr m"
    "pb' = pb\<lparr>pb_threads_to_nids_map := m\<rparr>"
    by (auto simp: MatchThreadsToNodes_def Let_def ebind_eq_Inr)
  have "length m = length ?m0"
    by (rule fold_err_inv[OF m(1), where P = "\<lambda>a. length a = length ?m0"])
       (auto simp: Let_def ebind_eq_Inr mark_nids_length split: if_splits)
  then have "length m = pb_nthreads pb * pb_nodes pb" by (simp add: length_vector_resize)
  then show ?thesis using m(2) pos by blast
qed

text \<open>What \<^verbatim>\<open>Reset\<close> leaves behind.\<close>

lemma AllocateAdditionalHistograms_result:
  assumes "AllocateAdditionalHistograms pb = Inr pb'"
    and "hc_row_ptr (pb_hist_buffer pb) = []" "hc_n_nodes_added (pb_hist_buffer pb) = 0"
    and "scratch_base pb (pb_nodes pb) < 2 ^ 32"
  shows "pb' = pb\<lparr>pb_hist_buffer := (pb_hist_buffer pb)
           \<lparr>hc_data := hc_data (pb_hist_buffer pb) @
              replicate (scratch_base pb (pb_nodes pb) - length (hc_data (pb_hist_buffer pb))) [],
            hc_row_ptr := [0..<scratch_base pb (pb_nodes pb)],
            hc_n_nodes_added := scratch_base pb (pb_nodes pb)\<rparr>\<rparr>"
proof -
  let ?k = "scratch_base pb (pb_nodes pb)"
  have k: "fold (\<lambda>nid k. k + nat (max 0 (nthreads_for_nid (pb_threads_to_nids_map pb)
              (pb_nthreads pb) (pb_nodes pb) nid - 1))) [0..<pb_nodes pb] 0 = ?k"
    by (simp add: additional_count scratch_base_def base_of_def)
  show ?thesis
    using assms(1) unfolding AllocateAdditionalHistograms_def Let_def k add_rows[OF assms(2,3,4)]
    by (auto split: if_splits)
qed

lemma MatchNodeNidPairToHist_result:
  assumes "MatchNodeNidPairToHist pb = Inr pb'"
  shows "\<exists>mp'. pb' = pb\<lparr>pb_tid_nid_to_hist := mp'\<rparr> \<and>
     (\<forall>nid < pb_nodes pb. \<forall>j < length (touching_threads pb nid).
        mp' (touching_threads pb nid ! j, nid) =
          Some (if j = 0 then - 1 else size_to_int (scratch_base pb nid + j - 1))) \<and>
     (\<forall>tid nid. pb_nodes pb \<le> nid \<or> tid \<notin> set (touching_threads pb nid) \<longrightarrow>
        mp' (tid, nid) = pb_tid_nid_to_hist pb (tid, nid))"
proof -
  from match_outer[of "pb_threads_to_nids_map pb" "pb_nthreads pb" "pb_nodes pb" "pb_nodes pb"
      "pb_tid_nid_to_hist pb"]
  obtain mp' where
    f: "fold (match_node (pb_threads_to_nids_map pb) (pb_nthreads pb) (pb_nodes pb))
          [0..<pb_nodes pb] (pb_tid_nid_to_hist pb, 0) = (mp', scratch_base pb (pb_nodes pb))"
    and r: "\<forall>nid < pb_nodes pb. \<forall>j < length (touching_threads pb nid).
        mp' (touching_threads pb nid ! j, nid) =
          Some (if j = 0 then - 1 else size_to_int (scratch_base pb nid + j - 1))"
     "\<forall>tid nid. pb_nodes pb \<le> nid \<or> tid \<notin> set (touching_threads pb nid) \<longrightarrow>
        mp' (tid, nid) = pb_tid_nid_to_hist pb (tid, nid)"
    unfolding touching_threads_def scratch_base_def by blast
  have "pb' = pb\<lparr>pb_tid_nid_to_hist := mp'\<rparr>"
    using assms f by (auto simp: MatchNodeNidPairToHist_def Let_def split: if_splits)
  then show ?thesis using r by blast
qed

lemma size_to_int_small: "k < 2 ^ 31 \<Longrightarrow> size_to_int k = int k"
proof -
  assume k: "k < 2 ^ 31"
  then have "k < 2 ^ LENGTH(32)" by simp
  then have u: "unat (word_of_nat k :: 32 word) = k" by (simp add: unat_of_nat)
  then have "uint (word_of_nat k :: 32 word) = int k" by (metis uint_nat)
  moreover have "uint (word_of_nat k :: 32 word) < 2 ^ 31" using calculation k by simp
  ultimately show ?thesis unfolding size_to_int_def using sint_small by metis
qed

lemma Reset_result:
  assumes r: "Reset nthreads nodes space targeted_hists pb0 = Inr pb"
    and small: "nthreads * nodes < 2 ^ 31"
  shows "pb_nthreads pb = nthreads \<and> pb_nodes pb = nodes \<and> pb_nbins pb = pb_nbins pb0 \<and>
     pb_targeted_hists pb = targeted_hists \<and> length targeted_hists = nodes \<and> 0 < nthreads \<and>
     length (pb_threads_to_nids_map pb) = nthreads * nodes \<and>
     pb_hist_was_used pb = replicate (nthreads * nodes) False \<and>
     pb_hist_buffer pb = (HistCollection_Init (pb_nbins pb0 mod 2 ^ 32) (pb_hist_buffer pb0))
        \<lparr>hc_data := hc_data (HistCollection_Init (pb_nbins pb0 mod 2 ^ 32) (pb_hist_buffer pb0)) @
           replicate (scratch_base pb nodes -
              length (hc_data (HistCollection_Init (pb_nbins pb0 mod 2 ^ 32) (pb_hist_buffer pb0)))) [],
         hc_row_ptr := [0..<scratch_base pb nodes],
         hc_n_nodes_added := scratch_base pb nodes\<rparr> \<and>
     (\<forall>nid < nodes. \<forall>j < length (touching_threads pb nid).
        pb_tid_nid_to_hist pb (touching_threads pb nid ! j, nid) =
          Some (if j = 0 then - 1 else int (scratch_base pb nid + j - 1))) \<and>
     (\<forall>tid nid. nodes \<le> nid \<or> tid \<notin> set (touching_threads pb nid) \<longrightarrow>
        pb_tid_nid_to_hist pb (tid, nid) = None)"
proof -
  let ?hc = "HistCollection_Init (pb_nbins pb0 mod 2 ^ 32) (pb_hist_buffer pb0)"
  let ?pb1 = "pb0\<lparr>pb_hist_buffer := ?hc, pb_tid_nid_to_hist := Map.empty,
      pb_threads_to_nids_map := [], pb_targeted_hists := targeted_hists,
      pb_nodes := nodes, pb_nthreads := nthreads\<rparr>"
  from r have len: "nodes = length targeted_hists"
    by (auto simp: Reset_def Let_def split: if_splits)
  from r len obtain pb2 pb3 pb4 where
    s2: "MatchThreadsToNodes space ?pb1 = Inr pb2"
    and s3: "AllocateAdditionalHistograms pb2 = Inr pb3"
    and s4: "MatchNodeNidPairToHist pb3 = Inr pb4"
    and s5: "pb = pb4\<lparr>pb_hist_was_used := replicate (nthreads * pb_nodes pb4) False\<rparr>"
    by (auto simp: Reset_def Let_def ebind_eq_Inr split: if_splits)
  from MatchThreadsToNodes_shape[OF s2] obtain m where
    m: "pb2 = ?pb1\<lparr>pb_threads_to_nids_map := m\<rparr>" "length m = nthreads * nodes" "0 < nthreads"
    by auto
  have tt2: "scratch_base pb2 n = base_of m nthreads nodes n" for n
    using m(1) by (simp add: scratch_base_def)
  have "base_of m nthreads nodes nodes \<le> nodes * nthreads" by (rule base_of_le)
  then have kk: "base_of m nthreads nodes nodes < 2 ^ 31" using small by (simp add: mult.commute)
  then have k32: "scratch_base pb2 (pb_nodes pb2) < 2 ^ 32" using m(1) tt2 by simp
  have i0: "hc_row_ptr (pb_hist_buffer pb2) = []" "hc_n_nodes_added (pb_hist_buffer pb2) = 0"
    using m(1) by (simp_all add: HistCollection_Init_def Let_def)
  have f2: "pb_nodes pb2 = nodes" "pb_hist_buffer pb2 = ?hc" using m(1) by simp_all
  have p3: "pb3 = pb2\<lparr>pb_hist_buffer := ?hc
        \<lparr>hc_data := hc_data ?hc @ replicate (base_of m nthreads nodes nodes - length (hc_data ?hc)) [],
         hc_row_ptr := [0..<base_of m nthreads nodes nodes],
         hc_n_nodes_added := base_of m nthreads nodes nodes\<rparr>\<rparr>"
    using AllocateAdditionalHistograms_result[OF s3 i0 k32] unfolding f2 tt2 .
  from MatchNodeNidPairToHist_result[OF s4] obtain mp' where
    p4: "pb4 = pb3\<lparr>pb_tid_nid_to_hist := mp'\<rparr>"
    and pos: "\<forall>nid < pb_nodes pb3. \<forall>j < length (touching_threads pb3 nid).
        mp' (touching_threads pb3 nid ! j, nid) =
          Some (if j = 0 then - 1 else size_to_int (scratch_base pb3 nid + j - 1))"
    and oth: "\<forall>tid nid. pb_nodes pb3 \<le> nid \<or> tid \<notin> set (touching_threads pb3 nid) \<longrightarrow>
        mp' (tid, nid) = pb_tid_nid_to_hist pb3 (tid, nid)"
    by blast
  have f3: "pb_nodes pb3 = nodes" "pb_nthreads pb3 = nthreads" "pb_threads_to_nids_map pb3 = m"
    "pb_tid_nid_to_hist pb3 = Map.empty" "pb_nbins pb3 = pb_nbins pb0"
    "pb_targeted_hists pb3 = targeted_hists"
    using p3 m(1) by simp_all
  have tt: "touching_threads pb n = touch m nthreads nodes n"
    "scratch_base pb n = base_of m nthreads nodes n"
    "touching_threads pb3 n = touch m nthreads nodes n"
    "scratch_base pb3 n = base_of m nthreads nodes n" for n
    using s5 p4 f3 by (simp_all add: touching_threads_def scratch_base_def)
  have fields: "pb_nthreads pb = nthreads" "pb_nodes pb = nodes" "pb_nbins pb = pb_nbins pb0"
    "pb_targeted_hists pb = targeted_hists" "pb_threads_to_nids_map pb = m"
    "pb_hist_was_used pb = replicate (nthreads * nodes) False"
    "pb_tid_nid_to_hist pb = mp'"
    using s5 p4 f3 by simp_all
  have hb: "pb_hist_buffer pb = ?hc
        \<lparr>hc_data := hc_data ?hc @ replicate (scratch_base pb nodes - length (hc_data ?hc)) [],
         hc_row_ptr := [0..<scratch_base pb nodes],
         hc_n_nodes_added := scratch_base pb nodes\<rparr>"
    unfolding tt using s5 p4 p3 by simp
  have pos': "\<forall>nid < nodes. \<forall>j < length (touching_threads pb nid).
        pb_tid_nid_to_hist pb (touching_threads pb nid ! j, nid) =
          Some (if j = 0 then - 1 else int (scratch_base pb nid + j - 1))"
  proof (intro allI impI)
    fix nid j assume h: "nid < nodes" "j < length (touching_threads pb nid)"
    have "base_of m nthreads nodes nid \<le> base_of m nthreads nodes nodes"
      using h(1) by (intro base_of_mono) simp
    moreover have "base_of m nthreads nodes nid + (length (touch m nthreads nodes nid) - 1)
        \<le> base_of m nthreads nodes nodes"
      using base_of_mono[of "Suc nid" nodes m nthreads nodes] h(1) by (simp add: base_of_Suc)
    ultimately have "j \<noteq> 0 \<Longrightarrow> base_of m nthreads nodes nid + j - 1 < 2 ^ 31"
      using h(2) kk by (simp add: tt)
    then have "j \<noteq> 0 \<Longrightarrow> size_to_int (base_of m nthreads nodes nid + j - 1)
        = int (base_of m nthreads nodes nid + j - 1)"
      by (rule size_to_int_small)
    then show "pb_tid_nid_to_hist pb (touching_threads pb nid ! j, nid) =
          Some (if j = 0 then - 1 else int (scratch_base pb nid + j - 1))"
      using pos h f3(1) by (simp add: fields tt)
  qed
  have oth': "\<forall>tid nid. nodes \<le> nid \<or> tid \<notin> set (touching_threads pb nid) \<longrightarrow>
        pb_tid_nid_to_hist pb (tid, nid) = None"
    using oth f3 by (simp add: fields tt)
  show ?thesis
    using fields len[symmetric] m(2,3) hb pos' oth' by simp
qed

lemma distinct_touch: "distinct (touch m t nodes nid)"
  by (simp add: touch_def)

lemma base_of_interval:
  assumes "nid < nid'"
  shows "base_of m nthreads nodes nid + (length (touch m nthreads nodes nid) - 1)
         \<le> base_of m nthreads nodes nid'"
  using base_of_mono[of "Suc nid" nid' m nthreads nodes] assms by (simp add: base_of_Suc)

text \<open>
  C5 (amended). After a \<^verbatim>\<open>Reset\<close> that succeeded (with fewer than \<open>2 ^ 31\<close> pairs of a thread
  and a node), for every node: the pair of the node's first touching thread, and no other
  pair of the node, maps to -1, provided some thread touches the node; a node that no
  thread touches has no pair at all. The \<open>j\<close>-th further touching thread maps to the
  scratch index \<open>scratch_base + j - 1\<close>; no two pairs, of this or another node, share a
  scratch index. The scratch indices of the node are \<open>max 0 (count - 1)\<close> many, and the
  rows of \<^verbatim>\<open>hist_buffer_\<close> are exactly the scratch indices of all nodes.
\<close>

theorem Reset_assignment:
  "Reset nthreads nodes space targeted_hists pb0 = Inr pb \<Longrightarrow> nthreads * nodes < 2 ^ 31 \<Longrightarrow>
   nid < nodes \<Longrightarrow>
   (\<forall>tid. (pb_tid_nid_to_hist pb (tid, nid) = Some (- 1)) =
      (touching_threads pb nid \<noteq> [] \<and> tid = hd (touching_threads pb nid))) \<and>
   (\<forall>tid. tid \<notin> set (touching_threads pb nid) \<longrightarrow> pb_tid_nid_to_hist pb (tid, nid) = None) \<and>
   (\<forall>j. 0 < j \<and> j < length (touching_threads pb nid) \<longrightarrow>
      pb_tid_nid_to_hist pb (touching_threads pb nid ! j, nid) =
        Some (int (scratch_base pb nid + j - 1))) \<and>
   (\<forall>tid tid' nid' idx. nid' < nodes \<and> 0 \<le> idx \<and>
      pb_tid_nid_to_hist pb (tid, nid) = Some idx \<and>
      pb_tid_nid_to_hist pb (tid', nid') = Some idx \<longrightarrow> tid' = tid \<and> nid' = nid) \<and>
   {k. \<exists>tid. pb_tid_nid_to_hist pb (tid, nid) = Some (int k)} =
     {scratch_base pb nid ..< scratch_base pb nid + (length (touching_threads pb nid) - 1)} \<and>
   scratch_base pb (Suc nid) = scratch_base pb nid + (length (touching_threads pb nid) - 1) \<and>
   hc_n_nodes_added (pb_hist_buffer pb) = scratch_base pb nodes \<and>
   (\<forall>i. RowExists i (pb_hist_buffer pb) = (i < scratch_base pb nodes))"
proof -
  assume r: "Reset nthreads nodes space targeted_hists pb0 = Inr pb"
    and small: "nthreads * nodes < 2 ^ 31" and nid: "nid < nodes"
  note R = Reset_result[OF r small]
  let ?ts = "touching_threads pb"
  let ?b = "scratch_base pb"
  let ?mp = "pb_tid_nid_to_hist pb"
  have pos: "\<And>n j. n < nodes \<Longrightarrow> j < length (?ts n) \<Longrightarrow>
      ?mp (?ts n ! j, n) = Some (if j = 0 then - 1 else int (?b n + j - 1))"
    using R by blast
  have none: "\<And>tid n. tid \<notin> set (?ts n) \<Longrightarrow> ?mp (tid, n) = None"
    using R by blast
  have dist: "\<And>n. distinct (?ts n)" by (simp add: touching_threads_def distinct_touch)
  have bS: "\<And>n. ?b (Suc n) = ?b n + (length (?ts n) - 1)"
    by (simp add: scratch_base_def touching_threads_def base_of_Suc)
  have bint: "\<And>n n'. n < n' \<Longrightarrow> ?b n + (length (?ts n) - 1) \<le> ?b n'"
    unfolding scratch_base_def touching_threads_def by (rule base_of_interval)
  \<comment> \<open>every pair that is mapped sits at a position of the list of touching threads\<close>
  have at: "\<exists>j < length (?ts n). ?ts n ! j = tid" if "?mp (tid, n) = Some v" for tid n v
  proof -
    have "tid \<in> set (?ts n)" using none[of tid n] that by auto
    then show ?thesis by (simp add: in_set_conv_nth)
  qed
  have c1: "\<forall>tid. (?mp (tid, nid) = Some (- 1)) = (?ts nid \<noteq> [] \<and> tid = hd (?ts nid))"
  proof (intro allI iffI)
    fix tid assume a: "?mp (tid, nid) = Some (- 1)"
    from at[OF a] obtain j where j: "j < length (?ts nid)" "?ts nid ! j = tid" by blast
    have "j = 0"
    proof (rule ccontr)
      assume "j \<noteq> 0"
      then have "?mp (tid, nid) = Some (int (?b nid + j - 1))" using pos[OF nid j(1)] j(2) by simp
      then show False using a by simp
    qed
    then show "?ts nid \<noteq> [] \<and> tid = hd (?ts nid)" using j by (auto simp: hd_conv_nth)
  next
    fix tid assume a: "?ts nid \<noteq> [] \<and> tid = hd (?ts nid)"
    then have "0 < length (?ts nid)" "tid = ?ts nid ! 0" by (simp_all add: hd_conv_nth)
    then show "?mp (tid, nid) = Some (- 1)" using pos[OF nid, of 0] by simp
  qed
  have c2: "\<forall>tid. tid \<notin> set (?ts nid) \<longrightarrow> ?mp (tid, nid) = None" using none by blast
  have c3: "\<forall>j. 0 < j \<and> j < length (?ts nid) \<longrightarrow>
      ?mp (?ts nid ! j, nid) = Some (int (?b nid + j - 1))"
    using pos[OF nid] by simp
  \<comment> \<open>a scratch index fixes the node and the position\<close>
  have scr: "\<exists>j. 0 < j \<and> j < length (?ts n) \<and> ?ts n ! j = tid \<and> idx = int (?b n + j - 1)"
    if "n < nodes" "0 \<le> idx" "?mp (tid, n) = Some idx" for tid n idx
  proof -
    from at[OF that(3)] obtain j where j: "j < length (?ts n)" "?ts n ! j = tid" by blast
    have j0: "j \<noteq> 0"
    proof
      assume "j = 0"
      then have "?mp (tid, n) = Some (- 1)" using pos[OF that(1) j(1)] j(2) by simp
      then show False using that(2,3) by simp
    qed
    then have "?mp (tid, n) = Some (int (?b n + j - 1))" using pos[OF that(1) j(1)] j(2) by simp
    then have "idx = int (?b n + j - 1)" using that(3) by simp
    then show ?thesis using j j0 by blast
  qed
  have c4: "\<forall>tid tid' nid' idx. nid' < nodes \<and> 0 \<le> idx \<and>
      ?mp (tid, nid) = Some idx \<and> ?mp (tid', nid') = Some idx \<longrightarrow> tid' = tid \<and> nid' = nid"
  proof (intro allI impI, elim conjE)
    fix tid tid' nid' idx
    assume h: "nid' < nodes" "0 \<le> idx" "?mp (tid, nid) = Some idx" "?mp (tid', nid') = Some idx"
    from scr[OF nid h(2,3)] obtain j where
      j: "0 < j" "j < length (?ts nid)" "?ts nid ! j = tid" "idx = int (?b nid + j - 1)" by blast
    from scr[OF h(1,2,4)] obtain j' where
      j': "0 < j'" "j' < length (?ts nid')" "?ts nid' ! j' = tid'" "idx = int (?b nid' + j' - 1)"
      by blast
    have e: "?b nid + j - 1 = ?b nid' + j' - 1" using j(4) j'(4) by simp
    have "nid' = nid"
    proof (rule ccontr)
      assume "nid' \<noteq> nid"
      then consider "nid < nid'" | "nid' < nid" by linarith
      then show False
      proof cases
        case 1
        from bint[OF 1] j j' e show False by linarith
      next
        case 2
        from bint[OF 2] j j' e show False by linarith
      qed
    qed
    moreover from this e j(1) j'(1) have "j' = j" by simp
    ultimately show "tid' = tid \<and> nid' = nid" using j(3) j'(3) by simp
  qed
  have c5: "{k. \<exists>tid. ?mp (tid, nid) = Some (int k)} =
      {?b nid ..< ?b nid + (length (?ts nid) - 1)}"
  proof (intro set_eqI iffI)
    fix k assume "k \<in> {k. \<exists>tid. ?mp (tid, nid) = Some (int k)}"
    then obtain tid where t: "?mp (tid, nid) = Some (int k)" by blast
    from scr[OF nid _ t] obtain j where
      j: "0 < j" "j < length (?ts nid)" "int k = int (?b nid + j - 1)" by auto
    then show "k \<in> {?b nid ..< ?b nid + (length (?ts nid) - 1)}" by auto
  next
    fix k assume "k \<in> {?b nid ..< ?b nid + (length (?ts nid) - 1)}"
    then have k: "?b nid \<le> k" "k < ?b nid + (length (?ts nid) - 1)" by simp_all
    define j where "j = k - ?b nid + 1"
    have j: "0 < j" "j < length (?ts nid)" "?b nid + j - 1 = k" using k by (simp_all add: j_def)
    from c3 j have "?mp (?ts nid ! j, nid) = Some (int k)" by simp
    then show "k \<in> {k. \<exists>tid. ?mp (tid, nid) = Some (int k)}" by blast
  qed
  have hb: "hc_row_ptr (pb_hist_buffer pb) = [0..<?b nodes]"
    "hc_n_nodes_added (pb_hist_buffer pb) = ?b nodes"
    using R by simp_all
  have "?b nodes \<le> nodes * pb_nthreads pb"
    unfolding scratch_base_def by (rule base_of_le)
  moreover have "pb_nthreads pb = nthreads" using R by simp
  ultimately have "?b nodes \<le> nodes * nthreads" by simp
  then have lt: "?b nodes < 2 ^ 31" using small by (simp add: mult.commute)
  have c7: "\<forall>i. RowExists i (pb_hist_buffer pb) = (i < ?b nodes)"
  proof
    fix i
    show "RowExists i (pb_hist_buffer pb) = (i < ?b nodes)"
    proof (cases "i < ?b nodes")
      case True
      then have "i \<noteq> kMax" using lt by (simp add: kMax_def)
      then show ?thesis using True by (simp add: RowExists_def hb)
    next
      case False
      then show ?thesis by (simp add: RowExists_def hb)
    qed
  qed
  show ?thesis using c1 c2 c3 c4 c5 bS hb(2) c7 by blast
qed

lemma upt_2: "[0..<2] = [0, 1]" "[0..<1] = [0]" "[0..<Suc 0] = [0]"
  by (simp_all add: upt_rec)

lemma replicate_2: "replicate 2 x = [x, x]"
  by (simp add: numeral_2_eq_2)

lemma Reset_builder_2: "Reset 2 1 space_2 [[7, 7]] builder_2 = Inr builder_2_reset"
  by (simp add: Reset_def builder_2_def ParallelGHistBuilder_Init_def ParallelGHistBuilder_new_def
      HistCollection_new_def HistCollection_Init_def MatchThreadsToNodes_def chunck_size_def
      vector_resize_def AllocateAdditionalHistograms_def nthreads_for_nid_def GetFirstDimension_def
      mark_nids_def AddHistRow_def kMax_def size_to_int_def space_2_def builder_2_reset_def
      MatchNodeNidPairToHist_def match_node_def Let_def upt_2 replicate_2)

lemma Reset_builder_2_empty: "Reset 1 1 [] [[7, 7]] builder_2 = Inr builder_2_reset_empty"
  by (simp add: Reset_def builder_2_def ParallelGHistBuilder_Init_def ParallelGHistBuilder_new_def
      HistCollection_new_def HistCollection_Init_def MatchThreadsToNodes_def chunck_size_def
      vector_resize_def AllocateAdditionalHistograms_def nthreads_for_nid_def
      MatchNodeNidPairToHist_def match_node_def Let_def upt_2 builder_2_reset_empty_def)

theorem Reset_assignment_witness:
  "Reset 2 1 space_2 [[7, 7]] builder_2 = Inr builder_2_reset \<and>
   (2 :: nat) * 1 < 2 ^ 31 \<and> (0 :: nat) < 1 \<and>
   touching_threads builder_2_reset 0 = [0, 1] \<and>
   pb_tid_nid_to_hist builder_2_reset (0, 0) = Some (- 1) \<and>
   pb_tid_nid_to_hist builder_2_reset (1, 0) = Some 0 \<and>
   scratch_base builder_2_reset 1 = 1 \<and>
   hc_n_nodes_added (pb_hist_buffer builder_2_reset) = 1 \<and>
   RowExists 0 (pb_hist_buffer builder_2_reset)"
proof -
  have a: "(2 :: nat) * 1 < 2 ^ 31" "(0 :: nat) < 1" by simp_all
  have t: "touching_threads builder_2_reset 0 = [0, 1]"
    by (simp add: touching_threads_def touch_def builder_2_reset_def upt_2)
  have b: "scratch_base builder_2_reset 0 = 0"
    by (simp add: scratch_base_def base_of_def)
  note A = Reset_assignment[OF Reset_builder_2 a]
  have c1: "pb_tid_nid_to_hist builder_2_reset (0, 0) = Some (- 1)"
    using A[THEN conjunct1, rule_format, of 0] by (simp add: t)
  have c3: "pb_tid_nid_to_hist builder_2_reset (1, 0) = Some 0"
    using A[THEN conjunct2, THEN conjunct2, THEN conjunct1, rule_format, of 1] by (simp add: t b)
  have c6: "scratch_base builder_2_reset (Suc 0) = Suc 0"
    using A[THEN conjunct2, THEN conjunct2, THEN conjunct2, THEN conjunct2, THEN conjunct2,
        THEN conjunct1] by (simp add: t b)
  have c7: "hc_n_nodes_added (pb_hist_buffer builder_2_reset) = 1"
    using A[THEN conjunct2, THEN conjunct2, THEN conjunct2, THEN conjunct2, THEN conjunct2,
        THEN conjunct2, THEN conjunct1] by (simp add: c6)
  have c8: "RowExists 0 (pb_hist_buffer builder_2_reset)"
    using A[THEN conjunct2, THEN conjunct2, THEN conjunct2, THEN conjunct2, THEN conjunct2,
        THEN conjunct2, THEN conjunct2, rule_format, of 0] by (simp add: c6)
  show ?thesis using Reset_builder_2 a t c1 c3 c6 c7 c8 by simp
qed

theorem Reset_untouched_node_counterexample:
  "Reset 1 1 [] [[7, 7]] builder_2 = Inr builder_2_reset_empty \<and>
   pb_nthreads builder_2_reset_empty = 1 \<and> pb_nodes builder_2_reset_empty = 1 \<and>
   touching_threads builder_2_reset_empty 0 = [] \<and>
   pb_tid_nid_to_hist builder_2_reset_empty = Map.empty"
  using Reset_builder_2_empty
  by (simp add: builder_2_reset_empty_def touching_threads_def touch_def upt_2)

section \<open>Reducing a node that no thread used\<close>

lemma reduce_unused:
  assumes "t \<le> pb_nthreads pb"
    and "pb_nthreads pb * pb_nodes pb \<le> length (pb_hist_was_used pb)" "nid < pb_nodes pb"
    and "\<forall>tid < pb_nthreads pb. \<not> pb_hist_was_used pb ! (tid * pb_nodes pb + nid)"
  shows "fold_err (reduce_tid nid beg fin) [0..<t] (pb, False) = Inr (pb, False)"
  using assms(1)
proof (induction t)
  case 0
  show ?case by simp
next
  case (Suc t)
  have "t * pb_nodes pb + nid < Suc t * pb_nodes pb" using assms(3) by simp
  also have "\<dots> \<le> pb_nthreads pb * pb_nodes pb" using Suc.prems by (intro mult_le_mono1) simp
  finally have inb: "t * pb_nodes pb + nid < length (pb_hist_was_used pb)" using assms(2) by simp
  have "\<not> pb_hist_was_used pb ! (t * pb_nodes pb + nid)" using assms(4) Suc.prems by simp
  then have "reduce_tid nid beg fin t (pb, False) = Inr (pb, False)"
    using inb by (simp add: reduce_tid_def Let_def)
  then show ?case using Suc by (simp add: fold_err_snoc)
qed

lemma InitilizeHistByZeroes_result:
  assumes "beg \<le> fin" "fin \<le> length h"
  shows "\<exists>z. InitilizeHistByZeroes h beg fin = Inr z \<and> length z = length h \<and>
     (\<forall>i < length h. z ! i = (if beg \<le> i \<and> i < fin then 0 else h ! i))"
  using assms by (simp add: InitilizeHistByZeroes_def)

text \<open>
  C4. When no thread has used a histogram of the node in the current pass (every flag of
  the node in \<^verbatim>\<open>hist_was_used_\<close> is clear, as \<^verbatim>\<open>Reset\<close> leaves it and as it stays without a
  call of \<^verbatim>\<open>GetInitializedHist\<close> for the node), \<^verbatim>\<open>ReduceHist(nid, begin, end)\<close> succeeds and
  leaves the target of the node zero on \<^verbatim>\<open>[begin, end)\<close>, whatever it held before; outside
  the range the target keeps its content.
\<close>

theorem ReduceHist_zero_fill:
  "nid < pb_nodes pb \<Longrightarrow> beg < fin \<Longrightarrow> nid < length (pb_targeted_hists pb) \<Longrightarrow>
   fin \<le> length (pb_targeted_hists pb ! nid) \<Longrightarrow>
   pb_nthreads pb * pb_nodes pb \<le> length (pb_hist_was_used pb) \<Longrightarrow>
   \<forall>tid < pb_nthreads pb. \<not> pb_hist_was_used pb ! (tid * pb_nodes pb + nid) \<Longrightarrow>
   \<exists>pb'. ReduceHist nid beg fin pb = Inr pb' \<and>
     length (pb_targeted_hists pb' ! nid) = length (pb_targeted_hists pb ! nid) \<and>
     (\<forall>i. beg \<le> i \<and> i < fin \<longrightarrow> pb_targeted_hists pb' ! nid ! i = 0) \<and>
     (\<forall>i < length (pb_targeted_hists pb ! nid). \<not> (beg \<le> i \<and> i < fin) \<longrightarrow>
        pb_targeted_hists pb' ! nid ! i = pb_targeted_hists pb ! nid ! i)"
proof -
  assume h: "nid < pb_nodes pb" "beg < fin" "nid < length (pb_targeted_hists pb)"
    "fin \<le> length (pb_targeted_hists pb ! nid)"
    "pb_nthreads pb * pb_nodes pb \<le> length (pb_hist_was_used pb)"
    "\<forall>tid < pb_nthreads pb. \<not> pb_hist_was_used pb ! (tid * pb_nodes pb + nid)"
  let ?d = "pb_targeted_hists pb ! nid"
  have loop: "fold_err (reduce_tid nid beg fin) [0..<pb_nthreads pb] (pb, False) = Inr (pb, False)"
    using reduce_unused[OF le_refl h(5,1,6)] .
  from InitilizeHistByZeroes_result[of beg fin ?d] h(2,4) obtain z where
    z: "InitilizeHistByZeroes ?d beg fin = Inr z" "length z = length ?d"
    "\<forall>i < length ?d. z ! i = (if beg \<le> i \<and> i < fin then 0 else ?d ! i)"
    by auto
  have "ReduceHist nid beg fin pb = Inr (write_hist pb (Target nid) z)"
    using h(1,2,3) loop z(1) by (simp add: ReduceHist_def read_hist_def)
  moreover have "pb_targeted_hists (write_hist pb (Target nid) z) ! nid = z"
    using h(3) by (simp add: write_hist_def)
  ultimately show ?thesis using z(2,3) h(4) by auto
qed


theorem ReduceHist_zero_fill_witness:
  "(0 :: nat) < pb_nodes builder_2_reset_empty \<and> (0 :: nat) < 2 \<and>
   0 < length (pb_targeted_hists builder_2_reset_empty) \<and>
   2 \<le> length (pb_targeted_hists builder_2_reset_empty ! 0) \<and>
   pb_targeted_hists builder_2_reset_empty ! 0 = [7, 7] \<and>
   \<not> pb_hist_was_used builder_2_reset_empty ! 0 \<and>
   (\<exists>pb'. ReduceHist 0 0 2 builder_2_reset_empty = Inr pb' \<and>
      pb_targeted_hists pb' ! 0 ! 0 = 0 \<and> pb_targeted_hists pb' ! 0 ! 1 = 0)"
proof -
  have a: "(0 :: nat) < pb_nodes builder_2_reset_empty" "(0 :: nat) < 2"
    "0 < length (pb_targeted_hists builder_2_reset_empty)"
    "2 \<le> length (pb_targeted_hists builder_2_reset_empty ! 0)"
    "pb_nthreads builder_2_reset_empty * pb_nodes builder_2_reset_empty
       \<le> length (pb_hist_was_used builder_2_reset_empty)"
    by (simp_all add: builder_2_reset_empty_def)
  have b: "\<forall>tid < pb_nthreads builder_2_reset_empty.
      \<not> pb_hist_was_used builder_2_reset_empty ! (tid * pb_nodes builder_2_reset_empty + 0)"
    by (simp add: builder_2_reset_empty_def)
  have c: "pb_targeted_hists builder_2_reset_empty ! 0 = [7, 7]"
    "\<not> pb_hist_was_used builder_2_reset_empty ! 0"
    by (simp_all add: builder_2_reset_empty_def)
  from ReduceHist_zero_fill[OF a b] obtain pb' where
    p: "ReduceHist 0 0 2 builder_2_reset_empty = Inr pb'"
    "\<forall>i. 0 \<le> i \<and> i < 2 \<longrightarrow> pb_targeted_hists pb' ! 0 ! i = 0"
    by blast
  have "pb_targeted_hists pb' ! 0 ! 0 = 0" "pb_targeted_hists pb' ! 0 ! 1 = 0"
    using p(2) by simp_all
  then show ?thesis using a(1-4) c p(1) by blast
qed

section \<open>Chunks of the work space: results\<close>

text \<open>Arithmetic of the chunks.\<close>

lemma chunck_size_pos: "0 < n \<Longrightarrow> 0 < chunck_size n t"
proof (cases "n div t = 0")
  case True
  assume "0 < n"
  moreover have "n mod t = n" using True div_mult_mod_eq[of n t] by simp
  ultimately show ?thesis by (simp add: chunck_size_def)
next
  case False
  then show ?thesis by (simp add: chunck_size_def)
qed

lemma chunck_size_covers: "0 < t \<Longrightarrow> n \<le> chunck_size n t * t"
proof -
  assume t: "0 < t"
  have n: "n = n div t * t + n mod t" by simp
  show ?thesis
  proof (cases "n mod t = 0")
    case True
    then show ?thesis using n by (simp add: chunck_size_def)
  next
    case False
    have "n mod t < t" using t by simp
    then have "n \<le> n div t * t + t" using n by linarith
    then show ?thesis using False by (simp add: chunck_size_def)
  qed
qed

lemma thread_of_unit_less:
  assumes "0 < t" "i < n"
  shows "thread_of_unit n t i < t"
proof -
  have p: "0 < chunck_size n t" using assms(2) by (intro chunck_size_pos) simp
  have "i < chunck_size n t * t" using chunck_size_covers[OF assms(1), of n] assms(2) by simp
  then show ?thesis unfolding thread_of_unit_def using p
    by (simp add: less_mult_imp_div_less mult.commute)
qed

lemma unit_in_chunk:
  assumes "i < n"
  shows "chunck_size n t * thread_of_unit n t i \<le> i \<and>
         i < min (chunck_size n t * thread_of_unit n t i + chunck_size n t) n"
proof -
  let ?cs = "chunck_size n t"
  have p: "0 < ?cs" using assms by (intro chunck_size_pos) simp
  have "?cs * (i div ?cs) \<le> i" by simp
  moreover have "i < ?cs * (i div ?cs) + ?cs"
    using p by (metis add.commute dividend_less_div_times mult.commute)
  ultimately show ?thesis using assms by (simp add: thread_of_unit_def)
qed

lemma chunk_unit_thread:
  assumes "chunck_size n t * tid \<le> i" "i < chunck_size n t * tid + chunck_size n t"
  shows "thread_of_unit n t i = tid"
proof -
  let ?cs = "chunck_size n t"
  have p: "0 < ?cs" using assms by (cases "?cs = 0") simp_all
  have "i div ?cs = tid"
    using assms p by (metis add.commute div_nat_eqI mult.commute mult_Suc_right)
  then show ?thesis by (simp add: thread_of_unit_def)
qed

text \<open>On a space sorted by node, a thread touches the node of each unit of its chunk.\<close>

lemma unit_touch:
  assumes "sorted (map fst space)" "i < length space"
  shows "chunk_touch space t (thread_of_unit (length space) t i) (fst (space ! i))"
proof -
  let ?n = "length space" let ?cs = "chunck_size ?n t"
  let ?beg = "?cs * thread_of_unit ?n t i"
  let ?fin = "min (?beg + ?cs) ?n"
  from unit_in_chunk[OF assms(2), of t] have c: "?beg \<le> i" "i < ?fin" by simp_all
  have f: "?fin - 1 < ?n" "i \<le> ?fin - 1" using c assms(2) by simp_all
  have mono: "\<And>a b. a \<le> b \<Longrightarrow> b < ?n \<Longrightarrow> fst (space ! a) \<le> fst (space ! b)"
    using assms(1) by (metis (no_types, lifting) length_map nth_map order_le_less_trans sorted_nth_mono)
  have "fst (space ! ?beg) \<le> fst (space ! i)" using mono[OF c(1) assms(2)] .
  moreover have "fst (space ! i) \<le> fst (space ! (?fin - 1))" using mono[OF f(2,1)] .
  ultimately show ?thesis using c assms(2) by (simp add: chunk_touch_def Let_def)
qed

text \<open>
  Conversely, when the node has a unit at all, every thread that touches the node has a
  unit of the node in its chunk.
\<close>

lemma touch_unit:
  assumes srt: "sorted (map fst space)" and tch: "chunk_touch space t tid nid"
    and u: "u < length space" "fst (space ! u) = nid"
  shows "\<exists>i < length space. thread_of_unit (length space) t i = tid \<and> fst (space ! i) = nid"
proof -
  let ?n = "length space" let ?cs = "chunck_size ?n t"
  let ?beg = "?cs * tid"
  let ?fin = "min (?beg + ?cs) ?n"
  have b: "?beg < ?n" "fst (space ! ?beg) \<le> nid" "nid \<le> fst (space ! (?fin - 1))"
    using tch by (simp_all add: chunk_touch_def Let_def)
  have "0 < ?n" using b(1) by linarith
  then have p: "0 < ?cs" by (rule chunck_size_pos)
  have fin: "?beg < ?fin" "?fin \<le> ?n" using b(1) p by simp_all
  have mono: "\<And>a b. a \<le> b \<Longrightarrow> b < ?n \<Longrightarrow> fst (space ! a) \<le> fst (space ! b)"
    using srt by (metis (no_types, lifting) length_map nth_map order_le_less_trans sorted_nth_mono)
  have inchunk: "\<And>i. ?beg \<le> i \<Longrightarrow> i < ?fin \<Longrightarrow> thread_of_unit ?n t i = tid"
    by (rule chunk_unit_thread) simp_all
  consider "u < ?beg" | "?beg \<le> u \<and> u < ?fin" | "?fin \<le> u" by linarith
  then show ?thesis
  proof cases
    case 1
    then have "nid \<le> fst (space ! ?beg)" using mono[of u ?beg] b(1) u(2) by simp
    then have "fst (space ! ?beg) = nid" using b(2) by simp
    then show ?thesis using inchunk[of ?beg] fin b(1) by blast
  next
    case 2
    then show ?thesis using inchunk[of u] u by blast
  next
    case 3
    then have "fst (space ! (?fin - 1)) \<le> nid" using mono[of "?fin - 1" u] u by simp
    then have "fst (space ! (?fin - 1)) = nid" using b(3) by simp
    moreover have "?beg \<le> ?fin - 1" "?fin - 1 < ?fin" "?fin - 1 < ?n" using fin by linarith+
    ultimately show ?thesis using inchunk[of "?fin - 1"] by blast
  qed
qed

text \<open>What \<^verbatim>\<open>MatchThreadsToNodes\<close> marks.\<close>

lemma index_decode:
  fixes tid tid' n nid nid' :: nat
  assumes "tid * n + nid = tid' * n + nid'" "nid < n" "nid' < n"
  shows "tid = tid' \<and> nid = nid'"
proof -
  have "(tid * n + nid) div n = tid" "(tid' * n + nid') div n = tid'"
    using assms(2,3) by simp_all
  then have "tid = tid'" using assms(1) by simp
  then show ?thesis using assms(1) by simp
qed

lemma index_bound:
  fixes tid t nid n :: nat
  shows "tid < t \<Longrightarrow> nid < n \<Longrightarrow> tid * n + nid < t * n"
proof -
  assume a: "tid < t" "nid < n"
  have "tid * n + nid < Suc tid * n" using a(2) by simp
  also have "\<dots> \<le> t * n" using a(1) by (intro mult_le_mono1) simp
  finally show ?thesis .
qed

lemma mark_list:
  assumes "\<forall>nid \<in> set xs. tid * nodes + nid < length m"
  shows "\<exists>m'. fold_err (\<lambda>nid m. if tid * nodes + nid < length m
                        then Inr (m[tid * nodes + nid := True]) else Inl Undefined) xs m = Inr m' \<and>
           length m' = length m \<and>
           (\<forall>j < length m. m' ! j = (m ! j \<or> (\<exists>nid \<in> set xs. j = tid * nodes + nid)))"
  using assms
proof (induction xs arbitrary: m)
  case Nil
  then show ?case by simp
next
  case (Cons x xs)
  let ?m1 = "m[tid * nodes + x := True]"
  have x: "tid * nodes + x < length m" using Cons.prems by simp
  have "\<forall>nid \<in> set xs. tid * nodes + nid < length ?m1" using Cons.prems by simp
  from Cons.IH[OF this] obtain m' where
    m': "fold_err (\<lambda>nid m. if tid * nodes + nid < length m
                        then Inr (m[tid * nodes + nid := True]) else Inl Undefined) xs ?m1 = Inr m'"
      "length m' = length ?m1"
      "\<forall>j < length ?m1. m' ! j = (?m1 ! j \<or> (\<exists>nid \<in> set xs. j = tid * nodes + nid))"
    by blast
  have "\<forall>j < length m. m' ! j = (m ! j \<or> (\<exists>nid \<in> set (x # xs). j = tid * nodes + nid))"
  proof (intro allI impI)
    fix j assume j: "j < length m"
    have "?m1 ! j = (m ! j \<or> j = tid * nodes + x)" using j by (cases "j = tid * nodes + x") simp_all
    then show "m' ! j = (m ! j \<or> (\<exists>nid \<in> set (x # xs). j = tid * nodes + nid))"
      using m'(3) j by auto
  qed
  then show ?case using m'(1,2) x by simp
qed

lemma mark_nids_result:
  assumes "nid_end < nodes" "tid * nodes + nodes \<le> length m"
  shows "\<exists>m'. mark_nids tid nodes nid_begin nid_end m = Inr m' \<and> length m' = length m \<and>
           (\<forall>j < length m. m' ! j =
              (m ! j \<or> (\<exists>nid. nid_begin \<le> nid \<and> nid \<le> nid_end \<and> j = tid * nodes + nid)))"
proof -
  have "\<forall>nid \<in> set [nid_begin..<Suc nid_end]. tid * nodes + nid < length m"
    using assms by auto
  from mark_list[OF this] show ?thesis
    unfolding mark_nids_def by (auto simp: less_Suc_eq_le)
qed

lemma MatchThreadsToNodes_result:
  assumes t: "0 < pb_nthreads pb" and e: "pb_threads_to_nids_map pb = []"
    and nd: "\<forall>u \<in> set space. fst u < pb_nodes pb"
  shows "\<exists>m. MatchThreadsToNodes space pb = Inr (pb\<lparr>pb_threads_to_nids_map := m\<rparr>) \<and>
     length m = pb_nthreads pb * pb_nodes pb \<and>
     (\<forall>tid < pb_nthreads pb. \<forall>nid < pb_nodes pb.
        m ! (tid * pb_nodes pb + nid) = chunk_touch space (pb_nthreads pb) tid nid)"
proof -
  let ?T = "pb_nthreads pb" let ?N = "pb_nodes pb" let ?n = "length space"
  let ?cs = "chunck_size ?n ?T"
  let ?m0 = "vector_resize (?T * ?N) False (pb_threads_to_nids_map pb)"
  let ?body = "\<lambda>tid m.
               let beg = ?cs * tid; fin = min (beg + ?cs) ?n in
               if beg < ?n then
                 ebind (GetFirstDimension space beg) (\<lambda>nid_begin.
                 ebind (GetFirstDimension space (fin - 1)) (\<lambda>nid_end.
                   mark_nids tid ?N nid_begin nid_end m))
               else Inr m"
  have m0: "?m0 = replicate (?T * ?N) False" using e by (simp add: vector_resize_def)
  have loop: "\<exists>m. fold_err ?body [0..<k] ?m0 = Inr m \<and> length m = ?T * ?N \<and>
      (\<forall>tid < ?T. \<forall>nid < ?N. m ! (tid * ?N + nid) = (tid < k \<and> chunk_touch space ?T tid nid))"
    if "k \<le> ?T" for k
    using that
  proof (induction k)
    case 0
    show ?case using m0 by (simp add: index_bound)
  next
    case (Suc k)
    then obtain m where m: "fold_err ?body [0..<k] ?m0 = Inr m" "length m = ?T * ?N"
      "\<forall>tid < ?T. \<forall>nid < ?N. m ! (tid * ?N + nid) = (tid < k \<and> chunk_touch space ?T tid nid)"
      by auto
    have kT: "k < ?T" using Suc.prems by simp
    have room: "k * ?N + ?N \<le> length m"
      using mult_le_mono1[of "Suc k" ?T ?N] kT m(2) by simp
    have "\<exists>m'. ?body k m = Inr m' \<and> length m' = ?T * ?N \<and>
      (\<forall>tid < ?T. \<forall>nid < ?N. m' ! (tid * ?N + nid) =
         (tid < Suc k \<and> chunk_touch space ?T tid nid))"
    proof (cases "?cs * k < ?n")
      case False
      then have "?body k m = Inr m" by (simp add: Let_def)
      moreover have "\<not> chunk_touch space ?T k nid" for nid
        using False by (simp add: chunk_touch_def Let_def)
      ultimately show ?thesis using m(2,3) by (auto simp: less_Suc_eq)
    next
      case True
      let ?fin = "min (?cs * k + ?cs) ?n"
      let ?nb = "fst (space ! (?cs * k))" let ?ne = "fst (space ! (?fin - 1))"
      have f1: "?fin - 1 < ?n" using True by simp
      have ne: "?ne < ?N" using nd f1 by simp
      from mark_nids_result[OF ne room, of ?nb] obtain m' where
        m': "mark_nids k ?N ?nb ?ne m = Inr m'" "length m' = length m"
        "\<forall>j < length m. m' ! j = (m ! j \<or> (\<exists>nid. ?nb \<le> nid \<and> nid \<le> ?ne \<and> j = k * ?N + nid))"
        by blast
      have b: "?body k m = Inr m'"
        using True f1 m'(1) by (simp add: Let_def GetFirstDimension_def)
      have "\<forall>tid < ?T. \<forall>nid < ?N. m' ! (tid * ?N + nid) =
         (tid < Suc k \<and> chunk_touch space ?T tid nid)"
      proof (intro allI impI)
        fix tid nid assume h: "tid < ?T" "nid < ?N"
        have j: "tid * ?N + nid < length m" using index_bound[OF h] m(2) by simp
        have "(\<exists>nid'. ?nb \<le> nid' \<and> nid' \<le> ?ne \<and> tid * ?N + nid = k * ?N + nid')
            = (tid = k \<and> ?nb \<le> nid \<and> nid \<le> ?ne)"
        proof
          assume "\<exists>nid'. ?nb \<le> nid' \<and> nid' \<le> ?ne \<and> tid * ?N + nid = k * ?N + nid'"
          then obtain nid' where n': "?nb \<le> nid'" "nid' \<le> ?ne" "tid * ?N + nid = k * ?N + nid'"
            by blast
          have "nid' < ?N" using n'(2) ne by simp
          from index_decode[OF n'(3) h(2) this] n'(1,2)
          show "tid = k \<and> ?nb \<le> nid \<and> nid \<le> ?ne" by simp
        next
          assume "tid = k \<and> ?nb \<le> nid \<and> nid \<le> ?ne"
          then show "\<exists>nid'. ?nb \<le> nid' \<and> nid' \<le> ?ne \<and> tid * ?N + nid = k * ?N + nid'" by blast
        qed
        moreover have "chunk_touch space ?T k nid = (?nb \<le> nid \<and> nid \<le> ?ne)"
          using True by (simp add: chunk_touch_def Let_def)
        ultimately show "m' ! (tid * ?N + nid) = (tid < Suc k \<and> chunk_touch space ?T tid nid)"
          using m'(3) j m(3) h by (auto simp: less_Suc_eq)
      qed
      then show ?thesis using b m'(2) m(2) by simp
    qed
    then show ?case using m(1) by (auto simp: fold_err_snoc)
  qed
  from loop[OF le_refl] obtain m where m: "fold_err ?body [0..<?T] ?m0 = Inr m"
    "length m = ?T * ?N"
    "\<forall>tid < ?T. \<forall>nid < ?N. m ! (tid * ?N + nid) = (tid < ?T \<and> chunk_touch space ?T tid nid)"
    by blast
  have "MatchThreadsToNodes space pb = Inr (pb\<lparr>pb_threads_to_nids_map := m\<rparr>)"
    using t m(1) by (simp add: MatchThreadsToNodes_def Let_def)
  then show ?thesis using m(2,3) by auto
qed

text \<open>\<^verbatim>\<open>Reset\<close> succeeds on a space whose nodes exist, and sets up the state of a pass.\<close>

lemma AllocateAdditionalHistograms_succeeds:
  assumes "pb_nthreads pb * pb_nodes pb \<le> length (pb_threads_to_nids_map pb)"
    and "hc_row_ptr (pb_hist_buffer pb) = []" "hc_n_nodes_added (pb_hist_buffer pb) = 0"
    and "scratch_base pb (pb_nodes pb) < 2 ^ 32"
  shows "\<exists>pb'. AllocateAdditionalHistograms pb = Inr pb'"
proof -
  let ?k = "scratch_base pb (pb_nodes pb)"
  have k: "fold (\<lambda>nid k. k + nat (max 0 (nthreads_for_nid (pb_threads_to_nids_map pb)
              (pb_nthreads pb) (pb_nodes pb) nid - 1))) [0..<pb_nodes pb] 0 = ?k"
    by (simp add: additional_count scratch_base_def base_of_def)
  show ?thesis
    unfolding AllocateAdditionalHistograms_def Let_def k add_rows[OF assms(2,3,4)]
    using assms(1) by simp
qed

lemma Reset_succeeds:
  assumes t: "0 < nthreads" and small: "nthreads * nodes < 2 ^ 31"
    and len: "length targeted_hists = nodes"
    and nd: "\<forall>u \<in> set space. fst u < nodes"
  shows "\<exists>pb. Reset nthreads nodes space targeted_hists pb0 = Inr pb \<and>
     (\<forall>tid < nthreads. \<forall>nid < nodes.
        pb_threads_to_nids_map pb ! (tid * nodes + nid) = chunk_touch space nthreads tid nid)"
proof -
  let ?hc = "HistCollection_Init (pb_nbins pb0 mod 2 ^ 32) (pb_hist_buffer pb0)"
  let ?pb1 = "pb0\<lparr>pb_hist_buffer := ?hc, pb_tid_nid_to_hist := Map.empty,
      pb_threads_to_nids_map := [], pb_targeted_hists := targeted_hists,
      pb_nodes := nodes, pb_nthreads := nthreads\<rparr>"
  have p1: "0 < pb_nthreads ?pb1" "pb_threads_to_nids_map ?pb1 = []"
    "\<forall>u \<in> set space. fst u < pb_nodes ?pb1"
    using t nd by simp_all
  from MatchThreadsToNodes_result[OF p1] obtain m where
    m: "MatchThreadsToNodes space ?pb1 = Inr (?pb1\<lparr>pb_threads_to_nids_map := m\<rparr>)"
    "length m = nthreads * nodes"
    "\<forall>tid < nthreads. \<forall>nid < nodes. m ! (tid * nodes + nid) = chunk_touch space nthreads tid nid"
    by auto
  let ?pb2 = "?pb1\<lparr>pb_threads_to_nids_map := m\<rparr>"
  have "scratch_base ?pb2 nodes \<le> nodes * nthreads"
    unfolding scratch_base_def using base_of_le[of m nthreads nodes nodes] by simp
  then have k: "scratch_base ?pb2 (pb_nodes ?pb2) < 2 ^ 32" using small by (simp add: mult.commute)
  have a: "pb_nthreads ?pb2 * pb_nodes ?pb2 \<le> length (pb_threads_to_nids_map ?pb2)"
    "hc_row_ptr (pb_hist_buffer ?pb2) = []" "hc_n_nodes_added (pb_hist_buffer ?pb2) = 0"
    using m(2) by (simp_all add: HistCollection_Init_def Let_def)
  from AllocateAdditionalHistograms_succeeds[OF a k] obtain pb3 where
    s3: "AllocateAdditionalHistograms ?pb2 = Inr pb3" by blast
  have f3: "pb_threads_to_nids_map pb3 = m" "pb_nthreads pb3 = nthreads" "pb_nodes pb3 = nodes"
    using AllocateAdditionalHistograms_result[OF s3 a(2,3) k] by simp_all
  obtain pb4 where s4: "MatchNodeNidPairToHist pb3 = Inr pb4"
    "pb_threads_to_nids_map pb4 = m" "pb_nodes pb4 = nodes"
    using f3 m(2) by (simp add: MatchNodeNidPairToHist_def Let_def)
  let ?pb = "pb4\<lparr>pb_hist_was_used := replicate (nthreads * pb_nodes pb4) False\<rparr>"
  have "Reset nthreads nodes space targeted_hists pb0 = Inr ?pb"
    unfolding Reset_def Let_def using len m(1) s3 s4(1) by simp
  moreover have "pb_threads_to_nids_map ?pb = m" using s4(2) by simp
  ultimately show ?thesis using m(3) by auto
qed

lemma touching_chunk:
  assumes "\<forall>tid < pb_nthreads pb.
      pb_threads_to_nids_map pb ! (tid * pb_nodes pb + nid) = chunk_touch space (pb_nthreads pb) tid nid"
  shows "set (touching_threads pb nid) = {tid. tid < pb_nthreads pb \<and> chunk_touch space (pb_nthreads pb) tid nid}"
  using assms by (auto simp: touching_threads_def set_touch)

lemma Reset_assigned:
  assumes t: "0 < nthreads" and small: "nthreads * nodes < 2 ^ 31"
    and len: "length targeted_hists = nodes"
    and nd: "\<forall>u \<in> set space. fst u < nodes"
    and ok: "builder_ok pb0"
    and tl: "\<forall>h \<in> set targeted_hists. length h = pb_nbins pb0"
  shows "\<exists>pb. Reset nthreads nodes space targeted_hists pb0 = Inr pb \<and>
     assigned space pb \<and> shaped pb \<and> flags_ok space {} pb \<and>
     pb_nthreads pb = nthreads \<and> pb_nodes pb = nodes \<and> pb_nbins pb = pb_nbins pb0 \<and>
     pb_targeted_hists pb = targeted_hists"
proof -
  from Reset_succeeds[OF t small len nd, of pb0] obtain pb where
    r: "Reset nthreads nodes space targeted_hists pb0 = Inr pb"
    and m: "\<forall>tid < nthreads. \<forall>nid < nodes.
        pb_threads_to_nids_map pb ! (tid * nodes + nid) = chunk_touch space nthreads tid nid"
    by blast
  note R = Reset_result[OF r small]
  let ?ts = "touching_threads pb" let ?b = "scratch_base pb" let ?mp = "pb_tid_nid_to_hist pb"
  let ?hc0 = "HistCollection_Init (pb_nbins pb0 mod 2 ^ 32) (pb_hist_buffer pb0)"
  have T: "pb_nthreads pb = nthreads" and N: "pb_nodes pb = nodes"
    and nb: "pb_nbins pb = pb_nbins pb0" and tg: "pb_targeted_hists pb = targeted_hists"
    and used: "pb_hist_was_used pb = replicate (nthreads * nodes) False"
    using R by simp_all
  have pos: "\<And>n j. n < nodes \<Longrightarrow> j < length (?ts n) \<Longrightarrow>
      ?mp (?ts n ! j, n) = Some (if j = 0 then - 1 else int (?b n + j - 1))"
    using R by blast
  have none: "\<And>tid n. nodes \<le> n \<or> tid \<notin> set (?ts n) \<Longrightarrow> ?mp (tid, n) = None"
    using R by blast
  have hb: "hc_row_ptr (pb_hist_buffer pb) = [0..<?b nodes]"
    "hc_n_nodes_added (pb_hist_buffer pb) = ?b nodes"
    "hc_data (pb_hist_buffer pb) = hc_data ?hc0 @ replicate (?b nodes - length (hc_data ?hc0)) []"
    "hc_contiguous_allocation (pb_hist_buffer pb) = hc_contiguous_allocation ?hc0"
    "hc_nbins (pb_hist_buffer pb) = hc_nbins ?hc0"
    using R by simp_all
  have ts: "\<And>n. n < nodes \<Longrightarrow> set (?ts n) = {tid. tid < nthreads \<and> chunk_touch space nthreads tid n}"
    using touching_chunk[of pb _ space] m T N by simp
  have bS: "\<And>n. ?b (Suc n) = ?b n + (length (?ts n) - 1)"
    by (simp add: scratch_base_def touching_threads_def base_of_Suc)
  have bint: "\<And>n n'. n < n' \<Longrightarrow> ?b n + (length (?ts n) - 1) \<le> ?b n'"
    unfolding scratch_base_def touching_threads_def by (rule base_of_interval)
  have "?b nodes \<le> nodes * pb_nthreads pb" unfolding scratch_base_def by (rule base_of_le)
  then have K: "?b nodes < 2 ^ 31" using small T by (simp add: mult.commute)
  \<comment> \<open>a mapped pair sits at a position of the list of the touching threads of its node\<close>
  have at: "n < nodes \<and> (\<exists>j < length (?ts n). ?ts n ! j = tid \<and>
        v = (if j = 0 then - 1 else int (?b n + j - 1)))"
    if "?mp (tid, n) = Some v" for tid n v
  proof -
    have n: "n < nodes" using none[of n tid] that by (cases "n < nodes") auto
    have "tid \<in> set (?ts n)" using none[of n tid] that by auto
    then obtain j where j: "j < length (?ts n)" "?ts n ! j = tid" by (auto simp: in_set_conv_nth)
    then show ?thesis using pos[OF n j(1)] that n by auto
  qed
  have d1: "\<forall>tid nid. (?mp (tid, nid) \<noteq> None) =
        (tid < pb_nthreads pb \<and> nid < pb_nodes pb \<and> chunk_touch space (pb_nthreads pb) tid nid)"
  proof (intro allI iffI)
    fix tid nid assume "?mp (tid, nid) \<noteq> None"
    then obtain v where v: "?mp (tid, nid) = Some v" by auto
    from at[OF v] obtain j where "nid < nodes" "j < length (?ts nid)" "?ts nid ! j = tid" by blast
    then have "nid < nodes" "tid \<in> set (?ts nid)" by auto
    then show "tid < pb_nthreads pb \<and> nid < pb_nodes pb \<and> chunk_touch space (pb_nthreads pb) tid nid"
      using ts T N by auto
  next
    fix tid nid
    assume a: "tid < pb_nthreads pb \<and> nid < pb_nodes pb \<and> chunk_touch space (pb_nthreads pb) tid nid"
    then have n: "nid < nodes" and "tid \<in> set (?ts nid)" using ts T N by auto
    then obtain j where "j < length (?ts nid)" "?ts nid ! j = tid" by (auto simp: in_set_conv_nth)
    then show "?mp (tid, nid) \<noteq> None" using pos[OF n] by auto
  qed
  have d2: "\<forall>tid nid v. ?mp (tid, nid) = Some v \<longrightarrow>
        v = - 1 \<or> (0 \<le> v \<and> nat v < hc_n_nodes_added (pb_hist_buffer pb))"
  proof (intro allI impI)
    fix tid nid v assume v: "?mp (tid, nid) = Some v"
    from at[OF v] obtain j where j: "nid < nodes" "j < length (?ts nid)"
      "v = (if j = 0 then - 1 else int (?b nid + j - 1))" by blast
    show "v = - 1 \<or> (0 \<le> v \<and> nat v < hc_n_nodes_added (pb_hist_buffer pb))"
    proof (cases "j = 0")
      case True
      then show ?thesis using j by simp
    next
      case False
      have "?b (Suc nid) \<le> ?b nodes"
        unfolding scratch_base_def using j(1) by (intro base_of_mono) simp
      then have "?b nid + j - 1 < ?b nodes" using bS[of nid] j(2) False by linarith
      then show ?thesis using j(3) False hb(2) by simp
    qed
  qed
  have d3: "\<forall>tid tid' nid. ?mp (tid, nid) = Some (- 1) \<and> ?mp (tid', nid) = Some (- 1) \<longrightarrow> tid' = tid"
  proof (intro allI impI, elim conjE)
    fix tid tid' nid assume a: "?mp (tid, nid) = Some (- 1)" "?mp (tid', nid) = Some (- 1)"
    from at[OF a(1)] obtain j where j: "j < length (?ts nid)" "?ts nid ! j = tid"
      "- 1 = (if j = 0 then - 1 else int (?b nid + j - 1))" by blast
    from at[OF a(2)] obtain j' where j': "j' < length (?ts nid)" "?ts nid ! j' = tid'"
      "- 1 = (if j' = 0 then - 1 else int (?b nid + j' - 1))" by blast
    have "j = 0" using j(3) by (cases "j = 0") simp_all
    moreover have "j' = 0" using j'(3) by (cases "j' = 0") simp_all
    ultimately show "tid' = tid" using j(2) j'(2) by simp
  qed
  have d4: "\<forall>tid tid' nid nid' v. 0 \<le> v \<and> ?mp (tid, nid) = Some v \<and>
        ?mp (tid', nid') = Some v \<longrightarrow> tid' = tid \<and> nid' = nid"
  proof (intro allI impI, elim conjE)
    fix tid tid' nid nid' v
    assume a: "0 \<le> v" "?mp (tid, nid) = Some v" "?mp (tid', nid') = Some v"
    from at[OF a(2)] obtain j where j: "nid < nodes" "j < length (?ts nid)" "?ts nid ! j = tid"
      "v = (if j = 0 then - 1 else int (?b nid + j - 1))" by blast
    from at[OF a(3)] obtain j' where j': "nid' < nodes" "j' < length (?ts nid')" "?ts nid' ! j' = tid'"
      "v = (if j' = 0 then - 1 else int (?b nid' + j' - 1))" by blast
    have j0: "0 < j" using j(4) a(1) by (cases "j = 0") simp_all
    have j0': "0 < j'" using j'(4) a(1) by (cases "j' = 0") simp_all
    have e: "?b nid + j - 1 = ?b nid' + j' - 1" using j(4) j'(4) j0 j0' by simp
    have "nid' = nid"
    proof (rule ccontr)
      assume "nid' \<noteq> nid"
      then consider "nid < nid'" | "nid' < nid" by linarith
      then show False
      proof cases
        case 1
        from bint[OF 1] j(2) j'(2) j0 j0' e show False by linarith
      next
        case 2
        from bint[OF 2] j(2) j'(2) j0 j0' e show False by linarith
      qed
    qed
    moreover from this e j0 j0' have "j' = j" by simp
    ultimately show "tid' = tid \<and> nid' = nid" using j(3) j'(3) by simp
  qed
  have d5: "\<forall>tid nid. ?mp (tid, nid) \<noteq> None \<longrightarrow> (\<exists>tid'. ?mp (tid', nid) = Some (- 1))"
  proof (intro allI impI)
    fix tid nid assume "?mp (tid, nid) \<noteq> None"
    then obtain v where v: "?mp (tid, nid) = Some v" by auto
    from at[OF v] obtain j where j: "nid < nodes" "j < length (?ts nid)" by blast
    then have "0 < length (?ts nid)" by linarith
    from pos[OF j(1) this] show "\<exists>tid'. ?mp (tid', nid) = Some (- 1)" by auto
  qed
  have ok': "pb_nbins pb0 < 2 ^ 32" "hc_nbins (pb_hist_buffer pb0) = pb_nbins pb0"
    "\<not> hc_contiguous_allocation (pb_hist_buffer pb0)"
    "\<forall>h \<in> set (hc_data (pb_hist_buffer pb0)). length h = 0 \<or> length h = pb_nbins pb0"
    using ok by (simp_all add: builder_ok_def list_all_iff)
  have hc0: "hc_nbins ?hc0 = pb_nbins pb0" "hc_data ?hc0 = hc_data (pb_hist_buffer pb0)"
    "\<not> hc_contiguous_allocation ?hc0"
    using ok' by (simp_all add: HistCollection_Init_def Let_def)
  have d6: "hc_row_ptr (pb_hist_buffer pb) = [0..<hc_n_nodes_added (pb_hist_buffer pb)]"
    "hc_n_nodes_added (pb_hist_buffer pb) \<le> length (hc_data (pb_hist_buffer pb))"
    "hc_n_nodes_added (pb_hist_buffer pb) < 2 ^ 31"
    "\<not> hc_contiguous_allocation (pb_hist_buffer pb)"
    "hc_nbins (pb_hist_buffer pb) = pb_nbins pb"
    using hb K hc0 nb by simp_all
  have asg: "assigned space pb"
    unfolding assigned_def using t T d1 d2 d3 d4 d5 d6 by blast
  have "\<forall>h \<in> set (hc_data (pb_hist_buffer pb)). length h = 0 \<or> length h = pb_nbins pb"
    using hb(3) hc0(2) ok'(4) nb by auto
  then have shp: "shaped pb"
    unfolding shaped_def using tg len tl nb N T used by simp
  have "units_of space nthreads {} tid nid = {}" for tid nid by (simp add: units_of_def)
  then have fl: "flags_ok space {} pb"
    unfolding flags_ok_def using used T N by (simp add: index_bound)
  show ?thesis using r asg shp fl T N nb tg by blast
qed

section \<open>The parallel loop\<close>

text \<open>The kernel adds to every bin the sum of the unit.\<close>

lemma length_kernel_fold:
  "length (fold (\<lambda>r h. fold (\<lambda>b h. h[b := h ! b + gpair ! r]) (gmat ! r) h) rows h) = length h"
proof (induction rows arbitrary: h)
  case Nil
  show ?case by simp
next
  case (Cons r rows)
  have "length (fold (\<lambda>b h. h[b := h ! b + g]) bins k) = length k" for bins g and k :: "'a list"
    by (induction bins arbitrary: k) simp_all
  then show ?case using Cons by simp
qed

lemma add_row_result:
  fixes h :: "'g::comm_monoid_add list"
  assumes "\<forall>b \<in> set bins. b < length h"
  shows "length (fold (\<lambda>b h. h[b := h ! b + g]) bins h) = length h \<and>
     (\<forall>c < length h. fold (\<lambda>b h. h[b := h ! b + g]) bins h ! c =
        h ! c + sum_list (map (\<lambda>j. if j = c then g else 0) bins))"
  using assms
proof (induction bins arbitrary: h)
  case Nil
  show ?case by simp
next
  case (Cons b bins)
  let ?h1 = "h[b := h ! b + g]"
  have "\<forall>b \<in> set bins. b < length ?h1" using Cons.prems by simp
  note ih = Cons.IH[OF this]
  have b: "b < length h" using Cons.prems by simp
  show ?case
  proof (intro conjI allI impI)
    show "length (fold (\<lambda>b h. h[b := h ! b + g]) (b # bins) h) = length h" using ih by simp
  next
    fix c assume c: "c < length h"
    have "fold (\<lambda>b h. h[b := h ! b + g]) (b # bins) h ! c
        = ?h1 ! c + sum_list (map (\<lambda>j. if j = c then g else 0) bins)"
      using ih c by simp
    also have "?h1 ! c = h ! c + (if b = c then g else 0)" using b c by (simp add: nth_list_update)
    finally show "fold (\<lambda>b h. h[b := h ! b + g]) (b # bins) h ! c =
        h ! c + sum_list (map (\<lambda>j. if j = c then g else 0) (b # bins))"
      by (simp add: add.assoc)
  qed
qed

lemma BuildHist_fold:
  fixes h :: "'g::comm_monoid_add list"
  assumes "\<forall>r \<in> set rows. \<forall>b \<in> set (gmat ! r). b < length h"
  shows "length (fold (\<lambda>r h. fold (\<lambda>b h. h[b := h ! b + gpair ! r]) (gmat ! r) h) rows h) = length h \<and>
     (\<forall>c < length h.
        fold (\<lambda>r h. fold (\<lambda>b h. h[b := h ! b + gpair ! r]) (gmat ! r) h) rows h ! c =
        h ! c + sum_list (map (\<lambda>r. sum_list (map (\<lambda>j. if j = c then gpair ! r else 0) (gmat ! r))) rows))"
  using assms
proof (induction rows arbitrary: h)
  case Nil
  show ?case by simp
next
  case (Cons r rows)
  let ?h1 = "fold (\<lambda>b h. h[b := h ! b + gpair ! r]) (gmat ! r) h"
  have r: "\<forall>b \<in> set (gmat ! r). b < length h" using Cons.prems by simp
  note a = add_row_result[OF r, of "gpair ! r"]
  have "\<forall>r \<in> set rows. \<forall>b \<in> set (gmat ! r). b < length ?h1" using Cons.prems a by simp
  note ih = Cons.IH[OF this]
  show ?case
  proof (intro conjI allI impI)
    show "length (fold (\<lambda>r h. fold (\<lambda>b h. h[b := h ! b + gpair ! r]) (gmat ! r) h) (r # rows) h)
        = length h" using ih a by simp
  next
    fix c assume c: "c < length h"
    have "fold (\<lambda>r h. fold (\<lambda>b h. h[b := h ! b + gpair ! r]) (gmat ! r) h) (r # rows) h ! c
        = ?h1 ! c + sum_list (map (\<lambda>r. sum_list (map (\<lambda>j. if j = c then gpair ! r else 0) (gmat ! r))) rows)"
      using ih a c by simp
    also have "?h1 ! c = h ! c + sum_list (map (\<lambda>j. if j = c then gpair ! r else 0) (gmat ! r))"
      using a c by simp
    finally show "fold (\<lambda>r h. fold (\<lambda>b h. h[b := h ! b + gpair ! r]) (gmat ! r) h) (r # rows) h ! c =
        h ! c + sum_list (map (\<lambda>r. sum_list (map (\<lambda>j. if j = c then gpair ! r else 0) (gmat ! r)))
                           (r # rows))"
      by (simp add: add.assoc)
  qed
qed

lemma BuildHist_unit:
  fixes h :: "'g::comm_monoid_add list"
  assumes "space_ok nodes nbins gpair gmat space" "i < length space" "length h = nbins"
  shows "BuildHist gpair (snd (space ! i)) gmat h =
     Inr (map (\<lambda>b. h ! b + unit_sum gpair gmat space i b) [0..<nbins])"
proof -
  let ?rows = "snd (space ! i)"
  have u: "space ! i \<in> set space" using assms(2) by simp
  have v: "\<forall>r \<in> set ?rows. r < length gpair \<and> r < length gmat \<and> (\<forall>b \<in> set (gmat ! r). b < nbins)"
    using assms(1) u by (auto simp: space_ok_def list_all_iff)
  then have ok: "list_all (\<lambda>r. r < length gpair \<and> r < length gmat \<and>
                       list_all (\<lambda>b. b < length h) (gmat ! r)) ?rows"
    using assms(3) by (simp add: list_all_iff)
  have "\<forall>r \<in> set ?rows. \<forall>b \<in> set (gmat ! r). b < length h" using v assms(3) by simp
  note f = BuildHist_fold[OF this, of gpair]
  have "fold (\<lambda>r h. fold (\<lambda>b h. h[b := h ! b + gpair ! r]) (gmat ! r) h) ?rows h
      = map (\<lambda>b. h ! b + unit_sum gpair gmat space i b) [0..<nbins]"
    using f assms(3) by (intro nth_equalityI) (simp_all add: unit_sum_def)
  then show ?thesis using ok by (simp add: BuildHist_def)
qed

text \<open>Facts of a state that is assigned and shaped.\<close>

lemma InitilizeHistByZeroes_all:
  "InitilizeHistByZeroes h 0 (length h) = Inr (replicate (length h) 0)"
proof -
  have "map (\<lambda>i. if 0 \<le> i \<and> i < length h then 0 else h ! i) [0..<length h]
      = replicate (length h) 0"
    by (rule nth_equalityI) simp_all
  then show ?thesis unfolding InitilizeHistByZeroes_def by simp
qed

lemma int_to_bst_uint_small: "0 \<le> v \<Longrightarrow> nat v < 2 ^ 31 \<Longrightarrow> int_to_bst_uint v = nat v"
proof -
  assume a: "0 \<le> v" "nat v < 2 ^ 31"
  have "int (nat v) < 2 ^ 31" using a(2) by (metis of_nat_less_numeral_power_cancel_iff)
  then have "v < 2 ^ 32" using a(1) by simp
  then show ?thesis using a(1) by (simp add: int_to_bst_uint_def)
qed

lemma assigned_row:
  assumes a: "assigned space pb" and v: "pb_tid_nid_to_hist pb (tid, nid) = Some v" "v \<noteq> - 1"
  shows "0 \<le> v" "nat v < hc_n_nodes_added (pb_hist_buffer pb)"
    "nat v < length (hc_data (pb_hist_buffer pb))" "int_to_bst_uint v = nat v"
    "hc_row_ptr (pb_hist_buffer pb) ! nat v = nat v"
    "nat v < length (hc_row_ptr (pb_hist_buffer pb))" "nat v \<noteq> kMax"
proof -
  let ?hb = "pb_hist_buffer pb"
  have r: "v = - 1 \<or> (0 \<le> v \<and> nat v < hc_n_nodes_added ?hb)"
    using a v(1) unfolding assigned_def by blast
  then show 1: "0 \<le> v" and 2: "nat v < hc_n_nodes_added ?hb" using v(2) by simp_all
  have k: "hc_n_nodes_added ?hb \<le> length (hc_data ?hb)" "hc_n_nodes_added ?hb < 2 ^ 31"
    "hc_row_ptr ?hb = [0..<hc_n_nodes_added ?hb]"
    using a unfolding assigned_def by simp_all
  show "nat v < length (hc_data ?hb)" using 2 k(1) by simp
  have s: "nat v < 2 ^ 31" using 2 k(2) by simp
  show "int_to_bst_uint v = nat v" using int_to_bst_uint_small[OF 1 s] .
  show "hc_row_ptr ?hb ! nat v = nat v" using 2 by (simp add: k(3))
  show "nat v < length (hc_row_ptr ?hb)" using 2 by (simp add: k(3))
  show "nat v \<noteq> kMax" using s by (simp add: kMax_def)
qed

lemma assigned_pair:
  assumes a: "assigned space pb" and v: "pb_tid_nid_to_hist pb (tid, nid) = Some v"
  shows "tid < pb_nthreads pb" "nid < pb_nodes pb"
proof -
  have "pb_tid_nid_to_hist pb (tid, nid) \<noteq> None" using v by simp
  then have "tid < pb_nthreads pb \<and> nid < pb_nodes pb"
    using a unfolding assigned_def by blast
  then show "tid < pb_nthreads pb" "nid < pb_nodes pb" by simp_all
qed

lemma shaped_lengths:
  assumes "shaped pb"
  shows "nid < pb_nodes pb \<Longrightarrow> length (pb_targeted_hists pb ! nid) = pb_nbins pb"
    and "i < length (hc_data (pb_hist_buffer pb)) \<Longrightarrow>
         length (hc_data (pb_hist_buffer pb) ! i) = 0 \<or>
         length (hc_data (pb_hist_buffer pb) ! i) = pb_nbins pb"
  using assms unfolding shaped_def by (simp_all add: all_set_conv_all_nth)

text \<open>\<^verbatim>\<open>GetInitializedHist\<close> for a pair that is mapped.\<close>

lemma GetInitializedHist_result:
  fixes pb :: "'g::comm_monoid_add ParallelGHistBuilder"
  assumes a: "assigned space pb" and s: "shaped pb" and nb: "0 < pb_nbins pb"
    and v: "pb_tid_nid_to_hist pb (tid, nid) = Some v"
    and u: "u = tid * pb_nodes pb + nid"
    and h0: "h0 = (if pb_hist_was_used pb ! u then storage pb tid nid
                   else replicate (pb_nbins pb) 0)"
    and st: "pb_hist_was_used pb ! u \<Longrightarrow> length (storage pb tid nid) = pb_nbins pb"
  shows "GetInitializedHist tid nid pb =
     Inr ((set_storage pb v nid h0)\<lparr>pb_hist_was_used := (pb_hist_was_used pb)[u := True]\<rparr>,
          if v = - 1 then Target nid else Buffer (nat v) 0)"
proof -
  let ?T = "pb_nthreads pb" let ?N = "pb_nodes pb" let ?hb = "pb_hist_buffer pb"
  let ?used = "pb_hist_was_used pb"
  note tn = assigned_pair[OF a v]
  have ul: "u < length ?used" using s tn u by (simp add: shaped_def index_bound)
  have same: "?used ! u \<Longrightarrow> ?used[u := True] = ?used"
    by (metis list_update_id)
  have lt: "length (pb_targeted_hists pb) = ?N" using s by (simp add: shaped_def)
  show ?thesis
  proof (cases "v = - 1")
    case True
    have hist: "hist_of_idx pb ?hb nid v = Inr (Target nid)"
      using True tn lt by (simp add: hist_of_idx_def)
    have rd: "read_hist pb (Target nid) = Inr (pb_targeted_hists pb ! nid)"
      using tn lt by (simp add: read_hist_def)
    have ln: "length (pb_targeted_hists pb ! nid) = pb_nbins pb"
      using shaped_lengths(1)[OF s tn(2)] .
    show ?thesis
    proof (cases "?used ! u")
      case used: True
      have "h0 = pb_targeted_hists pb ! nid" using h0 used v True by (simp add: storage_def)
      then have "set_storage pb v nid h0 = pb" using True by (simp add: set_storage_def)
      then show ?thesis
        unfolding GetInitializedHist_def Let_def
        using tn v True hist ul used same by (simp add: u)
    next
      case unused: False
      have "h0 = replicate (pb_nbins pb) 0" using h0 unused by simp
      then have "set_storage pb v nid h0 =
          pb\<lparr>pb_targeted_hists := (pb_targeted_hists pb)[nid := replicate (pb_nbins pb) 0]\<rparr>"
        using True by (simp add: set_storage_def)
      then show ?thesis
        unfolding GetInitializedHist_def Let_def
        using tn v True hist ul unused rd ln
        by (simp add: u InitilizeHistByZeroes_all write_hist_def)
    qed
  next
    case False
    note r = assigned_row[OF a v False]
    let ?i = "nat v"
    have hn: "hc_nbins ?hb = pb_nbins pb" "\<not> hc_contiguous_allocation ?hb"
      using a unfolding assigned_def by simp_all
    have nn: "\<not> 0 > v" "0 \<le> v" using r(1) by simp_all
    show ?thesis
    proof (cases "?used ! u")
      case used: True
      have l: "length (hc_data ?hb ! ?i) = pb_nbins pb"
        using st[OF used] v False by (simp add: storage_def)
      then have al: "AllocateData ?i ?hb = Inr ?hb"
        using r nb by (simp add: AllocateData_def Let_def)
      have hist: "hist_of_idx pb ?hb nid v = Inr (Buffer ?i 0)"
        using False r hn by (simp add: hist_of_idx_def HistCollection_at_def Let_def)
      have "h0 = hc_data ?hb ! ?i" using h0 used v False by (simp add: storage_def)
      then have "set_storage pb v nid h0 = pb" using False by (simp add: set_storage_def)
      then show ?thesis
        unfolding GetInitializedHist_def Let_def
        using tn v False r(1,4) al hist ul used same by (simp add: u)
    next
      case unused: False
      have hz: "h0 = replicate (pb_nbins pb) 0" using h0 unused by simp
      define d1 where "d1 = (if length (hc_data ?hb ! ?i) = 0
          then (hc_data ?hb)[?i := vector_resize (pb_nbins pb) 0 (hc_data ?hb ! ?i)]
          else hc_data ?hb)"
      have al: "AllocateData ?i ?hb = Inr (?hb\<lparr>hc_data := d1\<rparr>)"
        using r hn by (simp add: AllocateData_def Let_def d1_def)
      have d1l: "length d1 = length (hc_data ?hb)" by (simp add: d1_def)
      have d1i: "length (d1 ! ?i) = pb_nbins pb"
        using shaped_lengths(2)[OF s r(3)] r(3)
        by (auto simp: d1_def length_vector_resize)
      have d1u: "d1[?i := x] = (hc_data ?hb)[?i := x]" for x
        by (simp add: d1_def)
      let ?hc = "?hb\<lparr>hc_data := d1\<rparr>"
      have hist: "hist_of_idx pb ?hc nid v = Inr (Buffer ?i 0)"
        using False r hn d1l by (simp add: hist_of_idx_def HistCollection_at_def Let_def)
      have rd: "read_hist (pb\<lparr>pb_hist_buffer := ?hc\<rparr>) (Buffer ?i 0) = Inr (d1 ! ?i)"
        using r(3) d1l d1i hn by (simp add: read_hist_def Let_def)
      have wr: "write_hist (pb\<lparr>pb_hist_buffer := ?hc\<rparr>) (Buffer ?i 0) (replicate (pb_nbins pb) 0)
          = pb\<lparr>pb_hist_buffer := ?hb\<lparr>hc_data := (hc_data ?hb)[?i := replicate (pb_nbins pb) 0]\<rparr>\<rparr>"
        using d1i hn by (simp add: write_hist_def Let_def d1u)
      have ss: "set_storage pb v nid h0 =
          pb\<lparr>pb_hist_buffer := ?hb\<lparr>hc_data := (hc_data ?hb)[?i := replicate (pb_nbins pb) 0]\<rparr>\<rparr>"
        using False hz by (simp add: set_storage_def)
      have zi: "InitilizeHistByZeroes (d1 ! ?i) 0 (length (d1 ! ?i)) = Inr (replicate (pb_nbins pb) 0)"
        using InitilizeHistByZeroes_all[of "d1 ! ?i"] d1i by simp
      show ?thesis
        unfolding GetInitializedHist_def Let_def ss
        using tn v False r(1,4) al hist ul unused rd zi wr
        by (simp add: u)
    qed
  qed
qed

text \<open>Reading and writing the array of a pair through its span.\<close>

lemma read_set_storage:
  assumes a: "assigned space pb" and s: "shaped pb"
    and v: "pb_tid_nid_to_hist pb (tid, nid) = Some v"
    and l: "length h = pb_nbins pb"
  shows "read_hist ((set_storage pb v nid h)\<lparr>pb_hist_was_used := x\<rparr>)
           (if v = - 1 then Target nid else Buffer (nat v) 0) = Inr h"
proof (cases "v = - 1")
  case True
  have "nid < length (pb_targeted_hists pb)"
    using assigned_pair[OF a v] s by (simp add: shaped_def)
  then show ?thesis using True by (simp add: read_hist_def set_storage_def)
next
  case False
  note r = assigned_row[OF a v False]
  have "hc_nbins (pb_hist_buffer pb) = pb_nbins pb" using a unfolding assigned_def by simp
  then show ?thesis using False r(3) l by (simp add: read_hist_def set_storage_def Let_def)
qed

lemma write_set_storage:
  assumes a: "assigned space pb"
    and v: "pb_tid_nid_to_hist pb (tid, nid) = Some v"
    and l: "length h = pb_nbins pb"
  shows "write_hist ((set_storage pb v nid h)\<lparr>pb_hist_was_used := x\<rparr>)
           (if v = - 1 then Target nid else Buffer (nat v) 0) h1
         = (set_storage pb v nid h1)\<lparr>pb_hist_was_used := x\<rparr>"
proof (cases "v = - 1")
  case True
  then show ?thesis by (simp add: write_hist_def set_storage_def)
next
  case False
  note r = assigned_row[OF a v False]
  have "hc_nbins (pb_hist_buffer pb) = pb_nbins pb" using a unfolding assigned_def by simp
  then show ?thesis using False r(3) l by (simp add: write_hist_def set_storage_def Let_def)
qed

text \<open>One unit of the parallel loop.\<close>

lemma build_unit_result:
  fixes pb :: "'g::comm_monoid_add ParallelGHistBuilder"
  assumes a: "assigned space pb" and s: "shaped pb" and nb: "0 < pb_nbins pb"
    and sp: "space_ok (pb_nodes pb) (pb_nbins pb) gpair gmat space"
    and i: "i < length space"
    and nid: "nid = fst (space ! i)"
    and tid: "tid = thread_of_unit (length space) (pb_nthreads pb) i"
    and u: "u = tid * pb_nodes pb + nid"
    and h0: "h0 = (if pb_hist_was_used pb ! u then storage pb tid nid
                   else replicate (pb_nbins pb) 0)"
    and st: "pb_hist_was_used pb ! u \<Longrightarrow> length (storage pb tid nid) = pb_nbins pb"
  shows "\<exists>v. pb_tid_nid_to_hist pb (tid, nid) = Some v \<and>
     build_unit gpair gmat space (pb_nthreads pb) i pb =
       Inr ((set_storage pb v nid (map (\<lambda>b. h0 ! b + unit_sum gpair gmat space i b) [0..<pb_nbins pb]))
              \<lparr>pb_hist_was_used := (pb_hist_was_used pb)[u := True]\<rparr>)"
proof -
  have T: "0 < pb_nthreads pb" using a unfolding assigned_def by simp
  have srt: "sorted (map fst space)" using sp by (simp add: space_ok_def)
  have "space ! i \<in> set space" using i by simp
  then have nN: "nid < pb_nodes pb" using sp nid by (auto simp: space_ok_def list_all_iff)
  have tT: "tid < pb_nthreads pb" unfolding tid using thread_of_unit_less[OF T i] .
  have "chunk_touch space (pb_nthreads pb) tid nid"
    unfolding tid nid using unit_touch[OF srt i] .
  then have "pb_tid_nid_to_hist pb (tid, nid) \<noteq> None"
    using a nN tT unfolding assigned_def by blast
  then obtain v where v: "pb_tid_nid_to_hist pb (tid, nid) = Some v" by auto
  have l0: "length h0 = pb_nbins pb" using h0 st by simp
  let ?hist = "if v = - 1 then Target nid else Buffer (nat v) 0"
  let ?pb1 = "(set_storage pb v nid h0)\<lparr>pb_hist_was_used := (pb_hist_was_used pb)[u := True]\<rparr>"
  let ?h1 = "map (\<lambda>b. h0 ! b + unit_sum gpair gmat space i b) [0..<pb_nbins pb]"
  have g: "GetInitializedHist tid nid pb = Inr (?pb1, ?hist)"
    using GetInitializedHist_result[OF a s nb v u h0 st] .
  have rd: "read_hist ?pb1 ?hist = Inr h0" using read_set_storage[OF a s v l0] .
  have bh: "BuildHist gpair (snd (space ! i)) gmat h0 = Inr ?h1"
    using BuildHist_unit[OF sp i l0] .
  have wr: "write_hist ?pb1 ?hist ?h1 =
      (set_storage pb v nid ?h1)\<lparr>pb_hist_was_used := (pb_hist_was_used pb)[u := True]\<rparr>"
    using write_set_storage[OF a v l0] .
  have "build_unit gpair gmat space (pb_nthreads pb) i pb = Inr (write_hist ?pb1 ?hist ?h1)"
    unfolding build_unit_def Let_def tid[symmetric] nid[symmetric]
    using i g rd bh by simp
  then show ?thesis using v wr by simp
qed

text \<open>Writing the array of one pair leaves the bookkeeping and the other pairs alone.\<close>

lemma assigned_frame:
  assumes "assigned space pb"
    and "pb_nthreads pb' = pb_nthreads pb" "pb_nodes pb' = pb_nodes pb"
    and "pb_tid_nid_to_hist pb' = pb_tid_nid_to_hist pb"
    and "hc_n_nodes_added (pb_hist_buffer pb') = hc_n_nodes_added (pb_hist_buffer pb)"
    and "hc_row_ptr (pb_hist_buffer pb') = hc_row_ptr (pb_hist_buffer pb)"
    and "length (hc_data (pb_hist_buffer pb')) = length (hc_data (pb_hist_buffer pb))"
    and "hc_contiguous_allocation (pb_hist_buffer pb') = hc_contiguous_allocation (pb_hist_buffer pb)"
    and "hc_nbins (pb_hist_buffer pb') = hc_nbins (pb_hist_buffer pb)"
    and "pb_nbins pb' = pb_nbins pb"
  shows "assigned space pb'"
  using assms(1) unfolding assigned_def assms(2-) .

lemma assigned_set_storage:
  assumes "assigned space pb"
  shows "assigned space ((set_storage pb v nid h)\<lparr>pb_hist_was_used := x\<rparr>)"
  by (rule assigned_frame[OF assms]) (simp_all add: set_storage_def)

lemma shaped_set_storage:
  assumes s: "shaped pb" and l: "length h = pb_nbins pb" and x: "length x = length (pb_hist_was_used pb)"
  shows "shaped ((set_storage pb v nid h)\<lparr>pb_hist_was_used := x\<rparr>)"
proof (cases "v = - 1")
  case True
  have "set ((pb_targeted_hists pb)[nid := h]) \<subseteq> insert h (set (pb_targeted_hists pb))"
    by (rule set_update_subset_insert)
  then have "\<forall>k \<in> set ((pb_targeted_hists pb)[nid := h]). length k = pb_nbins pb"
    using s l unfolding shaped_def by auto
  then show ?thesis using True s x unfolding shaped_def set_storage_def by simp
next
  case False
  let ?d = "hc_data (pb_hist_buffer pb)"
  have "set (?d[nat v := h]) \<subseteq> insert h (set ?d)" by (rule set_update_subset_insert)
  then have "\<forall>k \<in> set (?d[nat v := h]). length k = 0 \<or> length k = pb_nbins pb"
    using s l unfolding shaped_def by auto
  then show ?thesis using False s x unfolding shaped_def set_storage_def by simp
qed

lemma storage_set_same:
  assumes a: "assigned space pb" and s: "shaped pb"
    and v: "pb_tid_nid_to_hist pb (tid, nid) = Some v"
  shows "storage ((set_storage pb v nid h)\<lparr>pb_hist_was_used := x\<rparr>) tid nid = h"
proof (cases "v = - 1")
  case True
  have "nid < length (pb_targeted_hists pb)"
    using assigned_pair[OF a v] s by (simp add: shaped_def)
  then show ?thesis using True v by (simp add: storage_def set_storage_def)
next
  case False
  note r = assigned_row[OF a v False]
  show ?thesis using False v r(3) by (simp add: storage_def set_storage_def)
qed

lemma storage_set_other:
  assumes a: "assigned space pb"
    and v: "pb_tid_nid_to_hist pb (tid, nid) = Some v"
    and v': "pb_tid_nid_to_hist pb (tid', nid') = Some v'"
    and ne: "(tid', nid') \<noteq> (tid, nid)"
  shows "storage ((set_storage pb v nid h)\<lparr>pb_hist_was_used := x\<rparr>) tid' nid' = storage pb tid' nid'"
proof -
  have one: "\<And>t t' n. pb_tid_nid_to_hist pb (t, n) = Some (- 1) \<Longrightarrow>
      pb_tid_nid_to_hist pb (t', n) = Some (- 1) \<Longrightarrow> t' = t"
    using a unfolding assigned_def by blast
  have inj: "\<And>t t' n n' w. 0 \<le> w \<Longrightarrow> pb_tid_nid_to_hist pb (t, n) = Some w \<Longrightarrow>
      pb_tid_nid_to_hist pb (t', n') = Some w \<Longrightarrow> t' = t \<and> n' = n"
    using a unfolding assigned_def by blast
  show ?thesis
  proof (cases "v = - 1")
    case True
    show ?thesis
    proof (cases "v' = - 1")
      case t: True
      have "nid' \<noteq> nid" using one[of tid nid tid'] v v' True t ne by auto
      then show ?thesis using True t v' by (simp add: storage_def set_storage_def)
    next
      case False
      then show ?thesis using True v' by (simp add: storage_def set_storage_def)
    qed
  next
    case False
    note r = assigned_row[OF a v False]
    show ?thesis
    proof (cases "v' = - 1")
      case True
      then show ?thesis using False v' by (simp add: storage_def set_storage_def)
    next
      case f: False
      note r' = assigned_row[OF a v' f]
      have "v' \<noteq> v" using inj[OF r(1) v, of tid' nid'] v' ne by auto
      then have "nat v' \<noteq> nat v" using r(1) r'(1) by simp
      then show ?thesis using False f v' by (simp add: storage_def set_storage_def)
    qed
  qed
qed

text \<open>The units of a pair, and the partial histograms, when one more unit is done.\<close>

lemma units_of_insert:
  "units_of space t (insert i S) tid nid =
     (if thread_of_unit (length space) t i = tid \<and> fst (space ! i) = nid
      then insert i (units_of space t S tid nid) else units_of space t S tid nid)"
  by (auto simp: units_of_def)

lemma finite_units_of: "finite S \<Longrightarrow> finite (units_of space t S tid nid)"
  by (simp add: units_of_def)

lemma length_partial_hist [simp]:
  "length (partial_hist gpair gmat space t nbins S tid nid) = nbins"
  by (simp add: partial_hist_def)

lemma partial_hist_empty:
  "units_of space t S tid nid = {} \<Longrightarrow>
   partial_hist gpair gmat space t nbins S tid nid = replicate nbins 0"
  by (intro nth_equalityI) (simp_all add: partial_hist_def)

lemma partial_hist_insert:
  assumes "finite S" "i \<notin> S"
    and "thread_of_unit (length space) t i = tid" "fst (space ! i) = nid"
  shows "partial_hist gpair gmat space t nbins (insert i S) tid nid =
     map (\<lambda>b. partial_hist gpair gmat space t nbins S tid nid ! b + unit_sum gpair gmat space i b)
       [0..<nbins]"
proof -
  have ni: "i \<notin> units_of space t S tid nid" using assms(2) by (simp add: units_of_def)
  have fin: "finite (units_of space t S tid nid)" using assms(1) by (rule finite_units_of)
  have u: "units_of space t (insert i S) tid nid = insert i (units_of space t S tid nid)"
    using assms(3,4) by (simp add: units_of_insert)
  show ?thesis
    by (intro nth_equalityI)
       (simp_all add: partial_hist_def u sum.insert[OF fin ni] add.commute)
qed

text \<open>The invariant of the parallel loop is kept by every unit.\<close>

lemma build_unit_inv:
  fixes pb :: "'g::comm_monoid_add ParallelGHistBuilder"
  assumes inv: "loop_inv gpair gmat space S pb" and nb: "0 < pb_nbins pb"
    and sp: "space_ok (pb_nodes pb) (pb_nbins pb) gpair gmat space"
    and i: "i < length space" and iS: "i \<notin> S" and S: "S \<subseteq> {..<length space}"
  shows "\<exists>pb'. build_unit gpair gmat space (pb_nthreads pb) i pb = Inr pb' \<and>
     loop_inv gpair gmat space (insert i S) pb' \<and>
     pb_nthreads pb' = pb_nthreads pb \<and> pb_nodes pb' = pb_nodes pb \<and> pb_nbins pb' = pb_nbins pb"
proof -
  let ?T = "pb_nthreads pb" let ?N = "pb_nodes pb" let ?nb = "pb_nbins pb"
  let ?used = "pb_hist_was_used pb"
  define nid where "nid = fst (space ! i)"
  define tid where "tid = thread_of_unit (length space) ?T i"
  define u where "u = tid * ?N + nid"
  define h0 where "h0 = (if ?used ! u then storage pb tid nid else replicate ?nb 0)"
  define h1 where "h1 = map (\<lambda>b. h0 ! b + unit_sum gpair gmat space i b) [0..<?nb]"
  have a: "assigned space pb" and s: "shaped pb" and fl: "flags_ok space S pb"
    and no: "\<And>n. n < ?N \<Longrightarrow> node_ok gpair gmat space S pb n"
    using inv unfolding loop_inv_def by simp_all
  have fin: "finite S" using S finite_subset by blast
  have T: "0 < ?T" using a unfolding assigned_def by simp
  have srt: "sorted (map fst space)" using sp by (simp add: space_ok_def)
  have "space ! i \<in> set space" using i by simp
  then have nN: "nid < ?N" using sp by (auto simp: space_ok_def list_all_iff nid_def)
  have tT: "tid < ?T" unfolding tid_def using thread_of_unit_less[OF T i] .
  have uf: "?used ! u = (units_of space ?T S tid nid \<noteq> {})"
    using fl tT nN unfolding flags_ok_def u_def by simp
  have pS: "h0 = partial_hist gpair gmat space ?T ?nb S tid nid"
  proof (cases "?used ! u")
    case True
    then have "storage pb tid nid = partial_hist gpair gmat space ?T ?nb S tid nid"
      using no[OF nN] tT uf unfolding node_ok_def by simp
    then show ?thesis using True by (simp add: h0_def)
  next
    case False
    then show ?thesis using uf by (simp add: h0_def partial_hist_empty)
  qed
  have st: "?used ! u \<Longrightarrow> length (storage pb tid nid) = ?nb"
    using pS by (simp add: h0_def)
  from build_unit_result[OF a s nb sp i nid_def tid_def u_def h0_def st]
  obtain v where v: "pb_tid_nid_to_hist pb (tid, nid) = Some v"
    and b: "build_unit gpair gmat space ?T i pb =
       Inr ((set_storage pb v nid h1)\<lparr>pb_hist_was_used := ?used[u := True]\<rparr>)"
    unfolding h1_def by blast
  let ?pb' = "(set_storage pb v nid h1)\<lparr>pb_hist_was_used := ?used[u := True]\<rparr>"
  have f: "pb_nthreads ?pb' = ?T" "pb_nodes ?pb' = ?N" "pb_nbins ?pb' = ?nb"
    "pb_tid_nid_to_hist ?pb' = pb_tid_nid_to_hist pb"
    "pb_hist_was_used ?pb' = ?used[u := True]"
    by (simp_all add: set_storage_def)
  have l1: "length h1 = ?nb" by (simp add: h1_def)
  have a': "assigned space ?pb'" using assigned_set_storage[OF a] .
  have s': "shaped ?pb'" using shaped_set_storage[OF s l1] by simp
  have ul: "u < length ?used" using s tT nN by (simp add: shaped_def u_def index_bound)
  have h1p: "h1 = partial_hist gpair gmat space ?T ?nb (insert i S) tid nid"
    unfolding h1_def pS
    by (rule partial_hist_insert[OF fin iS tid_def[symmetric] nid_def[symmetric], symmetric])
  have fl': "flags_ok space (insert i S) ?pb'"
    unfolding flags_ok_def f
  proof (intro allI impI)
    fix t n assume h: "t < ?T" "n < ?N"
    show "?used[u := True] ! (t * ?N + n) = (units_of space ?T (insert i S) t n \<noteq> {})"
    proof (cases "t = tid \<and> n = nid")
      case True
      then show ?thesis using ul by (simp add: u_def units_of_insert tid_def nid_def)
    next
      case False
      then have "t * ?N + n \<noteq> u" using index_decode[of t ?N n tid nid] h(2) nN by (auto simp: u_def)
      moreover have "units_of space ?T (insert i S) t n = units_of space ?T S t n"
        using False by (auto simp: units_of_insert tid_def nid_def)
      ultimately show ?thesis using fl h unfolding flags_ok_def by simp
    qed
  qed
  have no': "node_ok gpair gmat space (insert i S) ?pb' n" if n: "n < ?N" for n
    unfolding node_ok_def f
  proof (intro allI impI)
    fix t assume h: "t < ?T" "units_of space ?T (insert i S) t n \<noteq> {}"
    show "storage ?pb' t n = partial_hist gpair gmat space ?T ?nb (insert i S) t n"
    proof (cases "t = tid \<and> n = nid")
      case True
      then show ?thesis using storage_set_same[OF a s v] h1p by simp
    next
      case False
      then have eq: "units_of space ?T (insert i S) t n = units_of space ?T S t n"
        by (auto simp: units_of_insert tid_def nid_def)
      then obtain j where j: "j \<in> S" "thread_of_unit (length space) ?T j = t" "fst (space ! j) = n"
        using h(2) by (auto simp: units_of_def)
      have jl: "j < length space" using j(1) S by auto
      have "chunk_touch space ?T t n" using unit_touch[OF srt jl, of ?T] j by simp
      then have "pb_tid_nid_to_hist pb (t, n) \<noteq> None"
        using a h(1) n unfolding assigned_def by blast
      then obtain v' where v': "pb_tid_nid_to_hist pb (t, n) = Some v'" by auto
      have ne: "(t, n) \<noteq> (tid, nid)" using False by simp
      have "storage ?pb' t n = storage pb t n" using storage_set_other[OF a v v' ne] .
      also have "\<dots> = partial_hist gpair gmat space ?T ?nb S t n"
        using no[OF n] h(1,2) eq unfolding node_ok_def by simp
      also have "\<dots> = partial_hist gpair gmat space ?T ?nb (insert i S) t n"
        by (simp add: partial_hist_def eq)
      finally show ?thesis .
    qed
  qed
  have "loop_inv gpair gmat space (insert i S) ?pb'"
    unfolding loop_inv_def using a' s' fl' no' f(2) by simp
  then show ?thesis using b f(1,2,3) by blast
qed

lemma build_loop:
  fixes pb :: "'g::comm_monoid_add ParallelGHistBuilder"
  assumes "loop_inv gpair gmat space S pb" "0 < pb_nbins pb"
    and "space_ok (pb_nodes pb) (pb_nbins pb) gpair gmat space"
    and "distinct order" "set order \<subseteq> {..<length space}" "set order \<inter> S = {}"
    and "S \<subseteq> {..<length space}"
  shows "\<exists>pb'. fold_err (build_unit gpair gmat space (pb_nthreads pb)) order pb = Inr pb' \<and>
     loop_inv gpair gmat space (S \<union> set order) pb' \<and>
     pb_nthreads pb' = pb_nthreads pb \<and> pb_nodes pb' = pb_nodes pb \<and> pb_nbins pb' = pb_nbins pb"
  using assms
proof (induction order arbitrary: pb S)
  case Nil
  then show ?case by simp
next
  case (Cons i order)
  have i: "i < length space" "i \<notin> S" using Cons.prems(5,6) by auto
  from build_unit_inv[OF Cons.prems(1,2,3) i Cons.prems(7)] obtain pb1 where
    p1: "build_unit gpair gmat space (pb_nthreads pb) i pb = Inr pb1"
    "loop_inv gpair gmat space (insert i S) pb1"
    "pb_nthreads pb1 = pb_nthreads pb" "pb_nodes pb1 = pb_nodes pb" "pb_nbins pb1 = pb_nbins pb"
    by blast
  have c: "0 < pb_nbins pb1" "space_ok (pb_nodes pb1) (pb_nbins pb1) gpair gmat space"
    "distinct order" "set order \<subseteq> {..<length space}" "set order \<inter> insert i S = {}"
    "insert i S \<subseteq> {..<length space}"
    using Cons.prems p1(4,5) i(1) by auto
  from Cons.IH[OF p1(2) c] obtain pb' where
    p': "fold_err (build_unit gpair gmat space (pb_nthreads pb1)) order pb1 = Inr pb'"
    "loop_inv gpair gmat space (insert i S \<union> set order) pb'"
    "pb_nthreads pb' = pb_nthreads pb1" "pb_nodes pb' = pb_nodes pb1" "pb_nbins pb' = pb_nbins pb1"
    by blast
  have "insert i S \<union> set order = S \<union> set (i # order)" by auto
  then show ?case using p1 p' by simp
qed

text \<open>The loop of \<^verbatim>\<open>ReduceHist\<close> over the threads, for a node of an assigned state.\<close>

lemma IncrementHist_all:
  assumes "length d = n" "length a = n"
  shows "IncrementHist d a 0 n = Inr (map (\<lambda>b. d ! b + a ! b) [0..<n])"
proof -
  have "map (\<lambda>i. if 0 \<le> i \<and> i < n then d ! i + a ! i else d ! i) [0..<length d]
      = map (\<lambda>b. d ! b + a ! b) [0..<n]"
    using assms by (intro nth_equalityI) simp_all
  then show ?thesis using assms unfolding IncrementHist_def by simp
qed

lemma reduce_tid_step:
  fixes pb :: "'g::comm_monoid_add ParallelGHistBuilder"
  assumes a: "assigned space pb" and s: "shaped pb"
    and nN: "nid < pb_nodes pb" and tT: "tid < pb_nthreads pb"
    and l: "length h = pb_nbins pb"
    and u: "u = tid * pb_nodes pb + nid"
    and R: "pb_hist_was_used pb ! u \<Longrightarrow> pb_tid_nid_to_hist pb (tid, nid) \<noteq> None"
      "pb_hist_was_used pb ! u \<Longrightarrow> pb_tid_nid_to_hist pb (tid, nid) \<noteq> Some (- 1) \<Longrightarrow>
         length (storage pb tid nid) = pb_nbins pb"
  shows "reduce_tid nid 0 (pb_nbins pb) tid
           (pb\<lparr>pb_targeted_hists := (pb_targeted_hists pb)[nid := h]\<rparr>, upd) =
     Inr (pb\<lparr>pb_targeted_hists := (pb_targeted_hists pb)
            [nid := if pb_hist_was_used pb ! u \<and> pb_tid_nid_to_hist pb (tid, nid) \<noteq> Some (- 1)
                    then map (\<lambda>b. h ! b + storage pb tid nid ! b) [0..<pb_nbins pb] else h]\<rparr>,
          upd \<or> pb_hist_was_used pb ! u)"
proof -
  let ?pb = "pb\<lparr>pb_targeted_hists := (pb_targeted_hists pb)[nid := h]\<rparr>"
  let ?hb = "pb_hist_buffer pb"
  have ul: "u < length (pb_hist_was_used pb)" using s tT nN u by (simp add: shaped_def index_bound)
  have lt: "nid < length (pb_targeted_hists pb)" using s nN by (simp add: shaped_def)
  show ?thesis
  proof (cases "pb_hist_was_used pb ! u")
    case False
    then show ?thesis using ul unfolding reduce_tid_def Let_def by (simp add: u)
  next
    case used: True
    from R(1)[OF used] obtain v where v: "pb_tid_nid_to_hist pb (tid, nid) = Some v" by auto
    show ?thesis
    proof (cases "v = - 1")
      case True
      have "hist_of_idx ?pb ?hb nid v = Inr (Target nid)"
        using True lt by (simp add: hist_of_idx_def)
      then show ?thesis using ul used v True unfolding reduce_tid_def Let_def by (simp add: u)
    next
      case False
      note r = assigned_row[OF a v False]
      have hn: "hc_nbins ?hb = pb_nbins pb" "\<not> hc_contiguous_allocation ?hb"
        using a unfolding assigned_def by simp_all
      have st: "storage pb tid nid = hc_data ?hb ! nat v" using v False by (simp add: storage_def)
      have lr: "length (hc_data ?hb ! nat v) = pb_nbins pb"
        using R(2)[OF used] v False st by simp
      have hist: "hist_of_idx ?pb ?hb nid v = Inr (Buffer (nat v) 0)"
        using False r hn by (simp add: hist_of_idx_def HistCollection_at_def Let_def)
      have rd: "read_hist ?pb (Target nid) = Inr h" using lt by (simp add: read_hist_def)
      have rs: "read_hist ?pb (Buffer (nat v) 0) = Inr (hc_data ?hb ! nat v)"
        using r(3) lr hn by (simp add: read_hist_def Let_def)
      have inc: "IncrementHist h (hc_data ?hb ! nat v) 0 (pb_nbins pb) =
          Inr (map (\<lambda>b. h ! b + hc_data ?hb ! nat v ! b) [0..<pb_nbins pb])"
        using IncrementHist_all[OF l lr] .
      show ?thesis
        unfolding reduce_tid_def Let_def
        using ul used v False hist rd rs inc st by (simp add: u write_hist_def)
    qed
  qed
qed

lemma reduce_loop:
  fixes pb :: "'g::comm_monoid_add ParallelGHistBuilder"
  assumes a: "assigned space pb" and s: "shaped pb" and nN: "nid < pb_nodes pb"
    and R: "\<And>tid. tid < pb_nthreads pb \<Longrightarrow> pb_hist_was_used pb ! (tid * pb_nodes pb + nid) \<Longrightarrow>
         pb_tid_nid_to_hist pb (tid, nid) \<noteq> None \<and> length (storage pb tid nid) = pb_nbins pb"
    and t: "t \<le> pb_nthreads pb"
  shows "fold_err (reduce_tid nid 0 (pb_nbins pb)) [0..<t] (pb, False) =
     Inr (pb\<lparr>pb_targeted_hists := (pb_targeted_hists pb)
            [nid := map (\<lambda>b. pb_targeted_hists pb ! nid ! b +
                     (\<Sum>tid \<in> {tid. tid < t \<and> pb_hist_was_used pb ! (tid * pb_nodes pb + nid) \<and>
                                  pb_tid_nid_to_hist pb (tid, nid) \<noteq> Some (- 1)}.
                        storage pb tid nid ! b)) [0..<pb_nbins pb]]\<rparr>,
          \<exists>tid < t. pb_hist_was_used pb ! (tid * pb_nodes pb + nid))"
  using t
proof (induction t)
  case 0
  have "length (pb_targeted_hists pb ! nid) = pb_nbins pb" using shaped_lengths(1)[OF s nN] .
  then have "map (\<lambda>b. pb_targeted_hists pb ! nid ! b + 0) [0..<pb_nbins pb] = pb_targeted_hists pb ! nid"
    by (intro nth_equalityI) simp_all
  then show ?case by simp
next
  case (Suc t)
  let ?A = "\<lambda>t. {tid. tid < t \<and> pb_hist_was_used pb ! (tid * pb_nodes pb + nid) \<and>
                     pb_tid_nid_to_hist pb (tid, nid) \<noteq> Some (- 1)}"
  let ?h = "\<lambda>t. map (\<lambda>b. pb_targeted_hists pb ! nid ! b + (\<Sum>tid \<in> ?A t. storage pb tid nid ! b))
                  [0..<pb_nbins pb]"
  define c where
    "c = (pb_hist_was_used pb ! (t * pb_nodes pb + nid) \<and> pb_tid_nid_to_hist pb (t, nid) \<noteq> Some (- 1))"
  have tT: "t < pb_nthreads pb" using Suc.prems by simp
  have ih: "fold_err (reduce_tid nid 0 (pb_nbins pb)) [0..<t] (pb, False) =
     Inr (pb\<lparr>pb_targeted_hists := (pb_targeted_hists pb)[nid := ?h t]\<rparr>,
          \<exists>tid < t. pb_hist_was_used pb ! (tid * pb_nodes pb + nid))"
    using Suc by simp
  have l: "length (?h t) = pb_nbins pb" by simp
  have fin: "finite (?A t)" by simp
  have A: "?A (Suc t) = (if c then insert t (?A t) else ?A t)"
    unfolding c_def by (auto simp: less_Suc_eq)
  have h: "(if c then map (\<lambda>b. ?h t ! b + storage pb t nid ! b) [0..<pb_nbins pb] else ?h t)
      = ?h (Suc t)"
  proof (cases c)
    case True
    have "t \<notin> ?A t" by simp
    moreover have "?A (Suc t) = insert t (?A t)" using A True by simp
    ultimately have "(\<Sum>tid \<in> ?A (Suc t). storage pb tid nid ! b) =
        (\<Sum>tid \<in> ?A t. storage pb tid nid ! b) + storage pb t nid ! b" for b
      using fin by (simp add: add.commute)
    then have "map (\<lambda>b. ?h t ! b + storage pb t nid ! b) [0..<pb_nbins pb] = ?h (Suc t)"
      by (intro nth_equalityI) (simp_all add: add.assoc)
    then show ?thesis using True by simp
  next
    case False
    have "?A (Suc t) = ?A t" using A False by simp
    then have "?h t = ?h (Suc t)" by simp
    then show ?thesis using False by simp
  qed
  have e: "(\<exists>tid < Suc t. pb_hist_was_used pb ! (tid * pb_nodes pb + nid)) =
      ((\<exists>tid < t. pb_hist_was_used pb ! (tid * pb_nodes pb + nid)) \<or>
       pb_hist_was_used pb ! (t * pb_nodes pb + nid))"
    by (auto simp: less_Suc_eq)
  have st: "reduce_tid nid 0 (pb_nbins pb) t
      (pb\<lparr>pb_targeted_hists := (pb_targeted_hists pb)[nid := ?h t]\<rparr>,
       \<exists>tid < t. pb_hist_was_used pb ! (tid * pb_nodes pb + nid)) =
     Inr (pb\<lparr>pb_targeted_hists := (pb_targeted_hists pb)[nid := ?h (Suc t)]\<rparr>,
          \<exists>tid < Suc t. pb_hist_was_used pb ! (tid * pb_nodes pb + nid))"
    unfolding e h[symmetric] c_def
    by (rule reduce_tid_step[OF a s nN tT l refl]) (use R[OF tT] in simp_all)
  show ?case unfolding upt_Suc_append[OF le0] fold_err_snoc ih using st by simp
qed

text \<open>The partial histograms of the threads add up to the serial sum of the node.\<close>

lemma sum_list_units:
  fixes F :: "nat list \<Rightarrow> 'g::comm_monoid_add"
  shows "(\<Sum>i \<in> {i. i < length space \<and> fst (space ! i) = nid}. F (snd (space ! i))) =
     sum_list (map F (map snd (filter (\<lambda>u. fst u = nid) space)))"
proof (induction space rule: rev_induct)
  case Nil
  show ?case by simp
next
  case (snoc x xs)
  let ?S = "\<lambda>sp. {i. i < length sp \<and> fst (sp ! i) = nid}"
  have old: "?S xs = {i. i < length xs \<and> fst ((xs @ [x]) ! i) = nid}"
    by (auto simp: nth_append)
  have S: "?S (xs @ [x]) = (if fst x = nid then insert (length xs) (?S xs) else ?S xs)"
    by (auto simp: nth_append less_Suc_eq)
  have eq: "(\<Sum>i \<in> ?S xs. F (snd ((xs @ [x]) ! i))) = (\<Sum>i \<in> ?S xs. F (snd (xs ! i)))"
    by (rule sum.cong) (simp_all add: nth_append)
  have fin: "finite (?S xs)" by simp
  have ni: "length xs \<notin> ?S xs" by simp
  show ?case
  proof (cases "fst x = nid")
    case True
    then have "?S (xs @ [x]) = insert (length xs) (?S xs)" using S by simp
    then have "(\<Sum>i \<in> ?S (xs @ [x]). F (snd ((xs @ [x]) ! i))) =
        F (snd x) + (\<Sum>i \<in> ?S xs. F (snd ((xs @ [x]) ! i)))"
      using fin ni by simp
    then show ?thesis using True snoc eq by (simp add: add.commute)
  next
    case False
    then have "?S (xs @ [x]) = ?S xs" using S by simp
    then show ?thesis using False snoc eq by simp
  qed
qed

lemma sum_list_map_concat:
  fixes g :: "'a \<Rightarrow> 'g::monoid_add"
  shows "sum_list (map g (concat xss)) = sum_list (map (\<lambda>xs. sum_list (map g xs)) xss)"
  by (induction xss) simp_all

lemma serial_hist_units:
  fixes gpair :: "'g::comm_monoid_add list"
  assumes sp: "space_ok nodes nbins gpair gmat space" and b: "b < nbins"
  shows "serial_hist gpair gmat (rows_of_node space nid) nbins ! b =
     (\<Sum>i \<in> {i. i < length space \<and> fst (space ! i) = nid}. unit_sum gpair gmat space i b)"
proof -
  let ?g = "\<lambda>r. sum_list (map (\<lambda>j. if j = b then gpair ! r else 0) (gmat ! r))"
  let ?F = "\<lambda>rs. sum_list (map ?g rs)"
  let ?rows = "rows_of_node space nid"
  have "\<forall>r \<in> set ?rows. \<forall>c \<in> set (gmat ! r). c < length (replicate nbins (0 :: 'g))"
    using sp by (auto simp: rows_of_node_def space_ok_def list_all_iff)
  note f = BuildHist_fold[OF this, of gpair]
  have "serial_hist gpair gmat ?rows nbins ! b = sum_list (map ?g ?rows)"
    using f b by (simp add: serial_hist_def)
  also have "\<dots> = sum_list (map ?F (map snd (filter (\<lambda>u. fst u = nid) space)))"
    unfolding rows_of_node_def by (rule sum_list_map_concat)
  also have "\<dots> = (\<Sum>i \<in> {i. i < length space \<and> fst (space ! i) = nid}. ?F (snd (space ! i)))"
    by (rule sum_list_units[symmetric])
  finally show ?thesis by (simp add: unit_sum_def)
qed

lemma threads_sum_units:
  assumes T: "0 < t"
  shows "(\<Sum>tid \<in> {..<t}. \<Sum>i \<in> units_of space t {..<length space} tid nid. f i) =
     (\<Sum>i \<in> {i. i < length space \<and> fst (space ! i) = nid}. f i)"
proof -
  let ?S = "{i. i < length space \<and> fst (space ! i) = nid}"
  have u: "units_of space t {..<length space} tid nid =
      {i \<in> ?S. thread_of_unit (length space) t i = tid}" for tid
    by (auto simp: units_of_def)
  have "thread_of_unit (length space) t ` ?S \<subseteq> {..<t}"
    using thread_of_unit_less[OF T] by auto
  then show ?thesis unfolding u by (intro sum.group) simp_all
qed

text \<open>\<^verbatim>\<open>ReduceHist\<close> for a node, after all the units of the work space.\<close>

lemma length_serial_hist: "length (serial_hist gpair gmat rs nbins) = nbins"
  by (simp add: serial_hist_def length_kernel_fold)

lemma ReduceHist_node:
  fixes pb :: "'g::comm_monoid_add ParallelGHistBuilder"
  assumes a: "assigned space pb" and s: "shaped pb"
    and fl: "flags_ok space {..<length space} pb"
    and no: "node_ok gpair gmat space {..<length space} pb nid"
    and nb: "0 < pb_nbins pb" and nN: "nid < pb_nodes pb"
    and sp: "space_ok (pb_nodes pb) (pb_nbins pb) gpair gmat space"
  shows "ReduceHist nid 0 (pb_nbins pb) pb =
     Inr (pb\<lparr>pb_targeted_hists := (pb_targeted_hists pb)
            [nid := serial_hist gpair gmat (rows_of_node space nid) (pb_nbins pb)]\<rparr>)"
proof -
  let ?n = "length space" let ?T = "pb_nthreads pb" let ?N = "pb_nodes pb" let ?nb = "pb_nbins pb"
  let ?U = "{..<?n}"
  let ?used = "\<lambda>tid. pb_hist_was_used pb ! (tid * ?N + nid)"
  let ?units = "\<lambda>tid. units_of space ?T ?U tid nid"
  let ?P = "\<lambda>tid b. \<Sum>i \<in> ?units tid. unit_sum gpair gmat space i b"
  let ?ser = "serial_hist gpair gmat (rows_of_node space nid) ?nb"
  define S where "S = {i. i < ?n \<and> fst (space ! i) = nid}"
  have T: "0 < ?T" using a unfolding assigned_def by simp
  have srt: "sorted (map fst space)" using sp by (simp add: space_ok_def)
  have uf: "?used tid = (?units tid \<noteq> {})" if "tid < ?T" for tid
    using fl that nN unfolding flags_ok_def by simp
  have st: "storage pb tid nid = partial_hist gpair gmat space ?T ?nb ?U tid nid"
    if "tid < ?T" "?used tid" for tid
    using no that uf unfolding node_ok_def by simp
  have stb: "storage pb tid nid ! b = ?P tid b" if "tid < ?T" "?used tid" "b < ?nb" for tid b
    using st[OF that(1,2)] that(3) by (simp add: partial_hist_def)
  have mapped: "pb_tid_nid_to_hist pb (tid, nid) \<noteq> None" if h: "tid < ?T" "?used tid" for tid
  proof -
    obtain j where j: "j < ?n" "thread_of_unit ?n ?T j = tid" "fst (space ! j) = nid"
      using uf[OF h(1)] h(2) by (auto simp: units_of_def)
    have "chunk_touch space ?T tid nid" using unit_touch[OF srt j(1), of ?T] j by simp
    then show ?thesis using a h(1) nN unfolding assigned_def by blast
  qed
  have R: "\<And>tid. tid < ?T \<Longrightarrow> ?used tid \<Longrightarrow>
      pb_tid_nid_to_hist pb (tid, nid) \<noteq> None \<and> length (storage pb tid nid) = ?nb"
    using mapped st by simp
  have lt: "nid < length (pb_targeted_hists pb)" using s nN by (simp add: shaped_def)
  have ln: "length (pb_targeted_hists pb ! nid) = ?nb" using shaped_lengths(1)[OF s nN] .
  have serb: "?ser ! b = (\<Sum>i \<in> S. unit_sum gpair gmat space i b)" if "b < ?nb" for b
    unfolding S_def using serial_hist_units[OF sp that] .
  show ?thesis
  proof (cases "S = {}")
    case True
    have "?units tid = {}" for tid using True by (auto simp: S_def units_of_def)
    then have nu: "\<forall>tid < ?T. \<not> ?used tid" using uf by simp
    have ul: "?T * ?N \<le> length (pb_hist_was_used pb)" using s by (simp add: shaped_def)
    have loop: "fold_err (reduce_tid nid 0 ?nb) [0..<?T] (pb, False) = Inr (pb, False)"
      using reduce_unused[OF le_refl ul nN nu] .
    have z: "InitilizeHistByZeroes (pb_targeted_hists pb ! nid) 0 ?nb = Inr (replicate ?nb 0)"
      using InitilizeHistByZeroes_all[of "pb_targeted_hists pb ! nid"] ln by simp
    have "?ser = replicate ?nb 0"
      using serb True by (intro nth_equalityI) (simp_all add: length_serial_hist)
    then show ?thesis
      unfolding ReduceHist_def using nb nN lt loop z by (simp add: read_hist_def write_hist_def)
  next
    case False
    then obtain j where j: "j < ?n" "fst (space ! j) = nid" by (auto simp: S_def)
    define tj where "tj = thread_of_unit ?n ?T j"
    have tjT: "tj < ?T" unfolding tj_def using thread_of_unit_less[OF T j(1)] .
    have "j \<in> ?units tj" using j by (simp add: units_of_def tj_def)
    then have uj: "?used tj" using uf[OF tjT] by auto
    from mapped[OF tjT uj] obtain t0 where t0: "pb_tid_nid_to_hist pb (t0, nid) = Some (- 1)"
      using a unfolding assigned_def by blast
    have t0T: "t0 < ?T" using assigned_pair(1)[OF a t0] .
    have "pb_tid_nid_to_hist pb (t0, nid) \<noteq> None" using t0 by simp
    then have "chunk_touch space ?T t0 nid" using a unfolding assigned_def by blast
    from touch_unit[OF srt this j] obtain i where
      i: "i < ?n" "thread_of_unit ?n ?T i = t0" "fst (space ! i) = nid" by blast
    have "i \<in> ?units t0" using i by (simp add: units_of_def)
    then have u0: "?used t0" using uf[OF t0T] by auto
    have tg: "pb_targeted_hists pb ! nid = storage pb t0 nid" using t0 by (simp add: storage_def)
    have one: "tid = t0" if "pb_tid_nid_to_hist pb (tid, nid) = Some (- 1)" for tid
      using a t0 that unfolding assigned_def by blast
    let ?A = "{tid. tid < ?T \<and> ?used tid \<and> pb_tid_nid_to_hist pb (tid, nid) \<noteq> Some (- 1)}"
    have loop: "fold_err (reduce_tid nid 0 ?nb) [0..<?T] (pb, False) =
       Inr (pb\<lparr>pb_targeted_hists := (pb_targeted_hists pb)
              [nid := map (\<lambda>b. pb_targeted_hists pb ! nid ! b +
                       (\<Sum>tid \<in> ?A. storage pb tid nid ! b)) [0..<?nb]]\<rparr>,
            \<exists>tid < ?T. ?used tid)"
      using reduce_loop[OF a s nN R le_refl] by simp
    have upd: "\<exists>tid < ?T. ?used tid" using tjT uj by blast
    have tot: "pb_targeted_hists pb ! nid ! b + (\<Sum>tid \<in> ?A. storage pb tid nid ! b) = ?ser ! b"
      if b: "b < ?nb" for b
    proof -
      have 1: "(\<Sum>tid \<in> ?A. storage pb tid nid ! b) = (\<Sum>tid \<in> ?A. ?P tid b)"
        by (rule sum.cong) (simp_all add: stb b)
      have sub: "?A \<subseteq> {..<?T} - {t0}" using t0 by auto
      have z: "\<forall>tid \<in> ({..<?T} - {t0}) - ?A. ?P tid b = 0"
      proof
        fix tid assume h: "tid \<in> ({..<?T} - {t0}) - ?A"
        then have "tid < ?T" "tid \<noteq> t0" by simp_all
        then have "\<not> ?used tid" using h one by auto
        then have "?units tid = {}" using uf[OF \<open>tid < ?T\<close>] by simp
        then show "?P tid b = 0" by simp
      qed
      have 2: "(\<Sum>tid \<in> ?A. ?P tid b) = (\<Sum>tid \<in> {..<?T} - {t0}. ?P tid b)"
        by (rule sum.mono_neutral_left[OF _ sub z]) simp
      have 3: "(\<Sum>tid \<in> {..<?T}. ?P tid b) = ?P t0 b + (\<Sum>tid \<in> {..<?T} - {t0}. ?P tid b)"
        by (rule sum.remove) (simp_all add: t0T)
      have 4: "pb_targeted_hists pb ! nid ! b = ?P t0 b" unfolding tg using stb[OF t0T u0 b] .
      have "pb_targeted_hists pb ! nid ! b + (\<Sum>tid \<in> ?A. storage pb tid nid ! b)
          = (\<Sum>tid \<in> {..<?T}. ?P tid b)"
        unfolding 1 2 3 4 ..
      also have "\<dots> = (\<Sum>i \<in> S. unit_sum gpair gmat space i b)"
        unfolding S_def by (rule threads_sum_units[OF T])
      finally show ?thesis using serb[OF b] by simp
    qed
    have "map (\<lambda>b. pb_targeted_hists pb ! nid ! b + (\<Sum>tid \<in> ?A. storage pb tid nid ! b)) [0..<?nb]
        = ?ser"
      using tot by (intro nth_equalityI) (simp_all add: length_serial_hist)
    then show ?thesis
      unfolding ReduceHist_def using nb nN lt loop upd by simp
  qed
qed

text \<open>\<^verbatim>\<open>ReduceHist\<close> for every node, one after the other.\<close>

lemma storage_other_target:
  assumes "tg ! nid = pb_targeted_hists pb ! nid"
  shows "storage (pb\<lparr>pb_targeted_hists := tg\<rparr>) tid nid = storage pb tid nid"
  using assms by (simp add: storage_def split: option.splits)

lemma reduce_nodes:
  fixes pb :: "'g::comm_monoid_add ParallelGHistBuilder"
  assumes a: "assigned space pb" and s: "shaped pb"
    and fl: "flags_ok space {..<length space} pb"
    and no: "\<And>nid. nid < pb_nodes pb \<Longrightarrow> node_ok gpair gmat space {..<length space} pb nid"
    and nb: "0 < pb_nbins pb"
    and sp: "space_ok (pb_nodes pb) (pb_nbins pb) gpair gmat space"
    and k: "k \<le> pb_nodes pb"
  shows "fold_err (\<lambda>nid. ReduceHist nid 0 (pb_nbins pb)) [0..<k] pb =
     Inr (pb\<lparr>pb_targeted_hists :=
            map (\<lambda>nid. if nid < k then serial_hist gpair gmat (rows_of_node space nid) (pb_nbins pb)
                        else pb_targeted_hists pb ! nid) [0..<pb_nodes pb]\<rparr>)"
  using k
proof (induction k)
  case 0
  have "map (\<lambda>nid. pb_targeted_hists pb ! nid) [0..<pb_nodes pb] = pb_targeted_hists pb"
    using s by (intro nth_equalityI) (simp_all add: shaped_def)
  then show ?case by simp
next
  case (Suc k)
  let ?N = "pb_nodes pb" let ?nb = "pb_nbins pb"
  let ?ser = "\<lambda>nid. serial_hist gpair gmat (rows_of_node space nid) ?nb"
  let ?tg = "\<lambda>k. map (\<lambda>nid. if nid < k then ?ser nid else pb_targeted_hists pb ! nid) [0..<?N]"
  let ?pb = "pb\<lparr>pb_targeted_hists := ?tg k\<rparr>"
  have kN: "k < ?N" using Suc.prems by simp
  have ih: "fold_err (\<lambda>nid. ReduceHist nid 0 ?nb) [0..<k] pb = Inr ?pb" using Suc by simp
  have a': "assigned space ?pb" by (rule assigned_frame[OF a]) simp_all
  have lt: "length (pb_targeted_hists pb) = ?N" using s by (simp add: shaped_def)
  have "\<forall>h \<in> set (?tg k). length h = ?nb"
    using shaped_lengths(1)[OF s] by (auto simp: length_serial_hist)
  then have s': "shaped ?pb" using s unfolding shaped_def by simp
  have fl': "flags_ok space {..<length space} ?pb" using fl unfolding flags_ok_def by simp
  have "storage ?pb tid k = storage pb tid k" for tid
    by (rule storage_other_target) (use kN lt in simp)
  then have no': "node_ok gpair gmat space {..<length space} ?pb k"
    using no[OF kN] unfolding node_ok_def by simp
  have "ReduceHist k 0 (pb_nbins ?pb) ?pb =
      Inr (?pb\<lparr>pb_targeted_hists := (pb_targeted_hists ?pb)
             [k := serial_hist gpair gmat (rows_of_node space k) (pb_nbins ?pb)]\<rparr>)"
    by (rule ReduceHist_node[OF a' s' fl' no']) (use nb kN sp in simp_all)
  moreover have "(?tg k)[k := ?ser k] = ?tg (Suc k)"
    using kN by (intro nth_equalityI) (auto simp: nth_list_update less_Suc_eq)
  ultimately have st: "ReduceHist k 0 ?nb ?pb = Inr (pb\<lparr>pb_targeted_hists := ?tg (Suc k)\<rparr>)"
    by simp
  show ?case unfolding upt_Suc_append[OF le0] fold_err_snoc ih using st by simp
qed

lemma loop_inv_start:
  assumes "assigned space pb" "shaped pb" "flags_ok space {} pb"
  shows "loop_inv gpair gmat space {} pb"
  using assms unfolding loop_inv_def node_ok_def by (simp add: units_of_def)

section \<open>Sums in \<^verbatim>\<open>double\<close>\<close>

text \<open>
  The number of bits of a natural number, and the sums that are exact: a sum of whole
  numbers of magnitude below \<open>2 ^ 53\<close> is not rounded. At \<open>2 ^ 53\<close> the doubles are the even
  numbers, and \<open>2 ^ 53 + 1\<close> rounds to \<open>2 ^ 53\<close>.
\<close>

lemma bit_length_0: "bit_length 0 = 0"
  by (simp add: bit_length.simps)

lemma bit_length_pos: "0 < n \<Longrightarrow> bit_length n = Suc (bit_length (n div 2))"
  by (subst bit_length.simps) simp

lemma bit_length_upper: "m < 2 ^ bit_length m"
proof (induction m rule: bit_length.induct)
  case (1 n)
  show ?case
  proof (cases "n = 0")
    case True
    then show ?thesis by (simp add: bit_length_0)
  next
    case False
    have "n div 2 < 2 ^ bit_length (n div 2)" using 1[OF False] .
    then have "n < 2 * 2 ^ bit_length (n div 2)" by linarith
    then show ?thesis using False by (simp add: bit_length_pos)
  qed
qed

lemma bit_length_lower: "0 < m \<Longrightarrow> 2 ^ bit_length m \<le> 2 * m"
proof (induction m rule: bit_length.induct)
  case (1 n)
  have n: "n \<noteq> 0" using 1(2) by simp
  show ?case
  proof (cases "n div 2 = 0")
    case True
    then show ?thesis using 1(2) by (simp add: bit_length_pos bit_length_0)
  next
    case False
    then have "2 ^ bit_length (n div 2) \<le> 2 * (n div 2)" using 1(1)[OF n] by simp
    then have "2 * 2 ^ bit_length (n div 2) \<le> 2 * n" by linarith
    then show ?thesis using 1(2) by (simp add: bit_length_pos)
  qed
qed

lemma bit_length_eq:
  assumes "2 ^ k \<le> m" "m < 2 ^ Suc k"
  shows "bit_length m = Suc k"
proof -
  have m: "0 < m" using assms(1) by (cases "m = 0") simp_all
  have "(2 :: nat) ^ k < 2 ^ bit_length m" using bit_length_upper[of m] assms(1) by linarith
  then have 1: "k < bit_length m" by simp
  have "(2 :: nat) ^ bit_length m < 2 ^ Suc (Suc k)"
    using bit_length_lower[OF m] assms(2) by simp
  then have 2: "bit_length m < Suc (Suc k)" by (simp only: power_strict_increasing_iff one_less_numeral_iff semiring_norm)
  show ?thesis using 1 2 by simp
qed

lemma bit_length_small:
  assumes "m < 2 ^ p"
  shows "bit_length m \<le> p"
proof (cases "m = 0")
  case True
  then show ?thesis by (simp add: bit_length_0)
next
  case False
  then have "(2 :: nat) ^ bit_length m < 2 ^ Suc p" using bit_length_lower[of m] assms by simp
  then have "bit_length m < Suc p" by (simp only: power_strict_increasing_iff one_less_numeral_iff semiring_norm)
  then show ?thesis by simp
qed

lemma round_even_small: "m < 2 ^ p \<Longrightarrow> round_even p m = m"
  using bit_length_small[of m p] by (simp add: round_even_def)

lemma double_add_exact:
  assumes "\<bar>a + b\<bar> < 2 ^ 53"
  shows "Finite a + Finite b = Finite (a + b)"
proof -
  have "nat \<bar>a + b\<bar> < 2 ^ 53" using assms by (simp add: nat_less_iff)
  then have r: "round_even 53 (nat \<bar>a + b\<bar>) = nat \<bar>a + b\<bar>" by (rule round_even_small)
  have "nat \<bar>a + b\<bar> < (2 :: nat) ^ 1024"
    using \<open>nat \<bar>a + b\<bar> < 2 ^ 53\<close> by (rule less_le_trans) simp
  then show ?thesis
    unfolding plus_double_def double_add.simps round_double_def Let_def r by auto
qed

lemma double_add_tie: "Finite 9007199254740992 + Finite 1 = Finite 9007199254740992"
proof -
  have b: "bit_length 9007199254740993 = Suc 53" by (rule bit_length_eq) simp_all
  have "round_even 53 9007199254740993 = 9007199254740992"
    unfolding round_even_def b by (simp add: Let_def)
  then show ?thesis by (simp add: plus_double_def round_double_def)
qed

lemma double_add_even: "Finite 9007199254740992 + Finite 2 = Finite 9007199254740994"
proof -
  have b: "bit_length 9007199254740994 = Suc 53" by (rule bit_length_eq) simp_all
  have "round_even 53 9007199254740994 = 9007199254740994"
    unfolding round_even_def b by (simp add: Let_def)
  then show ?thesis by (simp add: plus_double_def round_double_def)
qed

lemma double_add_zero: "Finite 0 + Finite 9007199254740992 = Finite 9007199254740992"
proof -
  have b: "bit_length 9007199254740992 = Suc 53" by (rule bit_length_eq) simp_all
  have "round_even 53 9007199254740992 = 9007199254740992"
    unfolding round_even_def b by (simp add: Let_def)
  then show ?thesis by (simp add: plus_double_def round_double_def)
qed

lemma div_Suc_Suc_0: "n div Suc (Suc 0) = n div 2"
  by (simp add: numeral_2_eq_2)

lemmas pass_defs = div_Suc_Suc_0 build_pass_def Reset_def ParallelGHistBuilder_Init_def ParallelGHistBuilder_new_def
      HistCollection_new_def HistCollection_Init_def MatchThreadsToNodes_def chunck_size_def
      vector_resize_def AllocateAdditionalHistograms_def nthreads_for_nid_def GetFirstDimension_def
      mark_nids_def AddHistRow_def kMax_def size_to_int_def
      MatchNodeNidPairToHist_def match_node_def Let_def upt_2 replicate_2
      build_unit_def thread_of_unit_def GetInitializedHist_def AllocateData_def hist_of_idx_def
      HistCollection_at_def read_hist_def write_hist_def InitilizeHistByZeroes_def BuildHist_def
      ReduceHist_def reduce_tid_def IncrementHist_def int_to_bst_uint_def
      plus_GradientPairInternal_def zero_GradientPairInternal_def zero_double_def
      double_add_exact double_add_tie double_add_even double_add_zero

section \<open>A full build pass with exact sums\<close>

text \<open>
  A full pass over \<open>nodes\<close> nodes with \<open>nthreads\<close> threads, when the addition of the sums
  is associative and commutative with the zero as its neutral element: the pass succeeds,
  and the target histogram of every node is the serial sum of the gradient pairs of the
  rows of the node, whatever the targets held before, for every number of threads and
  every order of the units. An example with whole numbers follows.
\<close>

lemma exact_pass_serial_sum:
  fixes pb0 :: "'g::comm_monoid_add ParallelGHistBuilder"
  assumes t: "0 < nthreads" and small: "nthreads * nodes < 2 ^ 31"
    and ok: "builder_ok pb0" and nb: "0 < pb_nbins pb0"
    and len: "length targeted_hists = nodes"
    and tl: "\<forall>h \<in> set targeted_hists. length h = pb_nbins pb0"
    and sp: "space_ok nodes (pb_nbins pb0) gpair gmat space"
    and d: "distinct order" and o: "set order = {..<length space}"
  shows "\<exists>pb. build_pass nthreads nodes space targeted_hists gpair gmat order pb0 = Inr pb \<and>
     pb_targeted_hists pb =
       map (\<lambda>nid. serial_hist gpair gmat (rows_of_node space nid) (pb_nbins pb0)) [0..<nodes]"
proof -
  have nd: "\<forall>u \<in> set space. fst u < nodes" using sp by (auto simp: space_ok_def list_all_iff)
  have srt: "sorted (map fst space)" using sp by (simp add: space_ok_def)
  from Reset_assigned[OF t small len nd ok tl] obtain pb1 where
    r: "Reset nthreads nodes space targeted_hists pb0 = Inr pb1"
    and p1: "assigned space pb1" "shaped pb1" "flags_ok space {} pb1"
    and f1: "pb_nthreads pb1 = nthreads" "pb_nodes pb1 = nodes" "pb_nbins pb1 = pb_nbins pb0"
    by blast
  have i1: "loop_inv gpair gmat space {} pb1" using loop_inv_start[OF p1] .
  have c: "0 < pb_nbins pb1" "space_ok (pb_nodes pb1) (pb_nbins pb1) gpair gmat space"
    "set order \<subseteq> {..<length space}" "set order \<inter> {} = {}" "{} \<subseteq> {..<length space}"
    using nb sp o f1 by simp_all
  from build_loop[OF i1 c(1,2) d c(3,4,5)] obtain pb2 where
    l: "fold_err (build_unit gpair gmat space nthreads) order pb1 = Inr pb2"
    and i2: "loop_inv gpair gmat space {..<length space} pb2"
    and f2: "pb_nodes pb2 = nodes" "pb_nbins pb2 = pb_nbins pb0"
    using f1 o by auto
  have p2: "assigned space pb2" "shaped pb2" "flags_ok space {..<length space} pb2"
    "\<And>nid. nid < pb_nodes pb2 \<Longrightarrow> node_ok gpair gmat space {..<length space} pb2 nid"
    using i2 unfolding loop_inv_def by simp_all
  have nb2: "0 < pb_nbins pb2" using nb f2 by simp
  let ?pb = "pb2\<lparr>pb_targeted_hists :=
      map (\<lambda>nid. if nid < pb_nodes pb2
                  then serial_hist gpair gmat (rows_of_node space nid) (pb_nbins pb2)
                  else pb_targeted_hists pb2 ! nid) [0..<pb_nodes pb2]\<rparr>"
  have red: "fold_err (\<lambda>nid. ReduceHist nid 0 (pb_nbins pb2)) [0..<pb_nodes pb2] pb2 = Inr ?pb"
    using reduce_nodes[OF p2 nb2 _ le_refl] sp f2 by simp
  have "build_pass nthreads nodes space targeted_hists gpair gmat order pb0 = Inr ?pb"
    unfolding build_pass_def using r l red f2 by simp
  moreover have "pb_targeted_hists ?pb =
      map (\<lambda>nid. serial_hist gpair gmat (rows_of_node space nid) (pb_nbins pb0)) [0..<nodes]"
    using f2 by simp
  ultimately show ?thesis by blast
qed

lemma exact_pass_serial_sum_example:
  "(0 :: nat) < 2 \<and> (2 :: nat) * 1 < 2 ^ 31 \<and> builder_ok builder_2 \<and> 0 < pb_nbins builder_2 \<and>
   length [[7, 7 :: int]] = 1 \<and> length [7, 7 :: int] = pb_nbins builder_2 \<and>
   space_ok 1 (pb_nbins builder_2) [10, 20 :: int] [[0], [0, 1]] space_2 \<and>
   distinct [1, 0 :: nat] \<and> set [1, 0 :: nat] = {..<length space_2} \<and>
   (\<exists>pb. build_pass 2 1 space_2 [[7, 7]] [10, 20] [[0], [0, 1]] [1, 0] builder_2 = Inr pb \<and>
      pb_targeted_hists pb = [[30, 20]])"
proof -
  have nb: "pb_nbins builder_2 = 2"
    by (simp add: builder_2_def ParallelGHistBuilder_Init_def)
  have h: "(0 :: nat) < 2" "(2 :: nat) * 1 < 2 ^ 31" "builder_ok builder_2"
    "0 < pb_nbins builder_2" "length [[7, 7 :: int]] = 1"
    "\<forall>h \<in> set [[7, 7 :: int]]. length h = pb_nbins builder_2"
    "space_ok 1 (pb_nbins builder_2) [10, 20 :: int] [[0], [0, 1]] space_2"
    "distinct [1, 0 :: nat]" "set [1, 0 :: nat] = {..<length space_2}"
    unfolding nb
    by (auto simp: builder_2_def ParallelGHistBuilder_Init_def ParallelGHistBuilder_new_def
        HistCollection_new_def HistCollection_Init_def builder_ok_def space_ok_def space_2_def)
  from exact_pass_serial_sum[OF h] obtain pb where
    p: "build_pass 2 1 space_2 [[7, 7]] [10, 20] [[0], [0, 1]] [1, 0] builder_2 = Inr pb"
    "pb_targeted_hists pb =
       map (\<lambda>nid. serial_hist [10, 20] [[0], [0, 1]] (rows_of_node space_2 nid) (pb_nbins builder_2))
         [0..<1]"
    by blast
  have "map (\<lambda>nid. serial_hist [10, 20 :: int] [[0], [0, 1]] (rows_of_node space_2 nid)
                (pb_nbins builder_2)) [0..<1] = [[30, 20]]"
    unfolding nb by (simp add: serial_hist_def rows_of_node_def space_2_def upt_2 replicate_2)
  then have "pb_targeted_hists pb = [[30, 20]]" using p(2) by simp
  then show ?thesis using h p(1) nb by auto
qed

section \<open>Maps that keep the addition and the zero\<close>

text \<open>Every step of a pass commutes with such a map.\<close>

lemma map_sum_ebind: "map_sum id g (ebind m k) = ebind m (\<lambda>x. map_sum id g (k x))"
  by (cases m) (simp_all add: ebind_def)

lemma ebind_map_sum: "ebind (map_sum id f m) k = ebind m (\<lambda>x. k (f x))"
  by (cases m) (simp_all add: ebind_def)

lemma fold_err_map:
  assumes "\<And>x s. F x (g s) = map_sum id g (F' x s)"
  shows "fold_err F xs (g s) = map_sum id g (fold_err F' xs s)"
proof (induction xs arbitrary: s)
  case Nil
  show ?case by simp
next
  case (Cons x xs)
  show ?case
  proof (cases "F' x s")
    case (Inl e)
    then show ?thesis using assms[of x s] by simp
  next
    case (Inr s')
    then show ?thesis using assms[of x s] Cons[of s'] by simp
  qed
qed

lemma hom_zero: "hom h \<Longrightarrow> h 0 = 0" and hom_add: "hom h \<Longrightarrow> h (a + b) = h a + h b"
  by (simp_all add: hom_def)

lemma InitilizeHistByZeroes_map:
  assumes "hom h"
  shows "InitilizeHistByZeroes (map h hist) beg fin = map_sum id (map h) (InitilizeHistByZeroes hist beg fin)"
  using hom_zero[OF assms] by (simp add: InitilizeHistByZeroes_def)

lemma IncrementHist_map:
  assumes "hom h"
  shows "IncrementHist (map h d) (map h a) beg fin = map_sum id (map h) (IncrementHist d a beg fin)"
  using hom_add[OF assms] by (auto simp: IncrementHist_def)

lemma add_row_map:
  assumes "hom h"
  shows "fold (\<lambda>b k. k[b := k ! b + h g]) bins (map h hist) =
     map h (fold (\<lambda>b k. k[b := k ! b + g]) bins hist)"
proof (induction bins arbitrary: hist)
  case Nil
  show ?case by simp
next
  case (Cons b bins)
  have "(map h hist)[b := map h hist ! b + h g] = map h (hist[b := hist ! b + g])"
  proof (cases "b < length hist")
    case True
    then show ?thesis using hom_add[OF assms] by (simp add: map_update)
  next
    case False
    then have "length hist \<le> b" "length (map h hist) \<le> b" by simp_all
    then show ?thesis by (simp only: list_update_beyond)
  qed
  then show ?case using Cons by simp
qed

lemma kernel_map:
  assumes "hom h" "\<forall>r \<in> set rows. r < length gpair"
  shows "fold (\<lambda>r k. fold (\<lambda>b k. k[b := k ! b + map h gpair ! r]) (gmat ! r) k) rows (map h hist) =
     map h (fold (\<lambda>r k. fold (\<lambda>b k. k[b := k ! b + gpair ! r]) (gmat ! r) k) rows hist)"
  using assms(2)
proof (induction rows arbitrary: hist)
  case Nil
  show ?case by simp
next
  case (Cons r rows)
  have "map h gpair ! r = h (gpair ! r)" using Cons.prems by simp
  then show ?case using Cons add_row_map[OF assms(1)] by simp
qed

lemma BuildHist_map:
  assumes "hom h"
  shows "BuildHist (map h gpair) rows gmat (map h hist) = map_sum id (map h) (BuildHist gpair rows gmat hist)"
proof (cases "list_all (\<lambda>r. r < length gpair \<and> r < length gmat \<and>
                       list_all (\<lambda>b. b < length hist) (gmat ! r)) rows")
  case True
  then have "\<forall>r \<in> set rows. r < length gpair" by (simp add: list_all_iff)
  then show ?thesis using True kernel_map[OF assms] by (simp add: BuildHist_def)
next
  case False
  then show ?thesis by (simp add: BuildHist_def)
qed

lemma serial_hist_map:
  assumes "hom h" "\<forall>r \<in> set rows. r < length gpair"
  shows "serial_hist (map h gpair) gmat rows nbins = map h (serial_hist gpair gmat rows nbins)"
proof -
  have z: "replicate nbins 0 = map h (replicate nbins 0)" using hom_zero[OF assms(1)] by simp
  show ?thesis unfolding serial_hist_def z by (rule kernel_map[OF assms])
qed

lemma map_hc_simps [simp]:
  "hc_nbins (map_hc h hc) = hc_nbins hc"
  "hc_n_nodes_added (map_hc h hc) = hc_n_nodes_added hc"
  "hc_contiguous_allocation (map_hc h hc) = hc_contiguous_allocation hc"
  "hc_data (map_hc h hc) = map (map h) (hc_data hc)"
  "hc_row_ptr (map_hc h hc) = hc_row_ptr hc"
  by (simp_all add: map_hc_def)

lemma map_pb_simps [simp]:
  "pb_nbins (map_pb h pb) = pb_nbins pb"
  "pb_nthreads (map_pb h pb) = pb_nthreads pb"
  "pb_nodes (map_pb h pb) = pb_nodes pb"
  "pb_hist_buffer (map_pb h pb) = map_hc h (pb_hist_buffer pb)"
  "pb_hist_was_used (map_pb h pb) = pb_hist_was_used pb"
  "pb_threads_to_nids_map (map_pb h pb) = pb_threads_to_nids_map pb"
  "pb_targeted_hists (map_pb h pb) = map (map h) (pb_targeted_hists pb)"
  "pb_tid_nid_to_hist (map_pb h pb) = pb_tid_nid_to_hist pb"
  by (simp_all add: map_pb_def)

lemma map_hc_update:
  "(map_hc h hc)\<lparr>hc_row_ptr := r\<rparr> = map_hc h (hc\<lparr>hc_row_ptr := r\<rparr>)"
  "(map_hc h hc)\<lparr>hc_n_nodes_added := n\<rparr> = map_hc h (hc\<lparr>hc_n_nodes_added := n\<rparr>)"
  "(map_hc h hc)\<lparr>hc_nbins := n\<rparr> = map_hc h (hc\<lparr>hc_nbins := n\<rparr>)"
  "(map_hc h hc)\<lparr>hc_data := map (map h) d\<rparr> = map_hc h (hc\<lparr>hc_data := d\<rparr>)"
  by (simp_all add: map_hc_def)

lemma map_pb_update:
  "(map_pb h pb)\<lparr>pb_threads_to_nids_map := m\<rparr> = map_pb h (pb\<lparr>pb_threads_to_nids_map := m\<rparr>)"
  "(map_pb h pb)\<lparr>pb_tid_nid_to_hist := mp\<rparr> = map_pb h (pb\<lparr>pb_tid_nid_to_hist := mp\<rparr>)"
  "(map_pb h pb)\<lparr>pb_hist_was_used := u\<rparr> = map_pb h (pb\<lparr>pb_hist_was_used := u\<rparr>)"
  "(map_pb h pb)\<lparr>pb_nodes := n\<rparr> = map_pb h (pb\<lparr>pb_nodes := n\<rparr>)"
  "(map_pb h pb)\<lparr>pb_nthreads := n\<rparr> = map_pb h (pb\<lparr>pb_nthreads := n\<rparr>)"
  "(map_pb h pb)\<lparr>pb_hist_buffer := map_hc h hc\<rparr> = map_pb h (pb\<lparr>pb_hist_buffer := hc\<rparr>)"
  "(map_pb h pb)\<lparr>pb_targeted_hists := map (map h) t\<rparr> = map_pb h (pb\<lparr>pb_targeted_hists := t\<rparr>)"
  by (simp_all add: map_pb_def)

lemma HistCollection_Init_map:
  "HistCollection_Init n (map_hc h hc) = map_hc h (HistCollection_Init n hc)"
  by (simp add: HistCollection_Init_def map_hc_def)

lemma vector_resize_map: "vector_resize n (h x) (map h xs) = map h (vector_resize n x xs)"
  by (simp add: vector_resize_def take_map)

lemma AddHistRow_map:
  "AddHistRow nid (map_hc h hc) = map_sum id (map_hc h) (AddHistRow nid hc)"
proof -
  have "vector_resize n [] (map (map h) d) = map (map h) (vector_resize n [] d)" for n d
    using vector_resize_map[of n "map h" "[]" d] by simp
  then show ?thesis by (simp add: AddHistRow_def Let_def map_hc_def)
qed

lemma AllocateData_map:
  assumes "hom h"
  shows "AllocateData nid (map_hc h hc) = map_sum id (map_hc h) (AllocateData nid hc)"
proof -
  have "map h (vector_resize n 0 xs) = vector_resize n 0 (map h xs)" for n xs
    using vector_resize_map[of n h 0 xs] hom_zero[OF assms] by simp
  then show ?thesis by (auto simp: AllocateData_def Let_def map_hc_def map_update)
qed

lemma HistCollection_at_map: "HistCollection_at nid (map_hc h hc) = HistCollection_at nid hc"
  by (simp add: HistCollection_at_def Let_def)

lemma MatchThreadsToNodes_map:
  "MatchThreadsToNodes space (map_pb h pb) = map_sum id (map_pb h) (MatchThreadsToNodes space pb)"
  by (simp add: MatchThreadsToNodes_def Let_def map_sum_ebind map_pb_update cong: if_cong)

lemma AllocateAdditionalHistograms_map:
  "AllocateAdditionalHistograms (map_pb h pb) = map_sum id (map_pb h) (AllocateAdditionalHistograms pb)"
proof -
  have "fold_err (\<lambda>i hc. AddHistRow (i mod 2 ^ 32) hc) xs (map_hc h hc) =
      map_sum id (map_hc h) (fold_err (\<lambda>i hc. AddHistRow (i mod 2 ^ 32) hc) xs hc)" for xs hc
    by (rule fold_err_map) (rule AddHistRow_map)
  then show ?thesis
    by (simp add: AllocateAdditionalHistograms_def Let_def map_sum_ebind ebind_map_sum map_pb_update)
qed

lemma MatchNodeNidPairToHist_map:
  "MatchNodeNidPairToHist (map_pb h pb) = map_sum id (map_pb h) (MatchNodeNidPairToHist pb)"
  by (simp add: MatchNodeNidPairToHist_def Let_def map_pb_update)

lemma Reset_map:
  "Reset nthreads nodes space (map (map h) targeted_hists) (map_pb h pb) =
     map_sum id (map_pb h) (Reset nthreads nodes space targeted_hists pb)"
proof -
  let ?pb1 = "pb\<lparr>pb_hist_buffer := HistCollection_Init (pb_nbins pb mod 2 ^ 32) (pb_hist_buffer pb),
                    pb_tid_nid_to_hist := Map.empty,
                    pb_threads_to_nids_map := [],
                    pb_targeted_hists := targeted_hists, pb_nodes := nodes, pb_nthreads := nthreads\<rparr>"
  have 1: "(map_pb h pb)\<lparr>pb_hist_buffer :=
                      HistCollection_Init (pb_nbins (map_pb h pb) mod 2 ^ 32)
                        (pb_hist_buffer (map_pb h pb)),
                    pb_tid_nid_to_hist := Map.empty,
                    pb_threads_to_nids_map := [],
                    pb_targeted_hists := map (map h) targeted_hists, pb_nodes := nodes,
                    pb_nthreads := nthreads\<rparr> = map_pb h ?pb1"
    by (simp add: map_pb_def HistCollection_Init_map)
  have 2: "ebind (MatchThreadsToNodes space (map_pb h ?pb1)) (\<lambda>pb2.
        ebind (AllocateAdditionalHistograms pb2) (\<lambda>pb3.
        ebind (MatchNodeNidPairToHist pb3) (\<lambda>pb4.
          Inr (pb4\<lparr>pb_hist_was_used := replicate (nthreads * pb_nodes pb4) False\<rparr>)))) =
      map_sum id (map_pb h) (ebind (MatchThreadsToNodes space ?pb1) (\<lambda>pb2.
        ebind (AllocateAdditionalHistograms pb2) (\<lambda>pb3.
        ebind (MatchNodeNidPairToHist pb3) (\<lambda>pb4.
          Inr (pb4\<lparr>pb_hist_was_used := replicate (nthreads * pb_nodes pb4) False\<rparr>)))))"
    by (simp add: MatchThreadsToNodes_map AllocateAdditionalHistograms_map
        MatchNodeNidPairToHist_map map_sum_ebind ebind_map_sum map_pb_update)
  show ?thesis
    unfolding Reset_def Let_def 1 2 by simp
qed

lemma read_hist_map:
  "read_hist (map_pb h pb) hist = map_sum id (map h) (read_hist pb hist)"
  by (cases hist) (auto simp: read_hist_def Let_def take_map drop_map)

lemma write_hist_map:
  "write_hist (map_pb h pb) hist (map h x) = map_pb h (write_hist pb hist x)"
proof (cases hist)
  case (Target nid)
  then show ?thesis by (simp add: write_hist_def map_pb_def map_update)
next
  case (Buffer v off)
  let ?d = "hc_data (pb_hist_buffer pb)"
  have "(map (map h) ?d)[v := take off (map (map h) ?d ! v) @ map h x @
            drop (off + hc_nbins (pb_hist_buffer pb)) (map (map h) ?d ! v)]
      = map (map h) (?d[v := take off (?d ! v) @ x @ drop (off + hc_nbins (pb_hist_buffer pb)) (?d ! v)])"
  proof (cases "v < length ?d")
    case True
    then show ?thesis by (simp add: map_update take_map drop_map)
  next
    case False
    then have "length ?d \<le> v" "length (map (map h) ?d) \<le> v" by simp_all
    then show ?thesis by (simp only: list_update_beyond)
  qed
  then show ?thesis using Buffer by (simp add: write_hist_def Let_def map_pb_def map_hc_def)
qed

lemma hist_of_idx_map:
  "hist_of_idx (map_pb h pb) (map_hc h hc) nid idx = hist_of_idx pb hc nid idx"
  by (simp add: hist_of_idx_def HistCollection_at_map)

lemma GetInitializedHist_map:
  assumes "hom h"
  shows "GetInitializedHist tid nid (map_pb h pb) =
     map_sum id (map_prod (map_pb h) id) (GetInitializedHist tid nid pb)"
proof -
  let ?B = "\<lambda>pbx hc hist.
           (let pb1 = pbx\<lparr>pb_hist_buffer := hc\<rparr>; u = tid * pb_nodes pbx + nid in
            if length (pb_hist_was_used pb1) \<le> u then Inl Undefined
            else if \<not> pb_hist_was_used pb1 ! u then
              ebind (read_hist pb1 hist) (\<lambda>x.
              ebind (InitilizeHistByZeroes x 0 (length x)) (\<lambda>z.
                Inr ((write_hist pb1 hist z)\<lparr>pb_hist_was_used := (pb_hist_was_used pb1)[u := True]\<rparr>,
                     hist)))
            else Inr (pb1, hist))"
  have z: "InitilizeHistByZeroes (map h x) 0 (length x) =
      map_sum id (map h) (InitilizeHistByZeroes x 0 (length x))" for x
    by (rule InitilizeHistByZeroes_map[OF assms])
  have body: "?B (map_pb h pb) (map_hc h hc) hist =
      map_sum id (map_prod (map_pb h) id) (?B pb hc hist)" for hc hist
    by (simp add: Let_def map_pb_update read_hist_map z write_hist_map map_sum_ebind ebind_map_sum)
  show ?thesis
  proof (cases "nid < pb_nodes pb \<and> tid < pb_nthreads pb")
    case False
    then show ?thesis by (auto simp: GetInitializedHist_def)
  next
    case True
    show ?thesis
    proof (cases "pb_tid_nid_to_hist pb (tid, nid)")
      case None
      then show ?thesis using True by (simp add: GetInitializedHist_def)
    next
      case (Some idx)
      define A where "A = (if 0 \<le> idx then AllocateData (int_to_bst_uint idx) (pb_hist_buffer pb)
                           else Inr (pb_hist_buffer pb))"
      have A': "(if 0 \<le> idx then AllocateData (int_to_bst_uint idx) (map_hc h (pb_hist_buffer pb))
                 else Inr (map_hc h (pb_hist_buffer pb))) = map_sum id (map_hc h) A"
        by (simp add: A_def AllocateData_map[OF assms])
      have L: "GetInitializedHist tid nid pb =
          ebind A (\<lambda>hc. ebind (hist_of_idx pb hc nid idx) (?B pb hc))"
        unfolding GetInitializedHist_def A_def using True Some by simp
      have R0: "GetInitializedHist tid nid (map_pb h pb) =
          ebind (if 0 \<le> idx then AllocateData (int_to_bst_uint idx) (map_hc h (pb_hist_buffer pb))
                 else Inr (map_hc h (pb_hist_buffer pb)))
            (\<lambda>hc. ebind (hist_of_idx (map_pb h pb) hc nid idx) (?B (map_pb h pb) hc))"
        unfolding GetInitializedHist_def using True Some by simp
      have R: "GetInitializedHist tid nid (map_pb h pb) =
          ebind (map_sum id (map_hc h) A)
            (\<lambda>hc. ebind (hist_of_idx (map_pb h pb) hc nid idx) (?B (map_pb h pb) hc))"
        using R0 unfolding A' .
      show ?thesis
      proof (cases A)
        case (Inl e)
        then show ?thesis unfolding L R by simp
      next
        case (Inr hc)
        show ?thesis
        proof (cases "hist_of_idx pb hc nid idx")
          case Inl
          then show ?thesis unfolding L R Inr
            by (simp only: map_sum.simps id_apply ebind_Inr ebind_Inl hist_of_idx_map)
        next
          case (Inr hist)
          then show ?thesis unfolding L R \<open>A = Inr hc\<close>
            by (simp only: map_sum.simps id_apply ebind_Inr ebind_Inl hist_of_idx_map body)
        qed
      qed
    qed
  qed
qed

lemma build_unit_map:
  assumes "hom h"
  shows "build_unit (map h gpair) gmat space nthreads i (map_pb h pb) =
     map_sum id (map_pb h) (build_unit gpair gmat space nthreads i pb)"
proof (cases "i < length space")
  case False
  then show ?thesis by (simp add: build_unit_def)
next
  case True
  let ?nid = "fst (space ! i)" let ?rows = "snd (space ! i)"
  let ?tid = "thread_of_unit (length space) nthreads i"
  have L: "build_unit gpair gmat space nthreads i pb =
      ebind (GetInitializedHist ?tid ?nid pb) (\<lambda>(pb1, hist).
           ebind (read_hist pb1 hist) (\<lambda>x.
           ebind (BuildHist gpair ?rows gmat x) (\<lambda>y. Inr (write_hist pb1 hist y))))"
    using True by (simp add: build_unit_def Let_def)
  have R: "build_unit (map h gpair) gmat space nthreads i (map_pb h pb) =
      ebind (GetInitializedHist ?tid ?nid (map_pb h pb)) (\<lambda>(pb1, hist).
           ebind (read_hist pb1 hist) (\<lambda>x.
           ebind (BuildHist (map h gpair) ?rows gmat x) (\<lambda>y. Inr (write_hist pb1 hist y))))"
    using True by (simp add: build_unit_def Let_def)
  show ?thesis
  proof (cases "GetInitializedHist ?tid ?nid pb")
    case (Inl e)
    then show ?thesis unfolding L R GetInitializedHist_map[OF assms] by simp
  next
    case (Inr p)
    obtain pb1 hist where p: "p = (pb1, hist)" by (cases p)
    show ?thesis
      unfolding L R GetInitializedHist_map[OF assms] Inr p
      by (simp add: read_hist_map BuildHist_map[OF assms] write_hist_map map_sum_ebind ebind_map_sum)
  qed
qed

lemma map_sum_if:
  "map_sum f g (if c then a else b) = (if c then map_sum f g a else map_sum f g b)"
  by simp

lemma reduce_tid_map:
  assumes "hom h"
  shows "reduce_tid nid beg fin tid (map_pb h pb, u) =
     map_sum id (map_prod (map_pb h) id) (reduce_tid nid beg fin tid (pb, u))"
proof -
  have w: "write_hist (map_pb h pb) (Target nid) (map h x) = map_pb h (write_hist pb (Target nid) x)" for x
    by (rule write_hist_map)
  show ?thesis
    unfolding reduce_tid_def Let_def
    by (simp add: hist_of_idx_map[of h pb "pb_hist_buffer pb", simplified] read_hist_map
        IncrementHist_map[OF assms] w map_sum_ebind ebind_map_sum map_sum_if
        split: option.splits cong: if_cong)
qed

lemma ReduceHist_map:
  assumes "hom h"
  shows "ReduceHist nid beg fin (map_pb h pb) = map_sum id (map_pb h) (ReduceHist nid beg fin pb)"
proof -
  have f: "fold_err (reduce_tid nid beg fin) xs (map_prod (map_pb h) id s) =
      map_sum id (map_prod (map_pb h) id) (fold_err (reduce_tid nid beg fin) xs s)" for xs s
    by (rule fold_err_map) (simp add: reduce_tid_map[OF assms] split_paired_all)
  have f': "fold_err (reduce_tid nid beg fin) xs (map_pb h pb, False) =
      map_sum id (map_prod (map_pb h) id) (fold_err (reduce_tid nid beg fin) xs (pb, False))" for xs
    using f[of xs "(pb, False)"] by simp
  have w: "write_hist (map_pb h p) (Target nid) (map h x) = map_pb h (write_hist p (Target nid) x)" for x p
    by (rule write_hist_map)
  show ?thesis
    unfolding ReduceHist_def
    by (simp add: f' read_hist_map InitilizeHistByZeroes_map[OF assms] w map_sum_ebind ebind_map_sum
        map_sum_if cong: if_cong)
qed

lemma build_pass_map:
  assumes "hom h"
  shows "build_pass nthreads nodes space (map (map h) targeted_hists) (map h gpair) gmat order (map_pb h pb) =
     map_sum id (map_pb h) (build_pass nthreads nodes space targeted_hists gpair gmat order pb)"
proof -
  have u: "fold_err (build_unit (map h gpair) gmat space nthreads) xs (map_pb h p) =
      map_sum id (map_pb h) (fold_err (build_unit gpair gmat space nthreads) xs p)" for xs p
    by (rule fold_err_map) (rule build_unit_map[OF assms])
  have r: "fold_err (\<lambda>nid. ReduceHist nid 0 n) xs (map_pb h p) =
      map_sum id (map_pb h) (fold_err (\<lambda>nid. ReduceHist nid 0 n) xs p)" for xs p n
    by (rule fold_err_map) (rule ReduceHist_map[OF assms])
  show ?thesis
    unfolding build_pass_def
    by (simp add: Reset_map u r map_sum_ebind ebind_map_sum)
qed

text \<open>
  The parts of a tally and its double are such maps; the double of a tally is determined
  by the parts while they are small.
\<close>

lemma hom_pair:
  assumes "hom h"
  shows "hom (map_GradientPairInternal h)"
  using assms unfolding hom_def
  by (simp add: plus_GradientPairInternal_def zero_GradientPairInternal_def GradientPairInternal.map_sel)

lemma hom_pos_part: "hom pos_part" and hom_neg_part: "hom neg_part" and hom_total: "hom total"
  by (simp_all add: hom_def plus_tally_def zero_tally_def total_def)

lemma hom_as_double: "hom as_double"
  unfolding hom_def
proof (intro conjI allI)
  show "as_double 0 = 0" by (simp add: as_double_def zero_tally_def zero_double_def)
next
  fix a b :: tally
  show "as_double (a + b) = as_double a + as_double b"
  proof (cases "pos_part a + pos_part b + (neg_part a + neg_part b) < 2 ^ 53")
    case False
    then show ?thesis by (simp add: as_double_def plus_tally_def)
  next
    case True
    let ?va = "int (pos_part a) - int (neg_part a)" let ?vb = "int (pos_part b) - int (neg_part b)"
    have a: "as_double a = Finite ?va" and b: "as_double b = Finite ?vb"
      using True by (simp_all add: as_double_def)
    have "\<bar>?va + ?vb\<bar> \<le> int (pos_part a + pos_part b + (neg_part a + neg_part b))" by simp
    also have "\<dots> < 2 ^ 53" using True by (metis of_nat_less_numeral_power_cancel_iff)
    finally have "Finite ?va + Finite ?vb = Finite (?va + ?vb)" by (rule double_add_exact)
    then show ?thesis using True a b by (simp add: as_double_def plus_tally_def)
  qed
qed

lemma as_double_tally_of: "as_double (tally_of d) = d"
  by (cases d) (auto simp: as_double_def tally_of_def)

lemma total_tally_of: "total (tally_of d) = magnitude d"
  by (cases d) (auto simp: total_def tally_of_def magnitude_def)

lemma as_double_cong:
  assumes "pos_part a = pos_part b" "neg_part a = neg_part b" "total b < 2 ^ 53"
  shows "as_double a = as_double b"
  using assms by (simp add: as_double_def total_def)

lemma map_hc_comp: "map_hc f (map_hc g hc) = map_hc (f \<circ> g) hc"
  by (simp add: map_hc_def)

lemma map_pb_comp: "map_pb f (map_pb g pb) = map_pb (f \<circ> g) pb"
  by (simp add: map_pb_def map_hc_comp)

lemma map_hc_id: "map_hc (\<lambda>x. x) hc = hc"
  by (simp add: map_hc_def)

lemma map_pb_id: "map_pb (\<lambda>x. x) pb = pb"
  by (simp add: map_pb_def map_hc_id)

lemma builder_ok_map: "builder_ok (map_pb h pb) = builder_ok pb"
  by (simp add: builder_ok_def list_all_iff)

lemma space_ok_map: "space_ok nodes nbins (map h gpair) gmat space = space_ok nodes nbins gpair gmat space"
  by (simp add: space_ok_def)

lemma pair_tally_of:
  "map_GradientPairInternal as_double (map_GradientPairInternal tally_of g) = g"
  "map_GradientPairInternal total (map_GradientPairInternal tally_of g) =
     map_GradientPairInternal magnitude g"
  by (cases g, simp add: as_double_tally_of) (cases g, simp add: total_tally_of)

lemma rows_of_node_valid:
  assumes "space_ok nodes nbins gpair gmat space"
  shows "\<forall>r \<in> set (rows_of_node space nid). r < length gpair"
  using assms by (auto simp: rows_of_node_def space_ok_def list_all_iff)

lemma pair_as_double_cong:
  assumes "map_GradientPairInternal pos_part a = map_GradientPairInternal pos_part b"
    and "map_GradientPairInternal neg_part a = map_GradientPairInternal neg_part b"
    and "GetGrad (map_GradientPairInternal total b) < 2 ^ 53"
    and "GetHess (map_GradientPairInternal total b) < 2 ^ 53"
  shows "map_GradientPairInternal as_double a = map_GradientPairInternal as_double b"
proof -
  obtain a1 a2 where a: "a = GradientPairInternal a1 a2" by (cases a)
  obtain b1 b2 where b: "b = GradientPairInternal b1 b2" by (cases b)
  have "as_double a1 = as_double b1" using assms(1,2,3) unfolding a b by (intro as_double_cong) simp_all
  moreover have "as_double a2 = as_double b2"
    using assms(1,2,4) unfolding a b by (intro as_double_cong) simp_all
  ultimately show ?thesis by (simp add: a b)
qed

section \<open>A full build pass with sums in \<^verbatim>\<open>double\<close>\<close>




end
